(* ===== verification/Feed_Prelude.thy ===== *)
theory Feed_Prelude
  imports Main "HOL-Library.Word"
begin

text \<open>
  Shared vocabulary of the development: the machine integers of the C++ code, byte strings and
  their little-endian reading, the byte-addressed memory that UMEM frames live in, and the word
  lemmas on power-of-two masks that the ring buffer and the region arithmetic rely on.

  The modelled host is x86-64 Linux: \<open>size_t\<close> is 64 bits wide and multi-byte loads are
  little-endian.
\<close>

unbundle bit_operations_syntax

section \<open>Types\<close>

type_synonym u8 = "8 word"
type_synonym u16 = "16 word"
type_synonym u32 = "32 word"
type_synonym u64 = "64 word"
type_synonym bytes = "8 word list"

text \<open>
  A pointer is a 64-bit address, \<open>nullptr\<close> is 0. A memory maps an address to the byte stored
  there; \<open>None\<close> means the address belongs to no object, so that reading it is undefined
  behaviour.
\<close>

type_synonym ptr = "64 word"
type_synonym memory = "64 word \<Rightarrow> 8 word option"

abbreviation nullptr :: ptr where "nullptr \<equiv> 0"

named_theorems mem_simps \<open>loads from memory\<close>
named_theorems bytes_simps \<open>lengths and round trips of byte encodings\<close>

section \<open>Definitions\<close>

fun le_bytes :: "nat \<Rightarrow> 'a::len word \<Rightarrow> bytes" where
  "le_bytes 0 w = []"
| "le_bytes (Suc n) w = ucast w # le_bytes n (drop_bit 8 w)"

fun le_word :: "bytes \<Rightarrow> 'a::len word" where
  "le_word [] = 0"
| "le_word (b # bs) = ucast b OR push_bit 8 (le_word bs)"

definition be_word :: "bytes \<Rightarrow> 'a::len word" where
  "be_word bs = le_word (rev bs)"

definition ntohs :: "u16 \<Rightarrow> u16" where
  "ntohs x = push_bit 8 x OR drop_bit 8 x"

definition load_bytes :: "memory \<Rightarrow> ptr \<Rightarrow> nat \<Rightarrow> bytes option" where
  "load_bytes m p n = those (map (\<lambda>i. m (p + of_nat i)) [0..<n])"

definition load_u8 :: "memory \<Rightarrow> ptr \<Rightarrow> u8 option" where
  "load_u8 m p = m p"

definition load_u16 :: "memory \<Rightarrow> ptr \<Rightarrow> u16 option" where
  "load_u16 m p = map_option le_word (load_bytes m p 2)"

definition load_u32 :: "memory \<Rightarrow> ptr \<Rightarrow> u32 option" where
  "load_u32 m p = map_option le_word (load_bytes m p 4)"

text \<open>The bytes \<open>bs\<close> are stored at address \<open>p\<close>.\<close>

definition stored_at :: "memory \<Rightarrow> ptr \<Rightarrow> bytes \<Rightarrow> bool" where
  "stored_at m p bs \<longleftrightarrow> (\<forall>i < length bs. m (p + of_nat i) = Some (bs ! i))"

text \<open>A memory that consists of one object with the given bytes at the given address.\<close>

definition mem_of :: "ptr \<Rightarrow> bytes \<Rightarrow> memory" where
  "mem_of p bs = (\<lambda>a. if unat (a - p) < length bs then Some (bs ! unat (a - p)) else None)"

text \<open>The value of a decimal digit.\<close>

definition digit :: "char \<Rightarrow> nat option" where
  "digit c = (let k = of_char c in if 48 \<le> k \<and> k \<le> 57 then Some (k - 48) else None)"

section \<open>Byte encodings\<close>

lemma length_le_bytes [simp, bytes_simps]: "length (le_bytes n w) = n"
  by (induction n arbitrary: w) auto

lemma le_word_le_bytes [bytes_simps]: "le_word (le_bytes n w) = take_bit (8 * n) (w :: 'a::len word)"
proof (induction n arbitrary: w)
  case (Suc n)
  have "ucast (ucast w :: u8) OR push_bit 8 (take_bit (8 * n) (drop_bit 8 w)) = take_bit (8 + 8 * n) w"
    by (rule bit_word_eqI) (auto simp: bit_simps)
  then show ?case by (simp add: Suc.IH)
qed simp

lemma le_word_u16 [simp]: "le_word (le_bytes 2 w) = (w :: u16)"
  and le_word_u32 [simp]: "le_word (le_bytes 4 w') = (w' :: u32)"
  and le_word_u64 [simp]: "le_word (le_bytes 8 w'') = (w'' :: u64)"
  by (simp_all add: le_word_le_bytes take_bit_word_eq_self)

lemma ntohs_le_word: "ntohs (le_word [a, b]) = be_word [a, b]"
  unfolding ntohs_def be_word_def
  by (rule bit_word_eqI) (auto simp: bit_simps dest: bit_imp_le_length)

lemma ntohs_ntohs [simp]: "ntohs (ntohs x) = x"
  unfolding ntohs_def by (rule bit_word_eqI) (auto simp: bit_simps)

section \<open>Loads\<close>

lemma those_map_Some: "(\<forall>x \<in> set xs. f x = Some (g x)) \<Longrightarrow> those (map f xs) = Some (map g xs)"
  by (induction xs) auto

lemma those_map_None: "x \<in> set xs \<Longrightarrow> f x = None \<Longrightarrow> those (map f xs) = None"
  by (induction xs) (auto split: option.splits)

lemma load_bytes_stored [mem_simps]:
  assumes "stored_at m p bs" and "k + n \<le> length bs"
  shows "load_bytes m (p + of_nat k) n = Some (take n (drop k bs))"
proof -
  have "those (map (\<lambda>i. m (p + of_nat k + of_nat i)) [0..<n]) = Some (map (\<lambda>i. bs ! (k + i)) [0..<n])"
  proof (rule those_map_Some, rule ballI)
    fix i assume "i \<in> set [0..<n]"
    then have "k + i < length bs" using assms(2) by auto
    then have "m (p + of_nat (k + i)) = Some (bs ! (k + i))"
      using assms(1) unfolding stored_at_def by blast
    then show "m (p + of_nat k + of_nat i) = Some (bs ! (k + i))"
      by (simp add: add.assoc)
  qed
  moreover have "map (\<lambda>i. bs ! (k + i)) [0..<n] = take n (drop k bs)"
    using assms(2) by (intro nth_equalityI) auto
  ultimately show ?thesis by (simp add: load_bytes_def)
qed

lemma load_bytes_length: "load_bytes m p n = Some bs \<Longrightarrow> length bs = n"
proof -
  have "those (map f xs) = Some ys \<Longrightarrow> length ys = length xs" for f :: "nat \<Rightarrow> 8 word option" and xs ys
    by (induction xs arbitrary: ys) (auto split: option.splits)
  then show "load_bytes m p n = Some bs \<Longrightarrow> length bs = n" unfolding load_bytes_def by fastforce
qed

lemma load_u8_stored [mem_simps]:
  "stored_at m p bs \<Longrightarrow> k < length bs \<Longrightarrow> load_u8 m (p + of_nat k) = Some (bs ! k)"
  by (simp add: load_u8_def stored_at_def)

lemma stored_at_nonnull:
  "stored_at m p bs \<Longrightarrow> m nullptr = None \<Longrightarrow> k < length bs \<Longrightarrow> p + of_nat k \<noteq> nullptr"
  by (auto simp: stored_at_def)

lemma stored_at_take: "stored_at m p bs \<Longrightarrow> stored_at m p (take n bs)"
  by (simp add: stored_at_def)

lemma load_bytes_unmapped:
  "m (p + of_nat i) = None \<Longrightarrow> i < n \<Longrightarrow> load_bytes m p n = None"
  unfolding load_bytes_def by (rule those_map_None) auto

lemma stored_at_mem_of [simp]: "length bs < 2 ^ 64 \<Longrightarrow> stored_at (mem_of p bs) p bs"
  by (auto simp: stored_at_def mem_of_def unat_of_nat take_bit_nat_eq_self)

section \<open>Power-of-two masks\<close>

lemma nat_pow2_of_and:
  "0 < n \<Longrightarrow> n AND (n - 1) = 0 \<Longrightarrow> \<exists>k. n = 2 ^ k" for n :: nat
proof (induction n rule: less_induct)
  case (less n)
  show ?case
  proof (cases "even n")
    case True
    then obtain m where m: "n = 2 * m" by (elim evenE)
    with less.prems have "0 < m" by simp
    then have "n - 1 = Suc (2 * (m - 1))" using m by simp
    then have "(2 * m) AND Suc (2 * (m - 1)) = 0" using less.prems(2) m by simp
    then have "m AND (m - 1) = 0"
      by (subst (asm) and_nat_rec) auto
    with less.IH [of m] \<open>0 < m\<close> m obtain k where "m = 2 ^ k" by auto
    with m have "n = 2 ^ Suc k" by simp
    then show ?thesis by blast
  next
    case False
    then obtain m where m: "n = Suc (2 * m)" by (metis oddE Suc_eq_plus1)
    then have "Suc (2 * m) AND (2 * m) = 0" using less.prems(2) by simp
    then have "m = 0" by (subst (asm) and_nat_rec) (auto simp: m)
    then have "n = 2 ^ 0" using m by simp
    then show ?thesis by blast
  qed
qed

text \<open>
  A non-zero word \<open>n\<close> with \<open>n AND (n - 1) = 0\<close> is a power of two, and masking with \<open>n - 1\<close> is
  the remainder modulo \<open>n\<close>; this is the test of the \<open>static_assert\<close> in the ring buffer.
\<close>

lemma pow2_word:
  fixes n :: u64
  assumes "n \<noteq> 0" and "n AND (n - 1) = 0"
  obtains k where "unat n = 2 ^ k"
proof -
  have "unat n AND unat (n - 1) = 0"
    using assms(2) by (metis unsigned_and_eq unsigned_0)
  moreover have "unat (n - 1) = unat n - 1"
    using assms(1) by (rule unat_minus_one)
  moreover have "0 < unat n" using assms(1) by (simp add: unat_gt_0)
  ultimately obtain k where "unat n = 2 ^ k" using nat_pow2_of_and [of "unat n"] by auto
  then show thesis by (rule that)
qed

lemma unat_and_mask:
  fixes n x :: u64
  assumes "n \<noteq> 0" and "n AND (n - 1) = 0"
  shows "unat (x AND (n - 1)) = unat x mod unat n"
proof -
  obtain k where k: "unat n = 2 ^ k" using assms by (rule pow2_word)
  have "unat (x AND (n - 1)) = unat x AND unat (n - 1)" by (rule unsigned_and_eq)
  also have "unat (n - 1) = 2 ^ k - 1" using assms(1) k by (simp add: unat_minus_one)
  also have "unat x AND (2 ^ k - 1) = take_bit k (unat x)"
    by (simp add: take_bit_eq_mask mask_eq_exp_minus_1)
  also have "\<dots> = unat x mod unat n" by (simp add: take_bit_eq_mod k)
  finally show ?thesis .
qed

lemma unat_ucast_up:
  fixes w :: "'a::len word"
  assumes "LENGTH('a) \<le> LENGTH('b::len)"
  shows "unat (ucast w :: 'b word) = unat w"
proof -
  have "unat w < 2 ^ LENGTH('a)" by (rule unsigned_less)
  also have "(2 :: nat) ^ LENGTH('a) \<le> 2 ^ LENGTH('b)" using assms by (rule power_increasing) simp
  finally show ?thesis by (simp add: unsigned_ucast_eq take_bit_nat_eq_self)
qed

lemma unat_add_lt: "unat x + unat y < 2 ^ 64 \<Longrightarrow> unat (x + y) = unat x + unat y" for x y :: u64
  by (simp add: unat_add_lem [THEN iffD1])

lemma unat_mult_lt: "unat x * unat y < 2 ^ 64 \<Longrightarrow> unat (x * y) = unat x * unat y" for x y :: u64
  by (simp add: unat_mult_lem [THEN iffD1])

end
