(* ===== verification/Queue_Interface.thy ===== *)
theory Queue_Interface
  imports Feed_Prelude "HOL-Library.Sublist"
begin

text \<open>
  The contract between the ring buffer and its clients: a bounded FIFO queue. The locale
  \<open>bounded_queue\<close> names the operations a client calls and the laws the provider promises;
  \<open>initial_queue\<close> adds the freshly constructed queue. Everything a client needs (the pushes of
  a batch, arbitrary interleavings of whole operations) is proved here once, from the laws.
\<close>

section \<open>Clients of a queue\<close>

text \<open>
  Pushing a batch in order; the first component counts the rejected items, as the receive
  loop's drop counter does.
\<close>

fun push_all :: "('q \<Rightarrow> 'a \<Rightarrow> bool \<times> 'q) \<Rightarrow> 'q \<Rightarrow> 'a list \<Rightarrow> nat \<times> 'q" where
  "push_all psh q [] = (0, q)"
| "push_all psh q (x # xs) =
     (let (ok, q1) = psh q x; (d, q2) = push_all psh q1 xs
      in (if ok then d else Suc d, q2))"

text \<open>
  A sequence of whole operations by the producer and the consumer, in any order. The run
  collects the accepted items, the popped items, and the number of rejected pushes.
\<close>

datatype 'a qop = Push 'a | Pop

fun run_ops :: "('q \<Rightarrow> 'a \<Rightarrow> bool \<times> 'q) \<Rightarrow> ('q \<Rightarrow> 'a option \<times> 'q) \<Rightarrow> 'q \<Rightarrow> 'a qop list \<Rightarrow>
    'a list \<times> 'a list \<times> nat \<times> 'q" where
  "run_ops psh pp q [] = ([], [], 0, q)"
| "run_ops psh pp q (Push x # ops) =
     (let (ok, q1) = psh q x; (acc, out, rej, q2) = run_ops psh pp q1 ops
      in (if ok then x # acc else acc, out, if ok then rej else Suc rej, q2))"
| "run_ops psh pp q (Pop # ops) =
     (let (r, q1) = pp q; (acc, out, rej, q2) = run_ops psh pp q1 ops
      in (acc, (case r of None \<Rightarrow> out | Some x \<Rightarrow> x # out), rej, q2))"

text \<open>The specification: a list that holds at most \<open>bound\<close> items.\<close>

definition spec_push :: "nat \<Rightarrow> 'a list \<Rightarrow> 'a \<Rightarrow> bool \<times> 'a list" where
  "spec_push bound xs x = (if length xs < bound then (True, xs @ [x]) else (False, xs))"

definition spec_pop :: "'a list \<Rightarrow> 'a option \<times> 'a list" where
  "spec_pop xs = (case xs of [] \<Rightarrow> (None, []) | x # ys \<Rightarrow> (Some x, ys))"

section \<open>Composing runs\<close>

lemma run_ops_append:
  "run_ops psh pp q (a @ b) =
    (let (acc1, out1, rej1, q1) = run_ops psh pp q a; (acc2, out2, rej2, q2) = run_ops psh pp q1 b
     in (acc1 @ acc2, out1 @ out2, rej1 + rej2, q2))"
proof (induction a arbitrary: q)
  case (Cons op a)
  then show ?case by (cases op) (auto simp: case_prod_beta Let_def split: option.split)
qed simp

lemma run_ops_pushes:
  "\<exists>acc. run_ops psh pp q (map Push xs) = (acc, [], fst (push_all psh q xs), snd (push_all psh q xs)) \<and>
     subseq acc xs \<and> length acc + fst (push_all psh q xs) = length xs"
proof (induction xs arbitrary: q)
  case (Cons x xs)
  obtain ok q1 where s: "psh q x = (ok, q1)" by fastforce
  obtain acc where "run_ops psh pp q1 (map Push xs) = (acc, [], fst (push_all psh q1 xs), snd (push_all psh q1 xs))"
    "subseq acc xs" "length acc + fst (push_all psh q1 xs) = length xs" using Cons.IH by blast
  then show ?case using s by (auto simp: case_prod_beta)
qed simp

section \<open>The interface\<close>

locale bounded_queue =
  fixes psh :: "'q \<Rightarrow> 'a \<Rightarrow> bool \<times> 'q"
    and pp :: "'q \<Rightarrow> 'a option \<times> 'q"
    and items :: "'q \<Rightarrow> 'a list"
    and invar :: "'q \<Rightarrow> bool"
    and bound :: nat
  assumes psh_accept: "invar q \<Longrightarrow> length (items q) < bound \<Longrightarrow>
      fst (psh q x) \<and> items (snd (psh q x)) = items q @ [x]"
    and psh_reject: "invar q \<Longrightarrow> length (items q) = bound \<Longrightarrow> psh q x = (False, q)"
    and pp_empty: "invar q \<Longrightarrow> items q = [] \<Longrightarrow> pp q = (None, q)"
    and pp_item: "invar q \<Longrightarrow> items q = x # xs \<Longrightarrow> fst (pp q) = Some x \<and> items (snd (pp q)) = xs"
    and invar_psh: "invar q \<Longrightarrow> invar (snd (psh q x))"
    and invar_pp: "invar q \<Longrightarrow> invar (snd (pp q))"
    and invar_bound: "invar q \<Longrightarrow> length (items q) \<le> bound"
begin

text \<open>Both operations refine the list specification.\<close>

lemma psh_refines:
  assumes "invar q"
  shows "map_prod id items (psh q x) = spec_push bound (items q) x"
proof (cases "length (items q) < bound")
  case True
  with psh_accept [OF assms True, of x] show ?thesis
    by (cases "psh q x") (simp add: spec_push_def)
next
  case False
  with invar_bound [OF assms] have "length (items q) = bound" by simp
  with psh_reject [OF assms this] show ?thesis by (simp add: spec_push_def)
qed

lemma pp_refines:
  assumes "invar q"
  shows "map_prod id items (pp q) = spec_pop (items q)"
proof (cases "items q")
  case Nil
  with pp_empty [OF assms] show ?thesis by (simp add: spec_pop_def)
next
  case (Cons x xs)
  with pp_item [OF assms Cons] show ?thesis
    by (cases "pp q") (simp add: spec_pop_def)
qed

text \<open>A batch is accepted up to the free space and the rest is counted as rejected.\<close>

lemma push_all_items:
  assumes "invar q"
  shows "invar (snd (push_all psh q xs))"
    and "items (snd (push_all psh q xs)) = items q @ take (bound - length (items q)) xs"
    and "fst (push_all psh q xs) = length xs - (bound - length (items q))"
proof -
  have "invar (snd (push_all psh q xs)) \<and>
    items (snd (push_all psh q xs)) = items q @ take (bound - length (items q)) xs \<and>
    fst (push_all psh q xs) = length xs - (bound - length (items q))"
    using assms
  proof (induction xs arbitrary: q)
    case (Cons x xs)
    obtain ok q1 where step: "psh q x = (ok, q1)" by (cases "psh q x")
    with invar_psh [OF Cons.prems, of x] have "invar q1" by simp
    note IH = Cons.IH [OF this]
    have spec: "(ok, items q1) = spec_push bound (items q) x"
      using psh_refines [OF Cons.prems, of x] step by simp
    show ?case
    proof (cases "length (items q) < bound")
      case True
      with spec have "ok" "items q1 = items q @ [x]" by (auto simp: spec_push_def)
      moreover from True have "bound - length (items q) = Suc (bound - Suc (length (items q)))" by simp
      ultimately show ?thesis using IH step by (auto simp: case_prod_beta)
    next
      case False
      with spec have "\<not> ok" "items q1 = items q" by (auto simp: spec_push_def)
      with False show ?thesis using IH step by (auto simp: case_prod_beta)
    qed
  qed simp
  then show "invar (snd (push_all psh q xs))"
    and "items (snd (push_all psh q xs)) = items q @ take (bound - length (items q)) xs"
    and "fst (push_all psh q xs) = length xs - (bound - length (items q))"
    by blast+
qed

text \<open>No item is lost, duplicated or reordered by any interleaving of operations.\<close>

lemma run_ops_fifo:
  assumes "invar q" and "run_ops psh pp q ops = (acc, out, rej, q')"
  shows "invar q'" and "items q @ acc = out @ items q'"
proof -
  have "invar q' \<and> items q @ acc = out @ items q'"
    using assms
  proof (induction ops arbitrary: q acc out rej)
    case (Cons op ops)
    show ?case
    proof (cases op)
      case (Push x)
      obtain ok q1 where step: "psh q x = (ok, q1)" by (cases "psh q x")
      with invar_psh [OF Cons.prems(1), of x] have "invar q1" by simp
      moreover obtain acc1 out1 rej1 q2 where "run_ops psh pp q1 ops = (acc1, out1, rej1, q2)"
        by (cases "run_ops psh pp q1 ops") auto
      moreover have "(ok, items q1) = spec_push bound (items q) x"
        using psh_refines [OF Cons.prems(1), of x] step by simp
      ultimately show ?thesis using Cons.IH [of q1] Cons.prems(2) Push step
        by (auto simp: spec_push_def split: if_splits)
    next
      case Pop
      obtain r q1 where step: "pp q = (r, q1)" by (cases "pp q")
      with invar_pp [OF Cons.prems(1)] have "invar q1" by simp
      moreover obtain acc1 out1 rej1 q2 where "run_ops psh pp q1 ops = (acc1, out1, rej1, q2)"
        by (cases "run_ops psh pp q1 ops") auto
      moreover have "(r, items q1) = spec_pop (items q)"
        using pp_refines [OF Cons.prems(1)] step by simp
      ultimately show ?thesis using Cons.IH [of q1] Cons.prems(2) Pop step
        by (auto simp: spec_pop_def split: list.splits option.splits)
    qed
  qed simp
  then show "invar q'" and "items q @ acc = out @ items q'" by blast+
qed

text \<open>As long as all pushes together fit, none is rejected, however pushes and pops interleave.\<close>

lemma run_ops_no_reject:
  assumes "invar q" "run_ops psh pp q ops = (acc, out, rej, q')" "length (items q) + length acc + rej \<le> bound"
  shows "rej = 0"
  using assms
proof (induction ops arbitrary: q acc out rej)
  case (Cons op ops)
  show ?case
  proof (cases op)
    case (Push x)
    obtain ok q1 acc1 out1 rej1 q2 where step: "psh q x = (ok, q1)" "run_ops psh pp q1 ops = (acc1, out1, rej1, q2)"
      by (metis prod_cases4 surj_pair)
    have "invar q1" using invar_psh [OF Cons.prems(1), of x] step(1) by simp
    moreover have "length (items q) < bound" using Cons.prems(2,3) Push step by (auto split: if_splits)
    then have "ok" "items q1 = items q @ [x]" using psh_accept [OF Cons.prems(1), of x] step(1) by simp_all
    ultimately show ?thesis using Cons.IH [of q1 acc1 out1 rej1] Cons.prems(2,3) Push step by auto
  next
    case Pop
    obtain r q1 acc1 out1 rej1 q2 where step: "pp q = (r, q1)" "run_ops psh pp q1 ops = (acc1, out1, rej1, q2)"
      by (metis prod_cases4 surj_pair)
    have "invar q1" using invar_pp [OF Cons.prems(1)] step(1) by simp
    moreover have "(r, items q1) = spec_pop (items q)" using pp_refines [OF Cons.prems(1)] step(1) by simp
    then have "length (items q1) \<le> length (items q)" by (auto simp: spec_pop_def split: list.splits)
    ultimately show ?thesis using Cons.IH [of q1 acc1 out1 rej1] Cons.prems(2,3) Pop step by auto
  qed
qed simp

end

text \<open>A queue together with its freshly constructed state.\<close>

locale initial_queue = bounded_queue psh pp items invar bound
    for psh :: "'q \<Rightarrow> 'a \<Rightarrow> bool \<times> 'q" and pp items invar bound +
  fixes fresh :: 'q
  assumes invar_fresh: "invar fresh" and items_fresh: "items fresh = []"
begin

lemma fresh_run_fifo:
  "run_ops psh pp fresh ops = (acc, out, rej, q') \<Longrightarrow> acc = out @ items q' \<and> length (items q') \<le> bound"
  using run_ops_fifo [OF invar_fresh] items_fresh invar_bound by force

end

end
