(* ===== verification/Spsc_Ring.thy ===== *)
theory Spsc_Ring
  imports Queue_Interface
begin

text \<open>
  The ring buffer of \<open>include/ultrafast/spsc_ring_buffer.hpp\<close>, each operation as one atomic
  step (the fine-grained interleaving is in \<open>Spsc_Concurrent\<close>). The template parameter \<open>N\<close> is
  an argument; \<open>static_ok\<close> is the \<open>static_assert\<close> on it. Indices are 64-bit words and wrap
  by masking, as in the code.
\<close>

section \<open>Definitions\<close>

definition static_ok :: "u64 \<Rightarrow> bool" where
  "static_ok N \<longleftrightarrow> N \<ge> 2 \<and> N AND (N - 1) = 0"

definition kMask :: "u64 \<Rightarrow> u64" where
  "kMask N = N - 1"

record 'a SpscRingBuffer =
  rb_tail :: u64
  rb_head :: u64
  rb_buf :: "'a list"

text \<open>The default constructor: both indices zero, the storage value-initialised.\<close>

definition SpscRingBuffer_new :: "u64 \<Rightarrow> 'a \<Rightarrow> 'a SpscRingBuffer" where
  "SpscRingBuffer_new N dflt = \<lparr>rb_tail = 0, rb_head = 0, rb_buf = replicate (unat N) dflt\<rparr>"

definition push :: "u64 \<Rightarrow> 'a SpscRingBuffer \<Rightarrow> 'a \<Rightarrow> bool \<times> 'a SpscRingBuffer" where
  "push N r item =
     (let t = rb_tail r;
          next_t = (t + 1) AND kMask N
      in if next_t = rb_head r then (False, r)
         else (True, r\<lparr>rb_buf := (rb_buf r)[unat t := item], rb_tail := next_t\<rparr>))"

definition push_move :: "u64 \<Rightarrow> 'a SpscRingBuffer \<Rightarrow> 'a \<Rightarrow> bool \<times> 'a SpscRingBuffer" where
  "push_move N r item =
     (let t = rb_tail r;
          next_t = (t + 1) AND kMask N
      in if next_t = rb_head r then (False, r)
         else (True, r\<lparr>rb_buf := (rb_buf r)[unat t := item], rb_tail := next_t\<rparr>))"

definition pop :: "u64 \<Rightarrow> 'a SpscRingBuffer \<Rightarrow> 'a option \<times> 'a SpscRingBuffer" where
  "pop N r =
     (let h = rb_head r
      in if h = rb_tail r then (None, r)
         else let item = rb_buf r ! unat h
              in (Some item, r\<lparr>rb_head := (h + 1) AND kMask N\<rparr>))"

text \<open>\<open>peek\<close> returns a pointer to the front slot; the model returns the slot's value.\<close>

definition peek :: "'a SpscRingBuffer \<Rightarrow> 'a option" where
  "peek r = (let h = rb_head r in if h = rb_tail r then None else Some (rb_buf r ! unat h))"

definition is_empty :: "'a SpscRingBuffer \<Rightarrow> bool" where
  "is_empty r \<longleftrightarrow> rb_head r = rb_tail r"

definition full :: "u64 \<Rightarrow> 'a SpscRingBuffer \<Rightarrow> bool" where
  "full N r = (let t = rb_tail r; h = rb_head r in ((t + 1) AND kMask N) = h)"

definition ring_size :: "u64 \<Rightarrow> 'a SpscRingBuffer \<Rightarrow> u64" where
  "ring_size N r = (let t = rb_tail r; h = rb_head r in (t - h + N) AND kMask N)"

definition capacity :: "u64 \<Rightarrow> u64" where
  "capacity N = N"

text \<open>
  The well-formedness invariant and the abstraction to a list: the slots from \<open>head\<close> up to,
  not including, \<open>tail\<close>, modulo the capacity.
\<close>

definition ring_inv :: "u64 \<Rightarrow> 'a SpscRingBuffer \<Rightarrow> bool" where
  "ring_inv N r \<longleftrightarrow> static_ok N \<and> length (rb_buf r) = unat N \<and> rb_tail r < N \<and> rb_head r < N"

definition ring_count :: "u64 \<Rightarrow> 'a SpscRingBuffer \<Rightarrow> nat" where
  "ring_count N r = (unat (rb_tail r) + unat N - unat (rb_head r)) mod unat N"

definition contents :: "u64 \<Rightarrow> 'a SpscRingBuffer \<Rightarrow> 'a list" where
  "contents N r = map (\<lambda>i. rb_buf r ! ((unat (rb_head r) + i) mod unat N)) [0..<ring_count N r]"

section \<open>Index arithmetic\<close>

lemma static_okD:
  assumes "static_ok N"
  shows "N \<noteq> 0" and "2 \<le> unat N" and "unat N < 2 ^ 64" and "unat (kMask N) = unat N - 1"
    and "unat (x AND kMask N) = unat x mod unat N"
proof -
  from assms have ge: "2 \<le> N" and pow: "N AND (N - 1) = 0" by (auto simp: static_ok_def)
  then show "2 \<le> unat N" by (simp add: word_le_nat_alt)
  then show nz: "N \<noteq> 0" by auto
  show "unat N < 2 ^ 64" using unsigned_less [of N] by simp
  show "unat (kMask N) = unat N - 1" using nz by (simp add: kMask_def unat_minus_one)
  show "unat (x AND kMask N) = unat x mod unat N"
    unfolding kMask_def using nz pow by (rule unat_and_mask)
qed

lemma mod_less_twice: "a < 2 * n \<Longrightarrow> a mod n = (if a < n then a else a - n)" for a n :: nat
  by (simp add: le_mod_geq)

lemma unat_next:
  assumes "static_ok N" and "i < N"
  shows "unat ((i + 1) AND kMask N) = Suc (unat i) mod unat N"
proof -
  have "unat i < unat N" using assms(2) by (simp add: word_less_nat_alt)
  with static_okD(3) [OF assms(1)] have "unat (i + 1) = Suc (unat i)"
    by (subst unat_add_lt) auto
  then show ?thesis by (simp add: static_okD(5) [OF assms(1)])
qed

text \<open>The invariant in terms of natural numbers, the form all ring proofs start from.\<close>

lemma ring_invE:
  assumes "ring_inv N r"
  obtains n t h where "static_ok N" "n = unat N" "t = unat (rb_tail r)" "h = unat (rb_head r)"
    "2 \<le> n" "n < 2 ^ 64" "t < n" "h < n" "length (rb_buf r) = n"
    "ring_count N r = (if h \<le> t then t - h else t + n - h)"
    "unat ((rb_tail r + 1) AND kMask N) = (if Suc t = n then 0 else Suc t)"
    "unat ((rb_head r + 1) AND kMask N) = (if Suc h = n then 0 else Suc h)"
proof -
  from assms have ok: "static_ok N" and len: "length (rb_buf r) = unat N"
    and t: "rb_tail r < N" and h: "rb_head r < N" by (auto simp: ring_inv_def)
  have lt: "unat (rb_tail r) < unat N" "unat (rb_head r) < unat N"
    using t h by (simp_all add: word_less_nat_alt)
  have "ring_count N r = (if unat (rb_head r) \<le> unat (rb_tail r)
      then unat (rb_tail r) - unat (rb_head r) else unat (rb_tail r) + unat N - unat (rb_head r))"
    unfolding ring_count_def using lt by (subst mod_less_twice) auto
  moreover have "Suc k mod unat N = (if Suc k = unat N then 0 else Suc k)" if "k < unat N" for k
    using that by auto
  ultimately show thesis
    using that [OF ok refl refl refl] static_okD(2,3) [OF ok] lt len
      unat_next [OF ok t] unat_next [OF ok h] by simp
qed

lemma length_contents [simp]: "length (contents N r) = ring_count N r"
  by (simp add: contents_def)

lemma contents_nth [simp]:
  "i < ring_count N r \<Longrightarrow> contents N r ! i = rb_buf r ! ((unat (rb_head r) + i) mod unat N)"
  by (simp add: contents_def)

lemma ring_count_bound: "ring_inv N r \<Longrightarrow> ring_count N r < unat N"
  by (auto simp: ring_count_def ring_inv_def static_ok_def word_le_nat_alt intro!: mod_less_divisor)

section \<open>The operations implement the bounded queue\<close>

lemma full_iff_count: "ring_inv N r \<Longrightarrow> full N r \<longleftrightarrow> ring_count N r = unat N - 1"
  by (elim ring_invE) (auto simp: full_def word_unat_eq_iff)

lemma empty_iff_count: "ring_inv N r \<Longrightarrow> is_empty r \<longleftrightarrow> ring_count N r = 0"
  by (elim ring_invE) (auto simp: is_empty_def word_unat_eq_iff)

lemma push_eq:
  "push N r item = (if full N r then (False, r)
     else (True, r\<lparr>rb_buf := (rb_buf r)[unat (rb_tail r) := item], rb_tail := (rb_tail r + 1) AND kMask N\<rparr>))"
  by (simp add: push_def full_def Let_def)

lemma push_move_eq [simp]: "push_move N r item = push N r item"
  by (simp add: push_move_def push_def)

lemma pop_eq:
  "pop N r = (if is_empty r then (None, r)
     else (Some (rb_buf r ! unat (rb_head r)), r\<lparr>rb_head := (rb_head r + 1) AND kMask N\<rparr>))"
  by (simp add: pop_def is_empty_def Let_def)

lemma and_kMask_less: "static_ok N \<Longrightarrow> x AND kMask N < N"
  by (simp add: word_less_nat_alt static_okD(2,5)) (metis mod_less_divisor static_okD(2) zero_less_numeral order_less_le_trans)

lemma ring_inv_push: "ring_inv N r \<Longrightarrow> ring_inv N (snd (push N r item))"
  by (auto simp: push_eq ring_inv_def and_kMask_less)

lemma ring_inv_pop: "ring_inv N r \<Longrightarrow> ring_inv N (snd (pop N r))"
  by (auto simp: pop_eq ring_inv_def and_kMask_less)

lemma ring_inv_new: "static_ok N \<Longrightarrow> ring_inv N (SpscRingBuffer_new N dflt)"
  by (auto simp: ring_inv_def SpscRingBuffer_new_def static_ok_def word_less_nat_alt word_le_nat_alt)

lemma contents_new: "contents N (SpscRingBuffer_new N dflt) = []"
  by (simp add: contents_def ring_count_def SpscRingBuffer_new_def)

lemma contents_push:
  assumes inv: "ring_inv N r" and nf: "\<not> full N r"
  shows "contents N (snd (push N r item)) = contents N r @ [item]"
proof (rule nth_equalityI)
  let ?r' = "snd (push N r item)"
  have nfc: "ring_count N r \<noteq> unat N - 1" using full_iff_count [OF inv] nf by simp
  have cnt: "ring_count N ?r' = Suc (ring_count N r)"
    using inv ring_inv_push [OF inv, of item] nf nfc
    by (elim ring_invE) (auto simp: push_eq split: if_splits)
  show "length (contents N ?r') = length (contents N r @ [item])" by (simp add: cnt)
  fix i assume "i < length (contents N ?r')"
  then have i: "i < Suc (ring_count N r)" by (simp add: cnt)
  have lt: "unat (rb_head r) + i < 2 * unat N" and tl: "unat (rb_tail r) < length (rb_buf r)"
    using inv i ring_count_bound [OF inv] by (elim ring_invE; simp)+
  have slot: "(unat (rb_head r) + i) mod unat N = unat (rb_tail r) \<longleftrightarrow> i = ring_count N r"
    unfolding mod_less_twice [OF lt] using inv i nfc by (elim ring_invE) (auto split: if_splits)
  have same: "rb_head ?r' = rb_head r" "rb_buf ?r' = (rb_buf r)[unat (rb_tail r) := item]"
    using nf by (simp_all add: push_eq)
  show "contents N ?r' ! i = (contents N r @ [item]) ! i"
    using i slot tl by (auto simp: nth_append cnt same nth_list_update)
qed

lemma contents_pop:
  assumes inv: "ring_inv N r" and ne: "\<not> is_empty r"
  shows "contents N r = rb_buf r ! unat (rb_head r) # contents N (snd (pop N r))"
proof (rule nth_equalityI)
  let ?r' = "snd (pop N r)"
  have cnt: "ring_count N r = Suc (ring_count N ?r')"
    using inv ring_inv_pop [OF inv] ne empty_iff_count [OF inv]
    by (elim ring_invE) (auto simp: pop_eq split: if_splits)
  show "length (contents N r) = length (rb_buf r ! unat (rb_head r) # contents N ?r')"
    by (simp add: cnt)
  have hd: "unat (rb_head r) mod unat N = unat (rb_head r)"
    and nxt: "unat (rb_head ?r') = Suc (unat (rb_head r)) mod unat N"
    and "rb_buf ?r' = rb_buf r"
    using inv ne by (elim ring_invE; simp add: pop_eq)+
  then show "contents N r ! i = (rb_buf r ! unat (rb_head r) # contents N ?r') ! i"
    if "i < length (contents N r)" for i
    using that by (cases i) (auto simp: cnt mod_simps)
qed

interpretation spsc: bounded_queue "push N" "pop N" "contents N" "ring_inv N" "unat N - 1" for N
proof
  fix q :: "'a SpscRingBuffer" and x xs
  assume inv: "ring_inv N q"
  show "length (contents N q) \<le> unat N - 1" using ring_count_bound [OF inv] by simp
  show "ring_inv N (snd (push N q x))" using inv by (rule ring_inv_push)
  show "ring_inv N (snd (pop N q))" using inv by (rule ring_inv_pop)
  show "fst (push N q x) \<and> contents N (snd (push N q x)) = contents N q @ [x]"
    if "length (contents N q) < unat N - 1"
  proof -
    from that have "\<not> full N q" using full_iff_count [OF inv] by simp
    then show ?thesis using contents_push [OF inv] by (simp add: push_eq)
  qed
  show "push N q x = (False, q)" if "length (contents N q) = unat N - 1"
    using that full_iff_count [OF inv] by (simp add: push_eq)
  show "pop N q = (None, q)" if "contents N q = []"
    using arg_cong [OF that, of length] empty_iff_count [OF inv] by (simp add: pop_eq)
  show "fst (pop N q) = Some x \<and> contents N (snd (pop N q)) = xs" if "contents N q = x # xs"
  proof -
    have "\<not> is_empty q"
      using arg_cong [OF that, of length] empty_iff_count [OF inv] by simp
    with contents_pop [OF inv this] that show ?thesis by (simp add: pop_eq)
  qed
qed

section \<open>Queries\<close>

lemma static_ok_half:
  assumes "static_ok N"
  shows "2 * unat N \<le> 2 ^ 64"
proof -
  obtain k where k: "unat N = 2 ^ k"
    using pow2_word [of N] static_okD(1) [OF assms] assms by (auto simp: static_ok_def)
  then have "(2 :: nat) ^ k < 2 ^ 64" using static_okD(3) [OF assms] by simp
  then have "Suc k \<le> 64" by (metis Suc_leI power_less_imp_less_exp one_less_numeral_iff semiring_norm(76))
  then have "(2 :: nat) ^ Suc k \<le> 2 ^ 64" by (rule power_increasing) simp
  then show ?thesis by (simp only: k power_Suc)
qed

lemma ring_size_count:
  assumes "ring_inv N r"
  shows "unat (ring_size N r) = ring_count N r"
proof -
  from assms have ok: "static_ok N" by (simp add: ring_inv_def)
  let ?h = "unat (rb_head r)" and ?t = "unat (rb_tail r)" and ?n = "unat N"
  have lt: "?h < ?n" "?t < ?n" using assms by (auto simp: ring_inv_def word_less_nat_alt)
  have "unat (rb_tail r - rb_head r + N) = ?t + ?n - ?h"
    using lt static_ok_half [OF ok] by (simp add: unat_plus_if' unat_sub_if' not_le) linarith
  then show ?thesis by (simp add: ring_size_def ring_count_def Let_def static_okD(5) [OF ok])
qed

section \<open>Properties\<close>

text \<open>
  (C9) The ring implements the bounded FIFO queue. On every well-formed ring, \<open>push\<close> and \<open>pop\<close>
  keep the invariant and act on the abstract contents exactly as the list specification with
  \<open>N - 1\<close> places: a push into a full ring and a pop from an empty one change nothing.
\<close>

theorem spsc_refines_queue:
  assumes "ring_inv N r"
  shows "ring_inv N (snd (push N r x)) \<and> ring_inv N (snd (pop N r)) \<and>
    map_prod id (contents N) (push N r x) = spec_push (unat N - 1) (contents N r) x \<and>
    map_prod id (contents N) (pop N r) = spec_pop (contents N r)"
  using ring_inv_push [OF assms] ring_inv_pop [OF assms] spsc.psh_refines [OF assms]
    spsc.pp_refines [OF assms] by blast

theorem spsc_refines_queue_witness:
  "ring_inv 4 \<lparr>rb_tail = 1, rb_head = 3, rb_buf = [10, 20, 30, 40 :: nat]\<rparr> \<and>
   map_prod id (contents 4) (pop 4 \<lparr>rb_tail = 1, rb_head = 3, rb_buf = [10, 20, 30, 40 :: nat]\<rparr>)
     = (Some 40, [10])"
proof -
  have inv: "ring_inv 4 \<lparr>rb_tail = 1, rb_head = 3, rb_buf = [10, 20, 30, 40 :: nat]\<rparr>"
    by (simp add: ring_inv_def static_ok_def)
  have "contents 4 \<lparr>rb_tail = 1, rb_head = 3, rb_buf = [10, 20, 30, 40 :: nat]\<rparr> = [40, 10]"
    by code_simp
  with spsc_refines_queue [OF inv] inv show ?thesis by (simp add: spec_pop_def)
qed

text \<open>
  FIFO over whole runs. From the freshly constructed ring, after any sequence of pushes and
  pops in any order, the accepted items are the popped ones followed by what the ring still
  holds, and it holds at most \<open>N - 1\<close>.
\<close>

theorem spsc_run_fifo:
  assumes "static_ok N"
    and "run_ops (push N) (pop N) (SpscRingBuffer_new N dflt) ops = (acc, out, rej, r)"
  shows "acc = out @ contents N r \<and> length (contents N r) \<le> unat N - 1"
  using spsc.run_ops_fifo [OF ring_inv_new [OF assms(1)] assms(2)] spsc.invar_bound [of N r]
  by (simp add: contents_new)

theorem spsc_run_fifo_witness:
  "static_ok 2 \<and>
   (let (acc, out, rej, r) = run_ops (push 2) (pop 2) (SpscRingBuffer_new 2 0)
          [Push (5 :: nat), Push 6, Pop, Push 7]
    in acc = out @ contents 2 r \<and> acc = [5, 7] \<and> out = [5] \<and> rej = 1)"
proof -
  have ok: "static_ok 2" by (simp add: static_ok_def)
  obtain acc out rej r where run: "run_ops (push 2) (pop 2) (SpscRingBuffer_new 2 0)
      [Push (5 :: nat), Push 6, Pop, Push 7] = (acc, out, rej, r)"
    by (metis prod_cases4)
  have "(case run_ops (push 2) (pop 2) (SpscRingBuffer_new 2 0) [Push (5 :: nat), Push 6, Pop, Push 7]
      of (acc, out, rej, r) \<Rightarrow> (acc, out, rej)) = ([5, 7], [5], 1)"
    by code_simp
  then have "acc = [5, 7]" "out = [5]" "rej = 1" unfolding run by simp_all
  with spsc_run_fifo [OF ok run] ok show ?thesis unfolding run by simp
qed

text \<open>
  The queries report the abstract state: \<open>size()\<close> is the number of items (the unsigned
  subtraction may wrap), \<open>empty()\<close> and \<open>full()\<close> are its two extremes, and \<open>peek()\<close> shows the
  item the next \<open>pop()\<close> returns.
\<close>

theorem spsc_queries:
  assumes "ring_inv N r"
  shows "unat (ring_size N r) = length (contents N r) \<and>
    (is_empty r \<longleftrightarrow> contents N r = []) \<and>
    (full N r \<longleftrightarrow> length (contents N r) = unat N - 1) \<and>
    peek r = fst (pop N r)"
  using ring_size_count [OF assms] empty_iff_count [OF assms] full_iff_count [OF assms]
    length_contents [of N r]
  by (auto simp: peek_def pop_def Let_def simp del: length_contents simp flip: length_0_conv)

theorem spsc_queries_witness:
  "ring_inv 4 \<lparr>rb_tail = 1, rb_head = 3, rb_buf = [10, 20, 30, 40 :: nat]\<rparr> \<and>
   unat (ring_size 4 \<lparr>rb_tail = 1, rb_head = 3, rb_buf = [10, 20, 30, 40 :: nat]\<rparr>) = 2"
proof -
  have inv: "ring_inv 4 \<lparr>rb_tail = 1, rb_head = 3, rb_buf = [10, 20, 30, 40 :: nat]\<rparr>"
    by (simp add: ring_inv_def static_ok_def)
  have "contents 4 \<lparr>rb_tail = 1, rb_head = 3, rb_buf = [10, 20, 30, 40 :: nat]\<rparr> = [40, 10]"
    by code_simp
  with spsc_queries [OF inv] inv show ?thesis by simp
qed

end
