(* ===== verification/Spsc_Concurrent.thy ===== *)
theory Spsc_Concurrent
  imports Spsc_Ring
begin

text \<open>
  The ring buffer under concurrency: \<open>push\<close> on the producer thread and \<open>pop\<close> / \<open>peek\<close> on the
  consumer thread, interleaved at every memory access of
  \<open>include/ultrafast/spsc_ring_buffer.hpp\<close>, under the acquire/release rules of C++ rather than
  sequential consistency.

  \<^item> \<open>tail_hist\<close> and \<open>head_hist\<close> are the modification orders of the two atomics. Each index has
    a single writer, so a relaxed load of the own index returns the last entry. An acquire load
    of the other thread's index may return any entry not older than the newest one this thread
    has read before (\<open>p_sees\<close>, \<open>c_sees\<close>): stale values are allowed.
  \<^item> Entry number \<open>i\<close> of a history was stored with release order, so a thread that has read it
    is ordered after every access the other thread made in an epoch below \<open>i\<close>, where an
    access's epoch is the number of release stores its thread had made before it.
  \<^item> The slots are plain memory. \<open>slot_wr\<close> and \<open>slot_rd\<close> remember the epoch of the last write
    and the last read of a slot; \<open>raced\<close> becomes true when an access conflicts with one it is
    not ordered after, which is a data race and hence undefined behaviour.
  \<^item> \<open>accepted\<close> and \<open>delivered\<close> are history variables: the items of the successful pushes and
    pops, in order.
\<close>

section \<open>Definitions\<close>

text \<open>Where each thread is inside an operation, with the locals the code holds there.\<close>

datatype 'a producer_pc =
    P_idle
  | P_load_head 'a u64
  | P_write 'a u64 u64
  | P_store 'a u64

datatype 'a consumer_pc =
    C_idle
  | C_load_tail u64
  | C_read u64
  | C_store u64 'a
  | K_load_tail u64
  | K_read u64

record 'a spsc_threads =
  tail_hist :: "u64 list"
  head_hist :: "u64 list"
  slots :: "'a list"
  slot_wr :: "nat \<Rightarrow> nat option"
  slot_rd :: "nat \<Rightarrow> nat option"
  p_pc :: "'a producer_pc"
  c_pc :: "'a consumer_pc"
  p_sees :: nat
  c_sees :: nat
  raced :: bool
  accepted :: "'a list"
  delivered :: "'a list"

definition threads_init :: "u64 \<Rightarrow> 'a \<Rightarrow> 'a spsc_threads" where
  "threads_init N dflt =
     \<lparr>tail_hist = [0], head_hist = [0], slots = replicate (unat N) dflt,
      slot_wr = (\<lambda>_. None), slot_rd = (\<lambda>_. None), p_pc = P_idle, c_pc = C_idle,
      p_sees = 0, c_sees = 0, raced = False, accepted = [], delivered = []\<rparr>"

definition unordered :: "nat option \<Rightarrow> nat \<Rightarrow> bool" where
  "unordered e seen \<longleftrightarrow> (case e of None \<Rightarrow> False | Some k \<Rightarrow> \<not> k < seen)"

text \<open>The plain write \<open>buf_[t] = item\<close> and the plain read of \<open>buf_[h]\<close>.\<close>

definition write_slot :: "'a spsc_threads \<Rightarrow> nat \<Rightarrow> 'a \<Rightarrow> 'a spsc_threads" where
  "write_slot s k x =
     s\<lparr>slots := (slots s)[k := x],
       raced := raced s \<or> unordered (slot_rd s k) (p_sees s),
       slot_wr := (slot_wr s)(k := Some (length (tail_hist s) - 1))\<rparr>"

definition read_slot :: "'a spsc_threads \<Rightarrow> nat \<Rightarrow> 'a spsc_threads" where
  "read_slot s k =
     s\<lparr>raced := raced s \<or> unordered (slot_wr s k) (c_sees s),
       slot_rd := (slot_rd s)(k := Some (length (head_hist s) - 1))\<rparr>"

text \<open>
  One step of either thread, named after the operation and the access: \<open>push\<close> loads \<open>tail_\<close>,
  loads \<open>head_\<close> and compares, writes the slot, stores \<open>tail_\<close>; \<open>pop\<close> and \<open>peek\<close> likewise.
\<close>

inductive spsc_step :: "u64 \<Rightarrow> 'a spsc_threads \<Rightarrow> 'a spsc_threads \<Rightarrow> bool" for N where
  push_load_tail: "p_pc s = P_idle \<Longrightarrow>
     spsc_step N s (s\<lparr>p_pc := P_load_head x (last (tail_hist s))\<rparr>)"
| push_load_head: "p_pc s = P_load_head x t \<Longrightarrow> p_sees s \<le> i \<Longrightarrow> i < length (head_hist s) \<Longrightarrow>
     next_t = (t + 1) AND kMask N \<Longrightarrow>
     spsc_step N s (s\<lparr>p_sees := i,
       p_pc := (if next_t = head_hist s ! i then P_idle else P_write x t next_t)\<rparr>)"
| push_write: "p_pc s = P_write x t next_t \<Longrightarrow>
     spsc_step N s ((write_slot s (unat t) x)\<lparr>p_pc := P_store x next_t\<rparr>)"
| push_store: "p_pc s = P_store x next_t \<Longrightarrow>
     spsc_step N s (s\<lparr>tail_hist := tail_hist s @ [next_t], accepted := accepted s @ [x],
       p_pc := P_idle\<rparr>)"
| pop_load_head: "c_pc s = C_idle \<Longrightarrow>
     spsc_step N s (s\<lparr>c_pc := C_load_tail (last (head_hist s))\<rparr>)"
| pop_load_tail: "c_pc s = C_load_tail h \<Longrightarrow> c_sees s \<le> i \<Longrightarrow> i < length (tail_hist s) \<Longrightarrow>
     spsc_step N s (s\<lparr>c_sees := i, c_pc := (if h = tail_hist s ! i then C_idle else C_read h)\<rparr>)"
| pop_read: "c_pc s = C_read h \<Longrightarrow>
     spsc_step N s ((read_slot s (unat h))\<lparr>c_pc := C_store h (slots s ! unat h)\<rparr>)"
| pop_store: "c_pc s = C_store h v \<Longrightarrow>
     spsc_step N s (s\<lparr>head_hist := head_hist s @ [(h + 1) AND kMask N], delivered := delivered s @ [v],
       c_pc := C_idle\<rparr>)"
| peek_load_head: "c_pc s = C_idle \<Longrightarrow>
     spsc_step N s (s\<lparr>c_pc := K_load_tail (last (head_hist s))\<rparr>)"
| peek_load_tail: "c_pc s = K_load_tail h \<Longrightarrow> c_sees s \<le> i \<Longrightarrow> i < length (tail_hist s) \<Longrightarrow>
     spsc_step N s (s\<lparr>c_sees := i, c_pc := (if h = tail_hist s ! i then C_idle else K_read h)\<rparr>)"
| peek_read: "c_pc s = K_read h \<Longrightarrow>
     spsc_step N s ((read_slot s (unat h))\<lparr>c_pc := C_idle\<rparr>)"

inductive spsc_reachable :: "u64 \<Rightarrow> 'a \<Rightarrow> 'a spsc_threads \<Rightarrow> bool" for N dflt where
  start: "spsc_reachable N dflt (threads_init N dflt)"
| step: "spsc_reachable N dflt s \<Longrightarrow> spsc_step N s s' \<Longrightarrow> spsc_reachable N dflt s'"

text \<open>The index value after \<open>i\<close> completed operations.\<close>

definition slot_of :: "u64 \<Rightarrow> nat \<Rightarrow> u64" where
  "slot_of N i = of_nat (i mod unat N)"

text \<open>
  The invariant, in three parts: how the histories count the operations, what each thread knows
  at its program point, and which accesses the slots remember.
\<close>

definition hist_ok :: "u64 \<Rightarrow> u64 list \<Rightarrow> nat \<Rightarrow> bool" where
  "hist_ok N hs k \<longleftrightarrow> length hs = Suc k \<and> (\<forall>i \<le> k. hs ! i = slot_of N i)"

definition count_ok :: "u64 \<Rightarrow> 'a spsc_threads \<Rightarrow> bool" where
  "count_ok N s \<longleftrightarrow>
     (let np = length (accepted s); nc = length (delivered s)
      in hist_ok N (tail_hist s) np \<and> hist_ok N (head_hist s) nc \<and>
         nc \<le> c_sees s \<and> c_sees s \<le> np \<and> p_sees s \<le> nc \<and> np < p_sees s + unat N)"

fun producer_ok :: "u64 \<Rightarrow> 'a spsc_threads \<Rightarrow> 'a producer_pc \<Rightarrow> bool" where
  "producer_ok N s P_idle = True"
| "producer_ok N s (P_load_head x t) = (t = slot_of N (length (accepted s)))"
| "producer_ok N s (P_write x t next_t) =
     (t = slot_of N (length (accepted s)) \<and> next_t = slot_of N (Suc (length (accepted s))) \<and>
      Suc (length (accepted s)) < p_sees s + unat N)"
| "producer_ok N s (P_store x next_t) =
     (next_t = slot_of N (Suc (length (accepted s))) \<and>
      Suc (length (accepted s)) < p_sees s + unat N \<and>
      slots s ! (length (accepted s) mod unat N) = x)"

fun consumer_ok :: "u64 \<Rightarrow> 'a spsc_threads \<Rightarrow> 'a consumer_pc \<Rightarrow> bool" where
  "consumer_ok N s C_idle = True"
| "consumer_ok N s (C_load_tail h) = (h = slot_of N (length (delivered s)))"
| "consumer_ok N s (C_read h) =
     (h = slot_of N (length (delivered s)) \<and> length (delivered s) < c_sees s)"
| "consumer_ok N s (C_store h v) =
     (h = slot_of N (length (delivered s)) \<and> length (delivered s) < c_sees s \<and>
      v = accepted s ! length (delivered s))"
| "consumer_ok N s (K_load_tail h) = (h = slot_of N (length (delivered s)))"
| "consumer_ok N s (K_read h) =
     (h = slot_of N (length (delivered s)) \<and> length (delivered s) < c_sees s)"

fun in_store :: "'a producer_pc \<Rightarrow> bool" where
  "in_store (P_store x next_t) = True"
| "in_store _ = False"

definition slots_ok :: "u64 \<Rightarrow> 'a spsc_threads \<Rightarrow> bool" where
  "slots_ok N s \<longleftrightarrow>
     length (slots s) = unat N \<and>
     (\<forall>k. length (delivered s) \<le> k \<and> k < length (accepted s) \<longrightarrow> slots s ! (k mod unat N) = accepted s ! k) \<and>
     take (length (delivered s)) (accepted s) = delivered s \<and>
     (\<forall>j e. slot_rd s j = Some e \<longrightarrow> e mod unat N = j \<and> e < length (accepted s)) \<and>
     (\<forall>j e. slot_wr s j = Some e \<longrightarrow>
        e mod unat N = j \<and> (e < length (accepted s) \<or> e = length (accepted s) \<and> in_store (p_pc s)))"

definition threads_inv :: "u64 \<Rightarrow> 'a spsc_threads \<Rightarrow> bool" where
  "threads_inv N s \<longleftrightarrow> count_ok N s \<and> producer_ok N s (p_pc s) \<and> consumer_ok N s (c_pc s) \<and>
     slots_ok N s \<and> \<not> raced s"

text \<open>The ring a concurrent state represents: the latest index values and the slots.\<close>

definition ring_of :: "'a spsc_threads \<Rightarrow> 'a SpscRingBuffer" where
  "ring_of s = \<lparr>rb_tail = last (tail_hist s), rb_head = last (head_hist s), rb_buf = slots s\<rparr>"

text \<open>
  Schedules: the actions of the two threads as data, and their execution. \<open>None\<close> means the action
  is not enabled.
\<close>

datatype 'a spsc_action =
  Push_load_tail 'a | Push_load_head nat | Push_write | Push_store
| Pop_load_head | Pop_load_tail nat | Pop_read | Pop_store
| Peek_load_head | Peek_load_tail nat | Peek_read

definition spsc_act :: "u64 \<Rightarrow> 'a spsc_action \<Rightarrow> 'a spsc_threads \<Rightarrow> 'a spsc_threads option" where
  "spsc_act N a s =
     (case a of
        Push_load_tail x \<Rightarrow> (case p_pc s of
            P_idle \<Rightarrow> Some (s\<lparr>p_pc := P_load_head x (last (tail_hist s))\<rparr>) | _ \<Rightarrow> None)
      | Push_load_head i \<Rightarrow> (case p_pc s of
            P_load_head x t \<Rightarrow>
              (let next_t = (t + 1) AND kMask N
               in if p_sees s \<le> i \<and> i < length (head_hist s)
                  then Some (s\<lparr>p_sees := i,
                         p_pc := (if next_t = head_hist s ! i then P_idle else P_write x t next_t)\<rparr>)
                  else None)
          | _ \<Rightarrow> None)
      | Push_write \<Rightarrow> (case p_pc s of
            P_write x t next_t \<Rightarrow> Some ((write_slot s (unat t) x)\<lparr>p_pc := P_store x next_t\<rparr>)
          | _ \<Rightarrow> None)
      | Push_store \<Rightarrow> (case p_pc s of
            P_store x next_t \<Rightarrow> Some (s\<lparr>tail_hist := tail_hist s @ [next_t],
                                   accepted := accepted s @ [x], p_pc := P_idle\<rparr>)
          | _ \<Rightarrow> None)
      | Pop_load_head \<Rightarrow> (case c_pc s of
            C_idle \<Rightarrow> Some (s\<lparr>c_pc := C_load_tail (last (head_hist s))\<rparr>) | _ \<Rightarrow> None)
      | Pop_load_tail i \<Rightarrow> (case c_pc s of
            C_load_tail h \<Rightarrow>
              if c_sees s \<le> i \<and> i < length (tail_hist s)
              then Some (s\<lparr>c_sees := i, c_pc := (if h = tail_hist s ! i then C_idle else C_read h)\<rparr>)
              else None
          | _ \<Rightarrow> None)
      | Pop_read \<Rightarrow> (case c_pc s of
            C_read h \<Rightarrow> Some ((read_slot s (unat h))\<lparr>c_pc := C_store h (slots s ! unat h)\<rparr>)
          | _ \<Rightarrow> None)
      | Pop_store \<Rightarrow> (case c_pc s of
            C_store h v \<Rightarrow> Some (s\<lparr>head_hist := head_hist s @ [(h + 1) AND kMask N],
                                 delivered := delivered s @ [v], c_pc := C_idle\<rparr>)
          | _ \<Rightarrow> None)
      | Peek_load_head \<Rightarrow> (case c_pc s of
            C_idle \<Rightarrow> Some (s\<lparr>c_pc := K_load_tail (last (head_hist s))\<rparr>) | _ \<Rightarrow> None)
      | Peek_load_tail i \<Rightarrow> (case c_pc s of
            K_load_tail h \<Rightarrow>
              if c_sees s \<le> i \<and> i < length (tail_hist s)
              then Some (s\<lparr>c_sees := i, c_pc := (if h = tail_hist s ! i then C_idle else K_read h)\<rparr>)
              else None
          | _ \<Rightarrow> None)
      | Peek_read \<Rightarrow> (case c_pc s of
            K_read h \<Rightarrow> Some ((read_slot s (unat h))\<lparr>c_pc := C_idle\<rparr>) | _ \<Rightarrow> None))"

fun spsc_run :: "u64 \<Rightarrow> 'a spsc_action list \<Rightarrow> 'a spsc_threads \<Rightarrow> 'a spsc_threads option" where
  "spsc_run N [] s = Some s"
| "spsc_run N (a # as) s = (case spsc_act N a s of None \<Rightarrow> None | Some s' \<Rightarrow> spsc_run N as s')"

definition demo_schedule :: "nat spsc_action list" where
  "demo_schedule =
     [Push_load_tail 7, Push_load_head 0, Push_write, Push_store,
      Pop_load_head, Pop_load_tail 0, Pop_load_head, Pop_load_tail 1, Pop_read,
      Push_load_tail 8, Push_load_head 0, Push_write, Pop_store, Push_store]"

section \<open>Index values\<close>

lemma mod_eq_close: "a mod n = b mod n \<Longrightarrow> a < b + n \<Longrightarrow> b < a + n \<Longrightarrow> a = b" for a b n :: nat
proof -
  have "a \<le> b" if "a mod n = b mod n" "a < b + n" for a b :: nat
  proof (rule ccontr)
    assume "\<not> a \<le> b"
    then have "n dvd a - b" "0 < a - b" using that(1) by (auto simp: mod_eq_dvd_iff_nat)
    then have "n \<le> a - b" by (rule dvd_imp_le)
    with that(2) \<open>\<not> a \<le> b\<close> show False by simp
  qed
  then show "a mod n = b mod n \<Longrightarrow> a < b + n \<Longrightarrow> b < a + n \<Longrightarrow> a = b" by (metis le_antisym)
qed

lemma index_distance:
  fixes c d n :: nat
  assumes "d < n"
  shows "((c + d) mod n + n - c mod n) mod n = d"
proof -
  have b: "c mod n < n" using assms by simp
  have "(c + d) mod n = (c mod n + d) mod n" by (simp add: mod_add_left_eq)
  also have "\<dots> = (if c mod n + d < n then c mod n + d else c mod n + d - n)"
    by (rule mod_less_twice) (use b assms in linarith)
  finally show ?thesis using b assms by (auto split: if_splits)
qed

lemma unat_slot_of:
  assumes "static_ok N"
  shows "unat (slot_of N i) = i mod unat N"
proof -
  have "i mod unat N < unat N" using static_okD(2) [OF assms] by simp
  then have "i mod unat N < 2 ^ 64" using static_okD(3) [OF assms] by linarith
  then show ?thesis by (simp add: slot_of_def unat_of_nat take_bit_nat_eq_self)
qed

lemma slot_of_eq_iff: "static_ok N \<Longrightarrow> slot_of N i = slot_of N j \<longleftrightarrow> i mod unat N = j mod unat N"
  by (metis unat_slot_of word_unat_eq_iff)

lemma slot_of_less: "static_ok N \<Longrightarrow> slot_of N i < N"
  using static_okD(2) [of N] by (simp add: word_less_nat_alt unat_slot_of)

lemma slot_of_next:
  assumes "static_ok N"
  shows "(slot_of N i + 1) AND kMask N = slot_of N (Suc i)"
  by (rule word_unat_eq_iff [THEN iffD2])
    (simp add: unat_next [OF assms slot_of_less] unat_slot_of assms mod_Suc_eq)

lemma hist_okD:
  assumes "hist_ok N hs k"
  shows "length hs = Suc k" and "i \<le> k \<Longrightarrow> hs ! i = slot_of N i" and "last hs = slot_of N k"
proof -
  from assms show len: "length hs = Suc k" and nth: "i \<le> k \<Longrightarrow> hs ! i = slot_of N i" for i
    by (auto simp: hist_ok_def)
  from len have "hs \<noteq> []" by auto
  with len show "last hs = slot_of N k" by (simp add: last_conv_nth nth)
qed

lemma hist_ok_append: "hist_ok N hs k \<Longrightarrow> v = slot_of N (Suc k) \<Longrightarrow> hist_ok N (hs @ [v]) (Suc k)"
  by (auto simp: hist_ok_def nth_append le_Suc_eq)

section \<open>Every step keeps the invariant\<close>

lemma threads_inv_init: "static_ok N \<Longrightarrow> threads_inv N (threads_init N dflt)"
  using static_okD(2) [of N]
  by (auto simp: threads_inv_def threads_init_def count_ok_def slots_ok_def hist_ok_def slot_of_def)

lemma count_okD:
  assumes "count_ok N s"
  shows "hist_ok N (tail_hist s) (length (accepted s))" "hist_ok N (head_hist s) (length (delivered s))"
    "length (delivered s) \<le> c_sees s" "c_sees s \<le> length (accepted s)"
    "p_sees s \<le> length (delivered s)" "length (accepted s) < p_sees s + unat N"
  using assms by (auto simp: count_ok_def Let_def)

text \<open>The check in \<open>push\<close> leaves at least one free slot, the one in \<open>pop\<close> at least one item.\<close>

lemma push_check_space:
  assumes "static_ok N" "count_ok N s" "p_sees s \<le> i" "i < length (head_hist s)"
    and "slot_of N (Suc (length (accepted s))) \<noteq> head_hist s ! i"
  shows "Suc (length (accepted s)) < i + unat N"
proof -
  note c = count_okD [OF assms(2)]
  have "head_hist s ! i = slot_of N i" using hist_okD [OF c(2)] assms(4) by simp
  with assms(5) have "Suc (length (accepted s)) \<noteq> i + unat N"
    by (auto simp: slot_of_eq_iff [OF assms(1)])
  with c(6) assms(3) show ?thesis by simp
qed

lemma pop_check_item:
  assumes "static_ok N" "count_ok N s" "c_sees s \<le> i" "i < length (tail_hist s)"
    and "slot_of N (length (delivered s)) \<noteq> tail_hist s ! i"
  shows "length (delivered s) < i"
proof -
  note c = count_okD [OF assms(2)]
  have "tail_hist s ! i = slot_of N i" using hist_okD [OF c(1)] assms(4) by simp
  with assms(5) have "length (delivered s) \<noteq> i" by auto
  with c(3) assms(3) show ?thesis by simp
qed

lemma slots_okD:
  assumes "slots_ok N s"
  shows "length (slots s) = unat N" "take (length (delivered s)) (accepted s) = delivered s"
    "length (delivered s) \<le> k \<Longrightarrow> k < length (accepted s) \<Longrightarrow> slots s ! (k mod unat N) = accepted s ! k"
    "slot_rd s j = Some e \<Longrightarrow> e mod unat N = j \<and> e < length (accepted s)"
    "slot_wr s j = Some e \<Longrightarrow> e mod unat N = j \<and> e \<le> length (accepted s)"
    "slot_wr s j = Some e \<Longrightarrow> \<not> in_store (p_pc s) \<Longrightarrow> e < length (accepted s)"
  using assms unfolding slots_ok_def by (blast, blast, blast, blast, metis order.order_iff_strict, blast)

text \<open>Neither plain access conflicts with one it is not ordered after.\<close>

lemma write_ordered:
  assumes ok: "static_ok N" and cnt: "count_ok N s" and sl: "slots_ok N s"
    and sp: "Suc (length (accepted s)) < p_sees s + unat N"
  shows "\<not> unordered (slot_rd s (length (accepted s) mod unat N)) (p_sees s)"
proof (cases "slot_rd s (length (accepted s) mod unat N)")
  case (Some e)
  with slots_okD(4) [OF sl] have e: "e mod unat N = length (accepted s) mod unat N" "e < length (accepted s)"
    by auto
  then have "e + unat N \<le> length (accepted s)"
    using mod_eq_close [OF e(1)] by linarith
  with Some sp show ?thesis by (simp add: unordered_def)
qed (simp add: unordered_def)

lemma read_ordered:
  assumes ok: "static_ok N" and cnt: "count_ok N s" and sl: "slots_ok N s"
    and it: "length (delivered s) < c_sees s"
  shows "\<not> unordered (slot_wr s (length (delivered s) mod unat N)) (c_sees s)"
proof (cases "slot_wr s (length (delivered s) mod unat N)")
  case (Some e)
  with slots_okD(5) [OF sl] have e: "e mod unat N = length (delivered s) mod unat N" "e \<le> length (accepted s)"
    by auto
  have "e \<le> length (delivered s)"
  proof (rule ccontr)
    assume "\<not> e \<le> length (delivered s)"
    moreover have "e < length (delivered s) + unat N" using e(2) count_okD(5,6) [OF cnt] by linarith
    ultimately show False using mod_eq_close [OF e(1)] by linarith
  qed
  with Some it show ?thesis by (simp add: unordered_def)
qed (simp add: unordered_def)

lemma producer_ok_cong:
  "accepted s' = accepted s \<Longrightarrow> p_sees s' = p_sees s \<Longrightarrow> slots s' = slots s \<Longrightarrow>
   producer_ok N s' pc = producer_ok N s pc"
  by (cases pc) auto

lemma consumer_ok_cong:
  "accepted s' = accepted s \<Longrightarrow> delivered s' = delivered s \<Longrightarrow> c_sees s' = c_sees s \<Longrightarrow>
   consumer_ok N s' pc = consumer_ok N s pc"
  by (cases pc) auto

lemma consumer_ok_accept:
  "count_ok N s \<Longrightarrow> accepted s' = accepted s @ [x] \<Longrightarrow> delivered s' = delivered s \<Longrightarrow> c_sees s' = c_sees s \<Longrightarrow>
   consumer_ok N s pc \<Longrightarrow> consumer_ok N s' pc"
  by (cases pc) (auto simp: nth_append dest: count_okD)


lemma slots_ok_frame:
  "slots s' = slots s \<Longrightarrow> accepted s' = accepted s \<Longrightarrow> delivered s' = delivered s \<Longrightarrow>
   slot_rd s' = slot_rd s \<Longrightarrow> slot_wr s' = slot_wr s \<Longrightarrow> in_store (p_pc s') = in_store (p_pc s) \<Longrightarrow>
   slots_ok N s' = slots_ok N s"
  by (simp add: slots_ok_def)

lemma slots_ok_write:
  assumes ok: "static_ok N" and cnt: "count_ok N s" and sl: "slots_ok N s"
    and sp: "Suc (length (accepted s)) < p_sees s + unat N"
  shows "slots_ok N ((write_slot s (length (accepted s) mod unat N) x)\<lparr>p_pc := P_store x nt\<rparr>)"
proof -
  note c = count_okD [OF cnt] note d = slots_okD [OF sl]
  have "(slots s)[length (accepted s) mod unat N := x] ! (k mod unat N) = accepted s ! k"
    if k: "length (delivered s) \<le> k" "k < length (accepted s)" for k
  proof -
    have "k mod unat N \<noteq> length (accepted s) mod unat N"
      using mod_eq_close [of k "unat N" "length (accepted s)"] k c(5) sp by linarith
    then show ?thesis using d(3) [OF k] by simp
  qed
  moreover have "length (tail_hist s) - 1 = length (accepted s)" using hist_okD(1) [OF c(1)] by simp
  ultimately show ?thesis
    using d(1,2,4,5) by (auto simp: slots_ok_def write_slot_def le_less)
qed

lemma slots_ok_read:
  assumes ok: "static_ok N" and cnt: "count_ok N s" and sl: "slots_ok N s"
    and it: "length (delivered s) < c_sees s"
  shows "slots_ok N ((read_slot s (length (delivered s) mod unat N))\<lparr>c_pc := pc\<rparr>)"
proof -
  note c = count_okD [OF cnt]
  have "length (head_hist s) - 1 = length (delivered s)" using hist_okD(1) [OF c(2)] by simp
  moreover have "length (delivered s) < length (accepted s)" using it c(4) by simp
  ultimately show ?thesis using sl by (auto simp: slots_ok_def read_slot_def)
qed

lemma slots_ok_accept:
  assumes cnt: "count_ok N s" and sl: "slots_ok N s" and x: "slots s ! (length (accepted s) mod unat N) = x"
  shows "slots_ok N (s\<lparr>tail_hist := ts, accepted := accepted s @ [x], p_pc := P_idle\<rparr>)"
proof -
  note c = count_okD [OF cnt] note d = slots_okD [OF sl]
  have "length (delivered s) \<le> length (accepted s)" using c by linarith
  moreover have "slots s ! (k mod unat N) = (accepted s @ [x]) ! k"
    if "length (delivered s) \<le> k" "k < Suc (length (accepted s))" for k
    using that d(3) x by (cases "k = length (accepted s)") (auto simp: nth_append)
  ultimately show ?thesis
    using d(1,2,4,5) by (auto simp: slots_ok_def less_Suc_eq_le dest: less_imp_le)
qed

lemma slots_ok_deliver:
  assumes cnt: "count_ok N s" and sl: "slots_ok N s" and it: "length (delivered s) < c_sees s"
    and v: "v = accepted s ! length (delivered s)"
  shows "slots_ok N (s\<lparr>head_hist := hs, delivered := delivered s @ [v], c_pc := C_idle\<rparr>)"
proof -
  note c = count_okD [OF cnt] note d = slots_okD [OF sl]
  have "length (delivered s) < length (accepted s)" using it c(4) by simp
  then have "take (Suc (length (delivered s))) (accepted s) = delivered s @ [v]"
    using d(2) v by (simp add: take_Suc_conv_app_nth)
  then show ?thesis using d(1,3,4) sl by (simp add: slots_ok_def)
qed

text \<open>A step of one thread leaves the other thread's part of the invariant alone.\<close>

lemma threads_inv_producer:
  assumes "consumer_ok N s (c_pc s)" "delivered s' = delivered s" "c_sees s' = c_sees s"
    "accepted s' = accepted s" "c_pc s' = c_pc s"
    and "count_ok N s'" "producer_ok N s' (p_pc s')" "slots_ok N s'" "\<not> raced s'"
  shows "threads_inv N s'"
  using assms consumer_ok_cong [of s' s N "c_pc s"] by (simp add: threads_inv_def)

lemma threads_inv_consumer:
  assumes "producer_ok N s (p_pc s)" "accepted s' = accepted s" "p_sees s' = p_sees s"
    "slots s' = slots s" "p_pc s' = p_pc s"
    and "count_ok N s'" "consumer_ok N s' (c_pc s')" "slots_ok N s'" "\<not> raced s'"
  shows "threads_inv N s'"
  using assms producer_ok_cong [of s' s N "p_pc s"] by (simp add: threads_inv_def)

lemma count_ok_frame:
  "tail_hist s' = tail_hist s \<Longrightarrow> head_hist s' = head_hist s \<Longrightarrow> accepted s' = accepted s \<Longrightarrow>
   delivered s' = delivered s \<Longrightarrow> p_sees s' = p_sees s \<Longrightarrow> c_sees s' = c_sees s \<Longrightarrow>
   count_ok N s \<Longrightarrow> count_ok N s'"
  by (simp add: count_ok_def)

lemma threads_invD:
  assumes "threads_inv N s"
  shows "count_ok N s" "producer_ok N s (p_pc s)" "consumer_ok N s (c_pc s)" "slots_ok N s" "\<not> raced s"
  using assms by (auto simp: threads_inv_def)

lemma push_load_tail_inv:
  assumes inv: "threads_inv N s" and idle: "p_pc s = P_idle"
    and s': "s' = s\<lparr>p_pc := P_load_head x (last (tail_hist s))\<rparr>"
  shows "threads_inv N s'"
proof -
  note i = threads_invD [OF inv]
  have "count_ok N s'" "slots_ok N s'"
    using count_ok_frame [of s' s N] slots_ok_frame [of s' s N] s' i(1,4) idle by simp_all
  with s' i(3,5) hist_okD(3) [OF count_okD(1) [OF i(1)]] show ?thesis
    by (intro threads_inv_producer [of N s]) simp_all
qed

lemma push_load_head_inv:
  assumes ok: "static_ok N" and inv: "threads_inv N s" and pc: "p_pc s = P_load_head x t"
    and i: "p_sees s \<le> i" "i < length (head_hist s)" and nx: "next_t = (t + 1) AND kMask N"
    and s': "s' = s\<lparr>p_sees := i, p_pc := (if next_t = head_hist s ! i then P_idle else P_write x t next_t)\<rparr>"
  shows "threads_inv N s'"
proof -
  note iv = threads_invD [OF inv] note c = count_okD [OF iv(1)]
  have t: "t = slot_of N (length (accepted s))" using pc iv(2) by simp
  have nx': "next_t = slot_of N (Suc (length (accepted s)))" using nx t slot_of_next [OF ok] by simp
  have "i \<le> length (delivered s)" using i(2) hist_okD(1) [OF c(2)] by simp
  then have cnt: "count_ok N s'" using s' c i(1) by (auto simp: count_ok_def Let_def)
  have po: "producer_ok N s' (p_pc s')"
    using push_check_space [OF ok iv(1) i] s' nx' t by simp
  have "slots_ok N s'" using slots_ok_frame [of s' s N] s' iv(4) pc by simp
  with cnt po s' iv(3,5) show ?thesis by (intro threads_inv_producer [of N s]) simp_all
qed

lemma push_write_inv:
  assumes ok: "static_ok N" and inv: "threads_inv N s" and pc: "p_pc s = P_write x t next_t"
    and s': "s' = (write_slot s (unat t) x)\<lparr>p_pc := P_store x next_t\<rparr>"
  shows "threads_inv N s'"
proof -
  note iv = threads_invD [OF inv]
  have t: "t = slot_of N (length (accepted s))" and sp: "Suc (length (accepted s)) < p_sees s + unat N"
    and nx: "next_t = slot_of N (Suc (length (accepted s)))" using pc iv(2) by simp_all
  have ut: "unat t = length (accepted s) mod unat N" using t unat_slot_of [OF ok] by simp
  have lt: "length (accepted s) mod unat N < unat N" using static_okD(2) [OF ok] by simp
  have cnt: "count_ok N s'" using count_ok_frame [of s' s N] s' iv(1) by (simp add: write_slot_def)
  have po: "producer_ok N s' (p_pc s')"
    using s' nx sp lt slots_okD(1) [OF iv(4)] by (simp add: write_slot_def ut)
  have "slots_ok N s'" using slots_ok_write [OF ok iv(1,4) sp] s' by (simp add: ut)
  moreover have "\<not> raced s'" using write_ordered [OF ok iv(1,4) sp] s' iv(5) by (simp add: ut write_slot_def)
  ultimately show ?thesis using cnt po s' iv(3)
    by (intro threads_inv_producer [of N s]) (simp_all add: write_slot_def)
qed

lemma push_store_inv:
  assumes inv: "threads_inv N s" and pc: "p_pc s = P_store x next_t"
    and s': "s' = s\<lparr>tail_hist := tail_hist s @ [next_t], accepted := accepted s @ [x], p_pc := P_idle\<rparr>"
  shows "threads_inv N s'"
proof -
  note iv = threads_invD [OF inv] note c = count_okD [OF iv(1)]
  have x: "slots s ! (length (accepted s) mod unat N) = x"
    and sp: "Suc (length (accepted s)) < p_sees s + unat N"
    and nx: "next_t = slot_of N (Suc (length (accepted s)))" using pc iv(2) by simp_all
  have cnt: "count_ok N s'" using s' c sp hist_ok_append [OF c(1) nx] by (auto simp: count_ok_def Let_def)
  have co: "consumer_ok N s' (c_pc s)" using consumer_ok_accept [OF iv(1) _ _ _ iv(3), of s' x] s' by simp
  show ?thesis unfolding threads_inv_def
    using s' cnt co iv(5) slots_ok_accept [OF iv(1,4) x] by simp
qed

lemma consumer_load_inv:
  assumes inv: "threads_inv N s" and s': "s' = s\<lparr>c_pc := pc\<rparr>" and pc: "consumer_ok N s pc"
  shows "threads_inv N s'"
proof -
  note iv = threads_invD [OF inv]
  have "count_ok N s'" "slots_ok N s'" "consumer_ok N s' pc"
    using count_ok_frame [of s' s N] slots_ok_frame [of s' s N] consumer_ok_cong [of s' s N pc] s' pc iv(1,4)
    by simp_all
  with s' iv(2,5) show ?thesis by (intro threads_inv_consumer [of N s]) simp_all
qed

lemma consumer_check_inv:
  assumes inv: "threads_inv N s" and s': "s' = s\<lparr>c_sees := i, c_pc := pc\<rparr>"
    and i: "c_sees s \<le> i" "i < length (tail_hist s)" and pc: "consumer_ok N s' pc"
  shows "threads_inv N s'"
proof -
  note iv = threads_invD [OF inv] note c = count_okD [OF iv(1)]
  have "i \<le> length (accepted s)" using i(2) hist_okD(1) [OF c(1)] by simp
  then have "count_ok N s'" using s' i(1) c by (auto simp: count_ok_def Let_def)
  moreover have "slots_ok N s'" using slots_ok_frame [of s' s N] s' iv(4) by simp
  ultimately show ?thesis using s' pc iv(2,5) by (intro threads_inv_consumer [of N s]) simp_all
qed

lemma consumer_read_inv:
  assumes ok: "static_ok N" and inv: "threads_inv N s" and s': "s' = (read_slot s (unat h))\<lparr>c_pc := pc\<rparr>"
    and h: "h = slot_of N (length (delivered s))" and it: "length (delivered s) < c_sees s"
    and pc: "consumer_ok N s' pc"
  shows "threads_inv N s'"
proof -
  note iv = threads_invD [OF inv]
  have uh: "unat h = length (delivered s) mod unat N" using h unat_slot_of [OF ok] by simp
  have "count_ok N s'" using count_ok_frame [of s' s N] s' iv(1) by (simp add: read_slot_def)
  moreover have "slots_ok N s'" using slots_ok_read [OF ok iv(1,4) it] s' by (simp add: uh)
  moreover have "\<not> raced s'" using read_ordered [OF ok iv(1,4) it] s' iv(5) by (simp add: uh read_slot_def)
  ultimately show ?thesis using s' pc iv(2)
    by (intro threads_inv_consumer [of N s]) (simp_all add: read_slot_def)
qed

lemma pop_store_inv:
  assumes ok: "static_ok N" and inv: "threads_inv N s" and pc: "c_pc s = C_store h v"
    and s': "s' = s\<lparr>head_hist := head_hist s @ [(h + 1) AND kMask N], delivered := delivered s @ [v], c_pc := C_idle\<rparr>"
  shows "threads_inv N s'"
proof -
  note iv = threads_invD [OF inv] note c = count_okD [OF iv(1)]
  have h: "h = slot_of N (length (delivered s))" and it: "length (delivered s) < c_sees s"
    and v: "v = accepted s ! length (delivered s)" using pc iv(3) by simp_all
  have "count_ok N s'"
    using s' c it hist_ok_append [OF c(2) slot_of_next [OF ok]] h by (auto simp: count_ok_def Let_def)
  then show ?thesis using s' iv(2,5) slots_ok_deliver [OF iv(1,4) it v]
    by (intro threads_inv_consumer [of N s]) simp_all
qed

lemma threads_inv_step:
  assumes step: "spsc_step N s s'" and ok: "static_ok N" and inv: "threads_inv N s"
  shows "threads_inv N s'"
proof -
  note iv = threads_invD [OF inv] note c = count_okD [OF iv(1)]
  from step show ?thesis
  proof cases
    case push_load_tail then show ?thesis using push_load_tail_inv [OF inv] by simp
  next
    case push_load_head then show ?thesis using push_load_head_inv [OF ok inv] by simp
  next
    case push_write then show ?thesis using push_write_inv [OF ok inv] by simp
  next
    case push_store then show ?thesis using push_store_inv [OF inv] by simp
  next
    case pop_load_head
    then show ?thesis using hist_okD(3) [OF c(2)] by (intro consumer_load_inv [OF inv]) auto
  next
    case peek_load_head
    then show ?thesis using hist_okD(3) [OF c(2)] by (intro consumer_load_inv [OF inv]) auto
  next
    case (pop_load_tail h i)
    then show ?thesis using iv(3) pop_check_item [OF ok iv(1) pop_load_tail(3,4)]
      by (intro consumer_check_inv [OF inv pop_load_tail(1,3,4)]) auto
  next
    case (peek_load_tail h i)
    then show ?thesis using iv(3) pop_check_item [OF ok iv(1) peek_load_tail(3,4)]
      by (intro consumer_check_inv [OF inv peek_load_tail(1,3,4)]) auto
  next
    case (pop_read h)
    then have h: "h = slot_of N (length (delivered s))" and it: "length (delivered s) < c_sees s"
      using iv(3) by simp_all
    have "slots s ! unat h = accepted s ! length (delivered s)"
      using slots_okD(3) [OF iv(4), of "length (delivered s)"] it c(4) h unat_slot_of [OF ok] by simp
    then show ?thesis using pop_read(1) h it
      by (intro consumer_read_inv [OF ok inv pop_read(1) h it]) (simp add: read_slot_def)
  next
    case (peek_read h)
    then show ?thesis using iv(3) by (intro consumer_read_inv [OF ok inv peek_read(1)]) auto
  next
    case pop_store then show ?thesis using pop_store_inv [OF ok inv] by simp
  qed
qed

lemma threads_inv_reachable: "spsc_reachable N dflt s \<Longrightarrow> static_ok N \<Longrightarrow> threads_inv N s"
  by (induction rule: spsc_reachable.induct) (auto intro: threads_inv_init threads_inv_step)

section \<open>The represented ring\<close>

lemma ring_of_inv:
  assumes ok: "static_ok N" and inv: "threads_inv N s"
  shows "ring_inv N (ring_of s)"
    and "contents N (ring_of s) = drop (length (delivered s)) (accepted s)"
proof -
  note iv = threads_invD [OF inv] note c = count_okD [OF iv(1)] note d = slots_okD [OF iv(4)]
  let ?np = "length (accepted s)" and ?nc = "length (delivered s)" and ?n = "unat N"
  have lst: "last (tail_hist s) = slot_of N ?np" "last (head_hist s) = slot_of N ?nc"
    using hist_okD(3) c(1,2) by blast+
  have sel: "unat (rb_head (ring_of s)) = ?nc mod ?n" "rb_buf (ring_of s) = slots s"
    by (simp_all add: ring_of_def lst unat_slot_of ok)
  show "ring_inv N (ring_of s)"
    using ok d(1) slot_of_less [OF ok] by (simp add: ring_inv_def ring_of_def lst)
  have le: "?nc \<le> ?np" "?np < ?nc + ?n" using c by linarith+
  have "ring_count N (ring_of s) = (?np mod ?n + ?n - ?nc mod ?n) mod ?n"
    by (simp add: ring_count_def ring_of_def lst unat_slot_of ok)
  also have "\<dots> = ?np - ?nc" using index_distance [of "?np - ?nc" ?n ?nc] le by simp
  finally have cnt: "ring_count N (ring_of s) = ?np - ?nc" .
  show "contents N (ring_of s) = drop ?nc (accepted s)"
  proof (rule nth_equalityI)
    fix i assume "i < length (contents N (ring_of s))"
    then have i: "i < ?np - ?nc" by (simp add: cnt)
    then show "contents N (ring_of s) ! i = drop ?nc (accepted s) ! i"
      using d(3) [of "?nc + i"] le by (simp add: cnt sel mod_simps)
  qed (simp add: cnt)
qed


lemma spsc_step_contents:
  assumes ok: "static_ok N" and inv: "threads_inv N s" and step: "spsc_step N s s'"
  shows "(\<exists>x. (True, contents N (ring_of s')) = spec_push (unat N - 1) (contents N (ring_of s)) x) \<or>
     (\<exists>x. (Some x, contents N (ring_of s')) = spec_pop (contents N (ring_of s)) \<and>
          delivered s' = delivered s @ [x]) \<or>
     contents N (ring_of s') = contents N (ring_of s)"
proof -
  note inv' = threads_inv_step [OF step ok inv]
  note iv = threads_invD [OF inv] note c = count_okD [OF iv(1)]
  note eq = ring_of_inv(2) [OF ok inv] ring_of_inv(2) [OF ok inv']
  have unchanged: ?thesis if "accepted s' = accepted s" "delivered s' = delivered s"
    using eq that by simp
  from step show ?thesis
  proof cases
    case (push_store x next_t)
    then have "Suc (length (accepted s)) < p_sees s + unat N" using iv(2) by simp
    moreover have "length (contents N (ring_of s)) = length (accepted s) - length (delivered s)"
      by (simp only: eq(1) length_drop)
    ultimately have "length (contents N (ring_of s)) < unat N - 1" using c(3-5) by linarith
    moreover have "contents N (ring_of s') = contents N (ring_of s) @ [x]"
      using eq push_store(1) c(3,4) by simp
    ultimately show ?thesis unfolding spec_push_def by (intro disjI1 exI [of _ x]) simp
  next
    case (pop_store h v)
    then have "length (delivered s) < length (accepted s)" "v = accepted s ! length (delivered s)"
      using iv(3) c(4) by simp_all
    then have "contents N (ring_of s) = v # contents N (ring_of s')"
      using eq pop_store(1) by (simp add: Cons_nth_drop_Suc)
    with pop_store(1) show ?thesis by (simp add: spec_pop_def)
  qed (use unchanged in \<open>simp_all add: write_slot_def read_slot_def\<close>)
qed

section \<open>Executable schedules\<close>

lemma if_Some_None_iff: "(if b then Some x else None) = Some y \<longleftrightarrow> b \<and> x = y"
  by simp

lemma spsc_act_step: "spsc_act N a s = Some s' \<Longrightarrow> spsc_step N s s'"
  by (cases a; auto simp: spsc_act_def Let_def if_Some_None_iff simp del: if_split
        split: producer_pc.splits consumer_pc.splits intro: spsc_step.intros)

lemma spsc_run_reachable: "spsc_reachable N dflt s \<Longrightarrow> spsc_run N as s = Some s' \<Longrightarrow> spsc_reachable N dflt s'"
proof (induction as arbitrary: s)
  case (Cons a as)
  then obtain s1 where "spsc_act N a s = Some s1" "spsc_run N as s1 = Some s'"
    by (auto split: option.splits)
  with Cons show ?case by (blast intro: spsc_reachable.step spsc_act_step)
qed simp


lemma demo_run:
  obtains s where "spsc_run 4 demo_schedule (threads_init 4 0) = Some s"
    "delivered s = [7]" "accepted s = [7, 8]"
proof -
  have "map_option (\<lambda>s. (delivered s, accepted s)) (spsc_run 4 demo_schedule (threads_init 4 0)) = Some ([7], [7, 8])"
    by code_simp
  then show thesis using that by auto
qed

section \<open>Properties\<close>

text \<open>
  (C2) Data-race freedom. In every state reachable by any interleaving of the two threads, with
  acquire loads allowed to return stale index values, no plain access to a slot has ever
  conflicted with an access it is not ordered after.
\<close>

theorem spsc_race_free:
  assumes "static_ok N" and "spsc_reachable N dflt s"
  shows "\<not> raced s"
  using threads_inv_reachable [OF assms(2,1)] by (simp add: threads_inv_def)

theorem spsc_race_free_witness:
  "\<exists>s. spsc_reachable 4 (0 :: nat) s \<and> accepted s = [7, 8] \<and> delivered s = [7] \<and> \<not> raced s"
proof -
  obtain s where s: "spsc_run 4 demo_schedule (threads_init 4 0) = Some s"
    "delivered s = [7]" "accepted s = [7, 8]" by (rule demo_run)
  have r: "spsc_reachable 4 0 s" using spsc_run_reachable [OF spsc_reachable.start s(1)] .
  have "static_ok 4" by (simp add: static_ok_def)
  from spsc_race_free [OF this r] r s show ?thesis by blast
qed

text \<open>
  (C1) FIFO delivery under concurrency. In every reachable state the delivered items are a prefix
  of the accepted ones: nothing is lost, duplicated, reordered or invented; and at most
  \<open>N - 1\<close> accepted items are undelivered.
\<close>

theorem spsc_concurrent_fifo:
  assumes "static_ok N" and "spsc_reachable N dflt s"
  shows "take (length (delivered s)) (accepted s) = delivered s \<and>
    length (accepted s) - length (delivered s) \<le> unat N - 1"
proof -
  note iv = threads_invD [OF threads_inv_reachable [OF assms(2,1)]]
  have "length (accepted s) - length (delivered s) \<le> unat N - 1" using count_okD [OF iv(1)] by linarith
  with slots_okD(2) [OF iv(4)] show ?thesis by blast
qed

theorem spsc_concurrent_fifo_witness:
  "\<exists>s. spsc_reachable 4 (0 :: nat) s \<and> delivered s = [7] \<and>
     take (length (delivered s)) (accepted s) = delivered s"
proof -
  obtain s where s: "spsc_run 4 demo_schedule (threads_init 4 0) = Some s"
    "delivered s = [7]" "accepted s = [7, 8]" by (rule demo_run)
  have r: "spsc_reachable 4 0 s" using spsc_run_reachable [OF spsc_reachable.start s(1)] .
  have "static_ok 4" by (simp add: static_ok_def)
  from spsc_concurrent_fifo [OF this r] r s show ?thesis by blast
qed

text \<open>
  (C10) Refinement to the sequential ring. The latest index values and the slots of a reachable
  state form a well-formed ring that holds exactly the undelivered items, and every step of either
  thread is invisible in it, or a successful push, or a successful pop that delivers the
  front item: \<open>push\<close> takes effect at its store to \<open>tail_\<close>, \<open>pop\<close> at its store to \<open>head_\<close>.
\<close>

theorem spsc_linearizable:
  assumes "static_ok N" and "spsc_reachable N dflt s" and "spsc_step N s s'"
  shows "ring_inv N (ring_of s) \<and>
    contents N (ring_of s) = drop (length (delivered s)) (accepted s) \<and>
    ((\<exists>x. (True, contents N (ring_of s')) = spec_push (unat N - 1) (contents N (ring_of s)) x) \<or>
     (\<exists>x. (Some x, contents N (ring_of s')) = spec_pop (contents N (ring_of s)) \<and>
          delivered s' = delivered s @ [x]) \<or>
     contents N (ring_of s') = contents N (ring_of s))"
  using ring_of_inv [OF assms(1)] spsc_step_contents [OF assms(1) _ assms(3)]
    threads_inv_reachable [OF assms(2,1)] by blast

theorem spsc_linearizable_witness:
  "\<exists>s. spsc_reachable 4 (0 :: nat) s \<and> ring_inv 4 (ring_of s) \<and> contents 4 (ring_of s) = [8]"
proof -
  obtain s where s: "spsc_run 4 demo_schedule (threads_init 4 0) = Some s"
    "delivered s = [7]" "accepted s = [7, 8]" by (rule demo_run)
  have r: "spsc_reachable 4 0 s" using spsc_run_reachable [OF spsc_reachable.start s(1)] .
  have ok: "static_ok 4" by (simp add: static_ok_def)
  have "\<exists>s'. spsc_step 4 s s'"
  proof (cases "p_pc s")
    case P_idle then show ?thesis by (blast intro: push_load_tail)
  next
    case (P_load_head x t)
    have "p_sees s < length (head_hist s)"
      using count_okD(2,5) [OF threads_invD(1) [OF threads_inv_reachable [OF r ok]]] by (simp add: hist_okD(1))
    with P_load_head show ?thesis by (blast intro: push_load_head)
  next
    case P_write then show ?thesis by (blast intro: push_write)
  next
    case P_store then show ?thesis by (blast intro: push_store)
  qed
  then obtain s' where "spsc_step 4 s s'" ..
  from spsc_linearizable [OF ok r this] r s show ?thesis by auto
qed

text \<open>
  When \<open>push\<close> reports a full ring. In a reachable state, a push that reads entry \<open>i\<close> of the
  consumer's index rejects its item exactly when \<open>N - 1\<close> items have been accepted beyond the \<open>i\<close>
  pops it knows of; with the latest index value this is the ring being full.
\<close>

theorem push_rejects_iff:
  assumes "static_ok N" and "spsc_reachable N dflt s" and "p_pc s = P_load_head x t"
    and "p_sees s \<le> i" and "i < length (head_hist s)"
  shows "((t + 1) AND kMask N = head_hist s ! i \<longleftrightarrow> length (accepted s) = i + (unat N - 1)) \<and>
    (i = length (head_hist s) - 1 \<longrightarrow>
      ((t + 1) AND kMask N = head_hist s ! i \<longleftrightarrow> full N (ring_of s)))"
proof (intro conjI impI)
  note iv = threads_invD [OF threads_inv_reachable [OF assms(2,1)]] note c = count_okD [OF iv(1)]
  have hd: "head_hist s ! i = slot_of N i" using hist_okD(1,2) [OF c(2)] assms(5) by simp
  have t: "t = slot_of N (length (accepted s))" using iv(2) assms(3) by simp
  have b: "i \<le> length (accepted s)" "length (accepted s) < i + unat N"
    using hist_okD(1) [OF c(2)] assms(4,5) c(3,4,6) by linarith+
  have "Suc (length (accepted s)) = i + unat N" if "Suc (length (accepted s)) mod unat N = i mod unat N"
    by (rule mod_eq_close [of _ "unat N"]) (use that b static_okD(2) [OF assms(1)] in simp_all)
  then have "slot_of N (Suc (length (accepted s))) = slot_of N i \<longleftrightarrow> Suc (length (accepted s)) = i + unat N"
    unfolding slot_of_eq_iff [OF assms(1)] by (metis mod_add_self2)
  then show "(t + 1) AND kMask N = head_hist s ! i \<longleftrightarrow> length (accepted s) = i + (unat N - 1)"
    unfolding t hd slot_of_next [OF assms(1)] using static_okD(2) [OF assms(1)] by linarith
  show "(t + 1) AND kMask N = head_hist s ! i \<longleftrightarrow> full N (ring_of s)" if i: "i = length (head_hist s) - 1"
  proof -
    have "head_hist s \<noteq> []" using assms(5) by auto
    then have "last (head_hist s) = head_hist s ! i" using i by (simp add: last_conv_nth)
    then show ?thesis using t hist_okD(3) [OF c(1)] by (simp add: full_def ring_of_def)
  qed
qed

theorem push_rejects_iff_witness:
  "\<exists>s. spsc_reachable 2 (0 :: nat) s \<and> p_pc s = P_load_head 8 1 \<and>
     ((1 + 1) AND kMask 2 = head_hist s ! 0 \<longleftrightarrow> length (accepted s) = 0 + (unat (2 :: u64) - 1))"
proof -
  let ?acts = "[Push_load_tail 7, Push_load_head 0, Push_write, Push_store, Push_load_tail 8]"
  have "map_option (\<lambda>s. (p_pc s, p_sees s, head_hist s)) (spsc_run 2 ?acts (threads_init 2 (0 :: nat)))
      = Some (P_load_head 8 1, 0, [0])"
    by code_simp
  then obtain s where s: "spsc_run 2 ?acts (threads_init 2 (0 :: nat)) = Some s"
    "p_pc s = P_load_head 8 1" "p_sees s = 0" "head_hist s = [0]" by auto
  have r: "spsc_reachable 2 0 s" using spsc_run_reachable [OF spsc_reachable.start s(1)] .
  have "static_ok 2" by (simp add: static_ok_def)
  from push_rejects_iff [OF this r s(2), of 0] s r show ?thesis by auto
qed

section \<open>Wait-freedom\<close>

text \<open>The actions of the producer thread, and the number of accesses left in the operation a thread is in.\<close>

fun by_producer :: "'a spsc_action \<Rightarrow> bool" where
  "by_producer (Push_load_tail x) = True"
| "by_producer (Push_load_head i) = True"
| "by_producer Push_write = True"
| "by_producer Push_store = True"
| "by_producer _ = False"

fun push_left :: "'a producer_pc \<Rightarrow> nat" where
  "push_left P_idle = 0"
| "push_left (P_load_head x t) = 3"
| "push_left (P_write x t next_t) = 2"
| "push_left (P_store x next_t) = 1"

fun pop_left :: "'a consumer_pc \<Rightarrow> nat" where
  "pop_left C_idle = 0"
| "pop_left (C_load_tail h) = 3"
| "pop_left (C_read h) = 2"
| "pop_left (C_store h v) = 1"
| "pop_left (K_load_tail h) = 2"
| "pop_left (K_read h) = 1"

lemma push_left_0 [simp]: "push_left pc = 0 \<longleftrightarrow> pc = P_idle"
  by (cases pc) simp_all

lemma pop_left_0 [simp]: "pop_left pc = 0 \<longleftrightarrow> pc = C_idle"
  by (cases pc) simp_all

lemma push_left_le: "push_left pc \<le> 3"
  by (cases pc) simp_all

lemma pop_left_le: "pop_left pc \<le> 3"
  by (cases pc) simp_all

text \<open>Every step of the relation is an action, so the runs of \<open>spsc_run\<close> are all interleavings.\<close>

lemma spsc_step_act: "spsc_step N s s' \<Longrightarrow> \<exists>a. spsc_act N a s = Some s'"
proof (induction rule: spsc_step.induct)
  case (push_load_tail s x)
  then show ?case by (intro exI [of _ "Push_load_tail x"]) (simp add: spsc_act_def)
next
  case (push_load_head s x t i next_t)
  then show ?case by (intro exI [of _ "Push_load_head i"]) (simp add: spsc_act_def)
next
  case (push_write s x t next_t)
  then show ?case by (intro exI [of _ Push_write]) (simp add: spsc_act_def)
next
  case (push_store s x next_t)
  then show ?case by (intro exI [of _ Push_store]) (simp add: spsc_act_def)
next
  case (pop_load_head s)
  then show ?case by (intro exI [of _ Pop_load_head]) (simp add: spsc_act_def)
next
  case (pop_load_tail s h i)
  then show ?case by (intro exI [of _ "Pop_load_tail i"]) (simp add: spsc_act_def)
next
  case (pop_read s h)
  then show ?case by (intro exI [of _ Pop_read]) (simp add: spsc_act_def)
next
  case (pop_store s h v)
  then show ?case by (intro exI [of _ Pop_store]) (simp add: spsc_act_def)
next
  case (peek_load_head s)
  then show ?case by (intro exI [of _ Peek_load_head]) (simp add: spsc_act_def)
next
  case (peek_load_tail s h i)
  then show ?case by (intro exI [of _ "Peek_load_tail i"]) (simp add: spsc_act_def)
next
  case (peek_read s h)
  then show ?case by (intro exI [of _ Peek_read]) (simp add: spsc_act_def)
qed

text \<open>A step of the other thread leaves the program counter alone; an own step brings the end nearer.\<close>

lemma other_keeps_push: "spsc_act N a s = Some s' \<Longrightarrow> \<not> by_producer a \<Longrightarrow> p_pc s' = p_pc s"
  by (cases a) (auto simp: spsc_act_def read_slot_def split: consumer_pc.splits if_splits)

lemma other_keeps_pop: "spsc_act N a s = Some s' \<Longrightarrow> by_producer a \<Longrightarrow> c_pc s' = c_pc s"
  by (cases a) (auto simp: spsc_act_def write_slot_def Let_def split: producer_pc.splits if_splits)

lemma own_step_push: "spsc_act N a s = Some s' \<Longrightarrow> by_producer a \<Longrightarrow> p_pc s \<noteq> P_idle \<Longrightarrow> push_left (p_pc s') < push_left (p_pc s)"
  by (cases a) (auto simp: spsc_act_def Let_def split: producer_pc.splits if_splits)

lemma own_step_pop: "spsc_act N a s = Some s' \<Longrightarrow> \<not> by_producer a \<Longrightarrow> c_pc s \<noteq> C_idle \<Longrightarrow> pop_left (c_pc s') < pop_left (c_pc s)"
  by (cases a) (auto simp: spsc_act_def split: consumer_pc.splits if_splits)

text \<open>
  A measure of the state that a thread's own steps decrease and the other thread's steps keep reaches zero
  within as many own steps, in every run that has them.
\<close>

lemma own_steps_finish:
  assumes dec: "\<And>a s s'. spsc_act N a s = Some s' \<Longrightarrow> own a \<Longrightarrow> left s \<noteq> 0 \<Longrightarrow> left s' < left s"
    and keep: "\<And>a s s'. spsc_act N a s = Some s' \<Longrightarrow> \<not> own a \<Longrightarrow> left s' = left s"
    and "spsc_run N as s = Some s'" "left s \<le> n" "n \<le> length (filter own as)"
  shows "\<exists>bs cs s1. as = bs @ cs \<and> length (filter own bs) \<le> n \<and> spsc_run N bs s = Some s1 \<and> left s1 = (0 :: nat)"
  using assms(3-)
proof (induction as arbitrary: s n)
  case Nil
  then show ?case by simp
next
  case (Cons a as)
  show ?case
  proof (cases "left s = 0")
    case True
    then show ?thesis by (intro exI [of _ "[]"] exI [of _ "a # as"]) simp
  next
    case False
    obtain s1 where s1: "spsc_act N a s = Some s1" "spsc_run N as s1 = Some s'"
      using Cons.prems(1) by (auto split: option.splits)
    define m where "m = (if own a then n - 1 else n)"
    have m: "m + (if own a then 1 else 0) = n" using Cons.prems(2) False by (auto simp: m_def)
    have "left s1 \<le> m" using dec [OF s1(1)] keep [OF s1(1)] Cons.prems(2) False by (auto simp: m_def)
    moreover have "m \<le> length (filter own as)" using Cons.prems(3) m by (auto split: if_splits)
    ultimately obtain bs cs s2 where b: "as = bs @ cs" "length (filter own bs) \<le> m" "spsc_run N bs s1 = Some s2" "left s2 = 0"
      using Cons.IH [OF s1(2)] by blast
    then show ?thesis using s1(1) m by (intro exI [of _ "a # bs"] exI [of _ cs]) auto
  qed
qed

lemma push_never_blocks:
  assumes "threads_inv N s" "p_pc s \<noteq> P_idle"
  shows "\<exists>a. by_producer a \<and> spsc_act N a s \<noteq> None"
proof -
  note c = count_okD [OF threads_invD(1) [OF assms(1)]]
  have "p_sees s < length (head_hist s)" using c(5) hist_okD(1) [OF c(2)] by simp
  then show ?thesis using assms(2)
    by (cases "p_pc s") (auto simp: spsc_act_def Let_def intro: exI [of _ "Push_load_head (p_sees s)"] exI [of _ Push_write] exI [of _ Push_store])
qed

lemma pop_never_blocks:
  assumes "threads_inv N s" "c_pc s \<noteq> C_idle"
  shows "\<exists>a. \<not> by_producer a \<and> spsc_act N a s \<noteq> None"
proof -
  note c = count_okD [OF threads_invD(1) [OF assms(1)]]
  have "c_sees s < length (tail_hist s)" using c(4) hist_okD(1) [OF c(1)] by simp
  then show ?thesis using assms(2)
    by (cases "c_pc s") (auto simp: spsc_act_def intro: exI [of _ "Pop_load_tail (c_sees s)"] exI [of _ Pop_read] exI [of _ Pop_store]
        exI [of _ "Peek_load_tail (c_sees s)"] exI [of _ Peek_read])
qed

text \<open>
  (C40) Wait-freedom, over every interleaving. Take any run of the two threads from a reachable state. If the producer makes at
  least three steps in it, the \<open>push\<close> it was in ends after at most three of those steps, whatever the consumer does in between and however
  often; the same holds for the consumer's \<open>pop\<close> or \<open>peek\<close>. At the end of the run a thread that is inside an operation
  has a step it can take: it never waits for the other thread.
\<close>

theorem spsc_wait_free:
  assumes "static_ok N" and "spsc_reachable N dflt s" and "spsc_run N as s = Some s'"
  shows "(3 \<le> length (filter by_producer as) \<longrightarrow>
      (\<exists>bs cs s1. as = bs @ cs \<and> length (filter by_producer bs) \<le> 3 \<and> spsc_run N bs s = Some s1 \<and> p_pc s1 = P_idle)) \<and>
    (3 \<le> length (filter (\<lambda>a. \<not> by_producer a) as) \<longrightarrow>
      (\<exists>bs cs s1. as = bs @ cs \<and> length (filter (\<lambda>a. \<not> by_producer a) bs) \<le> 3 \<and> spsc_run N bs s = Some s1 \<and> c_pc s1 = C_idle)) \<and>
    (p_pc s' \<noteq> P_idle \<longrightarrow> (\<exists>a. by_producer a \<and> spsc_act N a s' \<noteq> None)) \<and>
    (c_pc s' \<noteq> C_idle \<longrightarrow> (\<exists>a. \<not> by_producer a \<and> spsc_act N a s' \<noteq> None))"
proof -
  have inv: "threads_inv N s'" using threads_inv_reachable [OF spsc_run_reachable [OF assms(2,3)] assms(1)] .
  have "\<exists>bs cs s1. as = bs @ cs \<and> length (filter by_producer bs) \<le> 3 \<and> spsc_run N bs s = Some s1 \<and> push_left (p_pc s1) = 0"
    if "3 \<le> length (filter by_producer as)"
    by (rule own_steps_finish [OF _ _ assms(3) push_left_le that]) (simp_all add: own_step_push other_keeps_push)
  moreover have "\<exists>bs cs s1. as = bs @ cs \<and> length (filter (\<lambda>a. \<not> by_producer a) bs) \<le> 3 \<and> spsc_run N bs s = Some s1 \<and> pop_left (c_pc s1) = 0"
    if "3 \<le> length (filter (\<lambda>a. \<not> by_producer a) as)"
    by (rule own_steps_finish [OF _ _ assms(3) pop_left_le that]) (simp_all add: own_step_pop other_keeps_pop)
  ultimately show ?thesis using push_never_blocks [OF inv] pop_never_blocks [OF inv] by simp
qed

theorem spsc_wait_free_witness:
  "\<exists>s s' bs cs s1. spsc_reachable 4 (0 :: nat) s \<and> p_pc s = P_load_head 8 1 \<and>
     spsc_run 4 [Pop_load_head, Push_load_head 0, Pop_load_tail 1, Push_write, Pop_read, Push_store, Pop_store] s = Some s' \<and>
     [Pop_load_head, Push_load_head 0, Pop_load_tail 1, Push_write, Pop_read, Push_store, Pop_store] = bs @ cs \<and>
     length (filter by_producer bs) \<le> 3 \<and> spsc_run 4 bs s = Some s1 \<and> p_pc s1 = P_idle"
proof -
  let ?before = "[Push_load_tail 7, Push_load_head 0, Push_write, Push_store, Push_load_tail 8]"
  let ?acts = "[Pop_load_head, Push_load_head 0, Pop_load_tail 1, Push_write, Pop_read, Push_store, Pop_store]"
  have "(case spsc_run 4 ?before (threads_init 4 (0 :: nat)) of None \<Rightarrow> False
    | Some s \<Rightarrow> p_pc s = P_load_head 8 1 \<and> spsc_run 4 ?acts s \<noteq> None)"
    by code_simp
  then obtain s s' where s: "spsc_run 4 ?before (threads_init 4 (0 :: nat)) = Some s" "p_pc s = P_load_head 8 1"
    "spsc_run 4 ?acts s = Some s'" by (auto split: option.splits)
  have r: "spsc_reachable 4 0 s" using spsc_run_reachable [OF spsc_reachable.start s(1)] .
  have "static_ok 4" by (simp add: static_ok_def)
  from spsc_wait_free [OF this r s(3)] have "\<exists>bs cs s1. ?acts = bs @ cs \<and> length (filter by_producer bs) \<le> 3 \<and> spsc_run 4 bs s = Some s1 \<and> p_pc s1 = P_idle"
    by simp
  with r s(2,3) show ?thesis by blast
qed

end
