(* ===== verification/Spsc_Bench.thy ===== *)
theory Spsc_Bench
  imports Spsc_Concurrent
begin

text \<open>
  \<open>bench/bench_spsc_ring_buffer.cpp\<close>: the loops of the ring benchmarks, as clients of the ring. The number of iterations that the
  benchmark library chooses is an argument; what the library measures is not modelled. The single-threaded loops use the
  whole operations of \<open>Spsc_Ring\<close>; the throughput benchmark has a producer and a consumer thread over the interleaved accesses of
  \<open>Spsc_Concurrent\<close>, and its flag \<open>running\<close> is a relaxed atomic.
\<close>

section \<open>Single-threaded loops\<close>

fun push_pop_loop :: "('q \<Rightarrow> 'a \<Rightarrow> bool \<times> 'q) \<Rightarrow> ('q \<Rightarrow> 'a option \<times> 'q) \<Rightarrow> 'a \<Rightarrow> nat \<Rightarrow> 'q \<Rightarrow> (bool \<times> 'a option) list \<times> 'q" where
  "push_pop_loop psh pp x 0 q = ([], q)"
| "push_pop_loop psh pp x (Suc k) q =
     (let (ok, q1) = psh q x; (out, q2) = pp q1; (outs, q3) = push_pop_loop psh pp x k q2
      in ((ok, out) # outs, q3))"

fun pop_times :: "('q \<Rightarrow> 'a option \<times> 'q) \<Rightarrow> nat \<Rightarrow> 'q \<Rightarrow> 'a option list \<times> 'q" where
  "pop_times pp 0 q = ([], q)"
| "pop_times pp (Suc k) q = (let (out, q1) = pp q; (outs, q2) = pop_times pp k q1 in (out # outs, q2))"

fun fill_drain_loop ::
  "('q \<Rightarrow> 'a \<Rightarrow> bool \<times> 'q) \<Rightarrow> ('q \<Rightarrow> 'a option \<times> 'q) \<Rightarrow> 'a list \<Rightarrow> nat \<Rightarrow> 'q \<Rightarrow> (nat \<times> 'a option list) list \<times> 'q" where
  "fill_drain_loop psh pp xs 0 q = ([], q)"
| "fill_drain_loop psh pp xs (Suc k) q =
     (let (rejected, q1) = push_all psh q xs; (outs, q2) = pop_times pp (length xs) q1; (rest, q3) = fill_drain_loop psh pp xs k q2
      in ((rejected, outs) # rest, q3))"

definition BM_SpscPushPop :: "nat \<Rightarrow> (bool \<times> int option) list" where
  "BM_SpscPushPop iterations = fst (push_pop_loop (push 1024) (pop 1024) 42 iterations (SpscRingBuffer_new 1024 0))"

definition BM_SpscBatchFillDrain :: "nat \<Rightarrow> (nat \<times> int option list) list" where
  "BM_SpscBatchFillDrain iterations = fst (fill_drain_loop (push 1024) (pop 1024) [0..511] iterations (SpscRingBuffer_new 1024 0))"

definition BM_SpscPeek :: "nat \<Rightarrow> int option list" where
  "BM_SpscPeek iterations = (let (_, ring) = push 8 (SpscRingBuffer_new 8 0) 1 in replicate iterations (peek ring))"

definition BM_SpscSize :: "nat \<Rightarrow> u64 list" where
  "BM_SpscSize iterations =
     (let (_, ring) = push_all (push 4096) (SpscRingBuffer_new 4096 0) (map of_nat [0..<100] :: u64 list)
      in replicate iterations (ring_size 4096 ring))"

text \<open>Facts about any bounded queue.\<close>

context bounded_queue
begin

lemma pop_times_items:
  assumes "invar q" "items q = xs @ ys"
  shows "fst (pop_times pp (length xs) q) = map Some xs \<and> items (snd (pop_times pp (length xs) q)) = ys \<and> invar (snd (pop_times pp (length xs) q))"
  using assms
proof (induction xs arbitrary: q)
  case (Cons x xs)
  obtain q1 where p: "pp q = (Some x, q1)" "items q1 = xs @ ys"
    using pp_item [OF Cons.prems(1), of x "xs @ ys"] Cons.prems(2) by (cases "pp q") auto
  have "invar q1" using invar_pp [OF Cons.prems(1)] p(1) by simp
  from Cons.IH [OF this p(2)] show ?case by (simp add: p(1) case_prod_beta)
qed simp

lemma push_pop_loop_items:
  assumes "invar q" "items q = []" "0 < bound"
  shows "fst (push_pop_loop psh pp x k q) = replicate k (True, Some x)"
  using assms(1,2)
proof (induction k arbitrary: q)
  case (Suc k)
  obtain q1 where p: "psh q x = (True, q1)" "items q1 = [x]" using psh_accept [OF Suc.prems(1), of x] Suc.prems(2) assms(3) by (cases "psh q x") auto
  have i: "invar q1" using invar_psh [OF Suc.prems(1), of x] p(1) by simp
  obtain q2 where r: "pp q1 = (Some x, q2)" "items q2 = []" using pp_item [OF i p(2)] by (cases "pp q1") auto
  have "invar q2" using invar_pp [OF i] r(1) by simp
  from Suc.IH [OF this r(2)] show ?case by (simp add: p(1) r(1) case_prod_beta)
qed simp

lemma fill_drain_loop_items:
  assumes "invar q" "items q = []" "length xs \<le> bound"
  shows "fst (fill_drain_loop psh pp xs k q) = replicate k (0, map Some xs)"
  using assms(1,2)
proof (induction k arbitrary: q)
  case (Suc k)
  obtain rej q1 where p: "push_all psh q xs = (rej, q1)" by fastforce
  have a: "invar q1" "items q1 = xs @ []" "rej = 0" using push_all_items [OF Suc.prems(1), of xs] Suc.prems(2) assms(3) p by simp_all
  obtain outs q2 where r: "pop_times pp (length xs) q1 = (outs, q2)" by fastforce
  have b: "outs = map Some xs" "items q2 = []" "invar q2" using pop_times_items [OF a(1,2)] r by simp_all
  from Suc.IH [OF b(3,2)] show ?case by (simp add: p r a(3) b(1) case_prod_beta)
qed simp

end

section \<open>The throughput benchmark\<close>

datatype consumer_phase = Polling | Draining | Joined

record throughput =
  th_ring :: "u64 spsc_threads"
  th_todo :: "u64 list"
  th_running :: bool
  th_phase :: consumer_phase
  th_counting :: bool
  th_consumed :: u64

definition throughput_init :: "u64 \<Rightarrow> u64 list \<Rightarrow> throughput" where
  "throughput_init N vals =
     \<lparr>th_ring = threads_init N 0, th_todo = vals, th_running = True, th_phase = Polling,
      th_counting = False, th_consumed = 0\<rparr>"

text \<open>The values of \<open>k\<close> iterations.\<close>

definition batches :: "nat \<Rightarrow> u64 list" where
  "batches k = concat (replicate k (map of_nat [0..<1024]))"

text \<open>
  One access of a thread to a shared variable. \<open>Produce i\<close> and \<open>Consume i\<close> are the next access inside \<open>push\<close> and \<open>pop\<close>, where \<open>i\<close> selects the entry of
  the other thread's index that an acquire load returns. A \<open>push\<close> that fails is tried again with the same value. While it polls, the consumer
  starts a \<open>pop\<close> whenever its relaxed load of \<open>running\<close> returns true, which may be a stale value; \<open>See_stopped\<close> is a
  load that returns false. \<open>Count\<close> is the \<open>fetch_add\<close> on \<open>consumed\<close>, an access of its own after a \<open>pop\<close> that returned
  a value (\<open>th_counting\<close>): between the two the counter lags behind.
\<close>

datatype throughput_action = Produce nat | Stop_running | Consume nat | Count | See_stopped

definition throughput_act :: "u64 \<Rightarrow> throughput_action \<Rightarrow> throughput \<Rightarrow> throughput option" where
  "throughput_act N a s =
     (let r = th_ring s; ring = (\<lambda>act. map_option (\<lambda>r'. s\<lparr>th_ring := r'\<rparr>) (spsc_act N act r))
      in case a of
        Produce i \<Rightarrow> (case p_pc r of
            P_idle \<Rightarrow> (case th_todo s of [] \<Rightarrow> None | v # vs \<Rightarrow> ring (Push_load_tail v))
          | P_load_head x t \<Rightarrow> ring (Push_load_head i)
          | P_write x t next_t \<Rightarrow> ring Push_write
          | P_store x next_t \<Rightarrow> map_option (\<lambda>s'. s'\<lparr>th_todo := tl (th_todo s)\<rparr>) (ring Push_store))
      | Stop_running \<Rightarrow> if th_todo s = [] \<and> p_pc r = P_idle then Some (s\<lparr>th_running := False\<rparr>) else None
      | Consume i \<Rightarrow> (case c_pc r of
            C_idle \<Rightarrow> if th_phase s = Joined \<or> th_counting s then None else ring Pop_load_head
          | C_load_tail h \<Rightarrow>
              map_option (\<lambda>s'. if c_pc (th_ring s') = C_idle \<and> th_phase s = Draining then s'\<lparr>th_phase := Joined\<rparr> else s')
                (ring (Pop_load_tail i))
          | C_read h \<Rightarrow> ring Pop_read
          | C_store h v \<Rightarrow> map_option (\<lambda>s'. s'\<lparr>th_counting := True\<rparr>) (ring Pop_store)
          | _ \<Rightarrow> None)
      | Count \<Rightarrow> if th_counting s then Some (s\<lparr>th_counting := False, th_consumed := th_consumed s + 1\<rparr>) else None
      | See_stopped \<Rightarrow>
          if th_phase s = Polling \<and> c_pc r = C_idle \<and> \<not> th_counting s \<and> \<not> th_running s then Some (s\<lparr>th_phase := Draining\<rparr>) else None)"

text \<open>The reachable states; with \<open>fresh\<close>, the consumer's loads of \<open>tail_\<close> return its newest value.\<close>

inductive throughput_reachable :: "u64 \<Rightarrow> u64 list \<Rightarrow> bool \<Rightarrow> throughput \<Rightarrow> bool" for N vals fresh where
  launch: "throughput_reachable N vals fresh (throughput_init N vals)"
| act: "throughput_reachable N vals fresh s \<Longrightarrow> throughput_act N a s = Some s' \<Longrightarrow>
     (fresh \<Longrightarrow> \<forall>i. a = Consume i \<longrightarrow> Suc i = length (tail_hist (th_ring s))) \<Longrightarrow> throughput_reachable N vals fresh s'"

fun mid_push :: "u64 list \<Rightarrow> u64 producer_pc \<Rightarrow> bool" where
  "mid_push todo P_idle = True"
| "mid_push todo (P_load_head x t) = (\<exists>vs. todo = x # vs)"
| "mid_push todo (P_write x t next_t) = (\<exists>vs. todo = x # vs)"
| "mid_push todo (P_store x next_t) = (\<exists>vs. todo = x # vs)"

fun not_peeking :: "'a consumer_pc \<Rightarrow> bool" where
  "not_peeking (K_load_tail h) = False"
| "not_peeking (K_read h) = False"
| "not_peeking _ = True"

definition throughput_inv :: "u64 \<Rightarrow> u64 list \<Rightarrow> bool \<Rightarrow> throughput \<Rightarrow> bool" where
  "throughput_inv N vals fresh s \<longleftrightarrow> threads_inv N (th_ring s) \<and>
     accepted (th_ring s) @ th_todo s = vals \<and> mid_push (th_todo s) (p_pc (th_ring s)) \<and>
     th_consumed s + (if th_counting s then 1 else 0) = of_nat (length (delivered (th_ring s))) \<and>
     (th_counting s \<longrightarrow> c_pc (th_ring s) = C_idle \<and> th_phase s \<noteq> Joined) \<and>
     (\<not> th_running s \<longrightarrow> th_todo s = [] \<and> p_pc (th_ring s) = P_idle) \<and> (th_phase s \<noteq> Polling \<longrightarrow> \<not> th_running s) \<and>
     (th_phase s = Joined \<longrightarrow> c_pc (th_ring s) = C_idle \<and> (fresh \<longrightarrow> length (delivered (th_ring s)) = length (accepted (th_ring s))))"

lemma spsc_act_inv: "spsc_act N a r = Some r' \<Longrightarrow> static_ok N \<Longrightarrow> threads_inv N r \<Longrightarrow> threads_inv N r'"
  by (rule threads_inv_step [OF spsc_act_step])

lemma empty_means_delivered:
  assumes "static_ok N" "threads_inv N r" "c_pc r = C_load_tail h" "Suc i = length (tail_hist r)" "h = tail_hist r ! i"
  shows "length (delivered r) = length (accepted r)"
proof -
  note iv = threads_invD [OF assms(2)] note c = count_okD [OF iv(1)]
  have "h = slot_of N (length (delivered r))" using iv(3) assms(3) by simp
  moreover have "i = length (accepted r)" using hist_okD(1) [OF c(1)] assms(4) by simp
  then have "tail_hist r ! i = slot_of N (length (accepted r))" using hist_okD(2) [OF c(1), of i] by simp
  ultimately have "slot_of N (length (delivered r)) = slot_of N (length (accepted r))" using assms(5) by simp
  then have m: "length (delivered r) mod unat N = length (accepted r) mod unat N" unfolding slot_of_eq_iff [OF assms(1)] .
  show ?thesis by (rule mod_eq_close [OF m]) (use c(3-6) in linarith)+
qed

lemma throughput_inv_produce:
  assumes "static_ok N" "throughput_inv N vals fresh s" "throughput_act N (Produce i) s = Some s'"
  shows "throughput_inv N vals fresh s'"
proof -
  let ?r = "th_ring s"
  have inv: "threads_inv N ?r" using assms(2) by (simp add: throughput_inv_def)
  show ?thesis
  proof (cases "p_pc ?r")
    case P_idle
    then obtain v vs r' where t: "th_todo s = v # vs" "spsc_act N (Push_load_tail v) ?r = Some r'" "s' = s\<lparr>th_ring := r'\<rparr>"
      using assms(3) by (auto simp: throughput_act_def Let_def split: list.splits)
    then show ?thesis using assms(2) spsc_act_inv [OF t(2) assms(1) inv] P_idle by (auto simp: throughput_inv_def spsc_act_def)
  next
    case (P_load_head x t)
    then obtain r' where t: "spsc_act N (Push_load_head i) ?r = Some r'" "s' = s\<lparr>th_ring := r'\<rparr>"
      using assms(3) by (auto simp: throughput_act_def Let_def)
    then show ?thesis using assms(2) spsc_act_inv [OF t(1) assms(1) inv] P_load_head
      by (auto simp: throughput_inv_def spsc_act_def Let_def split: if_splits)
  next
    case (P_write x t next_t)
    then obtain r' where t: "spsc_act N Push_write ?r = Some r'" "s' = s\<lparr>th_ring := r'\<rparr>"
      using assms(3) by (auto simp: throughput_act_def Let_def)
    then show ?thesis using assms(2) spsc_act_inv [OF t(1) assms(1) inv] P_write by (auto simp: throughput_inv_def spsc_act_def write_slot_def)
  next
    case (P_store x next_t)
    then obtain r' where t: "spsc_act N Push_store ?r = Some r'" "s' = s\<lparr>th_ring := r', th_todo := tl (th_todo s)\<rparr>"
      using assms(3) by (auto simp: throughput_act_def Let_def)
    then show ?thesis using assms(2) spsc_act_inv [OF t(1) assms(1) inv] P_store by (auto simp: throughput_inv_def spsc_act_def)
  qed
qed

lemma throughput_inv_consume:
  assumes "static_ok N" "throughput_inv N vals fresh s" "throughput_act N (Consume i) s = Some s'"
    "fresh \<longrightarrow> Suc i = length (tail_hist (th_ring s))"
  shows "throughput_inv N vals fresh s'"
proof -
  let ?r = "th_ring s"
  have inv: "threads_inv N ?r" using assms(2) by (simp add: throughput_inv_def)
  show ?thesis
  proof (cases "c_pc ?r")
    case C_idle
    then obtain r' where t: "spsc_act N Pop_load_head ?r = Some r'" "s' = s\<lparr>th_ring := r'\<rparr>" "th_phase s \<noteq> Joined" "\<not> th_counting s"
      using assms(3) by (auto simp: throughput_act_def Let_def split: if_splits)
    then show ?thesis using assms(2) spsc_act_inv [OF t(1) assms(1) inv] C_idle by (auto simp: throughput_inv_def spsc_act_def)
  next
    case (C_load_tail h)
    then obtain r' where t: "spsc_act N (Pop_load_tail i) ?r = Some r'"
      "s' = s\<lparr>th_ring := r', th_phase := if c_pc r' = C_idle \<and> th_phase s = Draining then Joined else th_phase s\<rparr>"
      using assms(3) by (auto simp: throughput_act_def Let_def split: if_splits)
    have "c_pc r' = C_idle \<Longrightarrow> h = tail_hist ?r ! i" using t(1) C_load_tail by (auto simp: spsc_act_def split: if_splits)
    then have "c_pc r' = C_idle \<Longrightarrow> fresh \<Longrightarrow> length (delivered ?r) = length (accepted ?r)"
      using empty_means_delivered [OF assms(1) inv C_load_tail] assms(4) by blast
    then show ?thesis using assms(2) spsc_act_inv [OF t(1) assms(1) inv] t C_load_tail
      by (auto simp: throughput_inv_def spsc_act_def split: if_splits)
  next
    case (C_read h)
    then obtain r' where t: "spsc_act N Pop_read ?r = Some r'" "s' = s\<lparr>th_ring := r'\<rparr>"
      using assms(3) by (auto simp: throughput_act_def Let_def)
    then show ?thesis using assms(2) spsc_act_inv [OF t(1) assms(1) inv] C_read by (auto simp: throughput_inv_def spsc_act_def read_slot_def)
  next
    case (C_store h v)
    then obtain r' where t: "spsc_act N Pop_store ?r = Some r'" "s' = s\<lparr>th_ring := r', th_counting := True\<rparr>"
      using assms(3) by (auto simp: throughput_act_def Let_def)
    then show ?thesis using assms(2) spsc_act_inv [OF t(1) assms(1) inv] C_store by (auto simp: throughput_inv_def spsc_act_def)
  qed (use assms(3) in \<open>simp_all add: throughput_act_def Let_def\<close>)
qed

lemma throughput_inv_reachable:
  assumes "throughput_reachable N vals fresh s" "static_ok N"
  shows "throughput_inv N vals fresh s"
  using assms(1)
proof induction
  case launch
  show ?case using threads_inv_init [OF assms(2)] by (simp add: throughput_inv_def throughput_init_def) (simp add: threads_init_def)
next
  case (act s a s')
  show ?case
  proof (cases a)
    case (Produce i)
    then show ?thesis using throughput_inv_produce [OF assms(2) act.IH] act.hyps by simp
  next
    case (Consume i)
    then show ?thesis using throughput_inv_consume [OF assms(2) act.IH] act.hyps by blast
  next
    case Count
    then show ?thesis using act.IH act.hyps(2) by (auto simp: throughput_act_def throughput_inv_def Let_def split: if_splits)
  next
    case Stop_running
    then show ?thesis using act.IH act.hyps(2) by (auto simp: throughput_act_def throughput_inv_def Let_def split: if_splits)
  next
    case See_stopped
    then show ?thesis using act.IH act.hyps(2) by (auto simp: throughput_act_def throughput_inv_def Let_def split: if_splits)
  qed
qed

section \<open>A drain that sees old indices\<close>

text \<open>The states of a run in which only the producer has moved.\<close>

definition only_pushed :: "u64 list \<Rightarrow> throughput \<Rightarrow> bool" where
  "only_pushed done s \<longleftrightarrow> p_pc (th_ring s) = P_idle \<and> c_pc (th_ring s) = C_idle \<and> head_hist (th_ring s) = [0] \<and> p_sees (th_ring s) = 0 \<and>
     c_sees (th_ring s) = 0 \<and> accepted (th_ring s) = done \<and> th_phase s = Polling \<and> \<not> th_counting s \<and> th_consumed s = 0"

lemma throughput_run:
  assumes "throughput_reachable N vals False s" "throughput_act N a s = Some s'"
  shows "throughput_reachable N vals False s'"
  using assms by (rule throughput_reachable.act) simp

lemma push_once:
  assumes "static_ok N" "throughput_reachable N vals False s" "only_pushed done s" "th_todo s = v # vs" "Suc (length done) < unat N"
  obtains s' where "throughput_reachable N vals False s'" "only_pushed (done @ [v]) s'" "th_todo s' = vs"
proof -
  let ?r = "th_ring s" and ?t = "last (tail_hist (th_ring s))"
  let ?next = "(?t + 1) AND kMask N"
  note o = assms(3)[unfolded only_pushed_def]
  have "threads_inv N ?r" using throughput_inv_reachable [OF assms(2,1)] by (simp add: throughput_inv_def)
  then have "?t = slot_of N (length (accepted ?r))" using hist_okD(3) count_okD(1) threads_invD(1) by blast
  then have "?next = slot_of N (Suc (length done))" using slot_of_next [OF assms(1)] o by simp
  then have "unat ?next = Suc (length done)" using unat_slot_of [OF assms(1)] assms(5) by simp
  then have nz: "?next \<noteq> 0" by auto
  let ?r1 = "?r\<lparr>p_pc := P_load_head v ?t\<rparr>"
  let ?r2 = "?r1\<lparr>p_sees := 0, p_pc := P_write v ?t ?next\<rparr>"
  let ?r3 = "(write_slot ?r2 (unat ?t) v)\<lparr>p_pc := P_store v ?next\<rparr>"
  let ?r4 = "?r3\<lparr>tail_hist := tail_hist ?r3 @ [?next], accepted := accepted ?r3 @ [v], p_pc := P_idle\<rparr>"
  have "throughput_act N (Produce 0) s = Some (s\<lparr>th_ring := ?r1\<rparr>)" using o assms(4) by (simp add: throughput_act_def spsc_act_def Let_def)
  from throughput_run [OF assms(2) this] have 1: "throughput_reachable N vals False (s\<lparr>th_ring := ?r1\<rparr>)" .
  have "throughput_act N (Produce 0) (s\<lparr>th_ring := ?r1\<rparr>) = Some (s\<lparr>th_ring := ?r2\<rparr>)" using o nz by (simp add: throughput_act_def spsc_act_def Let_def)
  from throughput_run [OF 1 this] have 2: "throughput_reachable N vals False (s\<lparr>th_ring := ?r2\<rparr>)" .
  have "throughput_act N (Produce 0) (s\<lparr>th_ring := ?r2\<rparr>) = Some (s\<lparr>th_ring := ?r3\<rparr>)" by (simp add: throughput_act_def spsc_act_def Let_def)
  from throughput_run [OF 2 this] have 3: "throughput_reachable N vals False (s\<lparr>th_ring := ?r3\<rparr>)" .
  have "throughput_act N (Produce 0) (s\<lparr>th_ring := ?r3\<rparr>) = Some (s\<lparr>th_ring := ?r4, th_todo := vs\<rparr>)"
    using assms(4) by (simp add: throughput_act_def spsc_act_def Let_def)
  from throughput_run [OF 3 this] have "throughput_reachable N vals False (s\<lparr>th_ring := ?r4, th_todo := vs\<rparr>)" .
  moreover have "only_pushed (done @ [v]) (s\<lparr>th_ring := ?r4, th_todo := vs\<rparr>)" using o by (simp add: only_pushed_def write_slot_def)
  ultimately show thesis by (rule that) simp
qed

lemma push_every:
  assumes "static_ok N" "length (done @ todo) < unat N" "throughput_reachable N vals False s" "only_pushed done s" "th_todo s = todo"
  obtains s' where "throughput_reachable N vals False s'" "only_pushed (done @ todo) s'" "th_todo s' = []"
  using assms(2-5)
proof (induction todo arbitrary: "done" s thesis)
  case Nil
  then show ?case by simp
next
  case (Cons v vs)
  have l: "Suc (length done) < unat N" "length ((done @ [v]) @ vs) < unat N" using Cons.prems(2) by simp_all
  obtain s1 where 1: "throughput_reachable N vals False s1" "only_pushed (done @ [v]) s1" "th_todo s1 = vs"
    by (rule push_once [OF assms(1) Cons.prems(3-5) l(1)])
  obtain s2 where "throughput_reachable N vals False s2" "only_pushed ((done @ [v]) @ vs) s2" "th_todo s2 = []"
    by (rule Cons.IH [OF _ l(2) 1])
  then show ?case by (intro Cons.prems(1)) simp_all
qed

lemma static_ok_4096 [simp]: "static_ok 4096"
  by (simp add: static_ok_def)

lemma length_batches [simp]: "length (batches k) = 1024 * k"
  by (induction k) (simp_all add: batches_def)

text \<open>
  (C23) The throughput benchmark, for a ring of any capacity and any values to push; the benchmark has 4096 slots and \<open>batches k\<close>. In every
  state of every interleaving there is no data race and the values popped are a prefix of the values to push, in order. The counter
  \<open>consumed\<close> is their number, less one exactly while the consumer is between a \<open>pop\<close> that returned a value and its \<open>fetch_add\<close>. When the
  consumer thread has ended, the producer has pushed everything and the counter is the number of values popped; if moreover the
  consumer's loads of \<open>tail_\<close> always returned the newest value, everything has been consumed and counted.
\<close>

theorem throughput_accounting:
  assumes "static_ok N" and "throughput_reachable N vals fresh s"
  shows "\<not> raced (th_ring s) \<and> (\<exists>rest. vals = delivered (th_ring s) @ rest) \<and>
    th_consumed s + (if th_counting s then 1 else 0) = of_nat (length (delivered (th_ring s))) \<and>
    (th_phase s = Joined \<longrightarrow> accepted (th_ring s) = vals \<and> th_consumed s = of_nat (length (delivered (th_ring s))) \<and>
      (fresh \<longrightarrow> delivered (th_ring s) = vals))"
proof -
  have i: "throughput_inv N vals fresh s" using assms(2,1) by (rule throughput_inv_reachable)
  note iv = i[unfolded throughput_inv_def]
  let ?acc = "accepted (th_ring s)" and ?del = "delivered (th_ring s)"
  have t: "threads_inv N (th_ring s)" "?acc @ th_todo s = vals" using iv by simp_all
  have d: "take (length ?del) ?acc = ?del" using threads_invD(4) [OF t(1)] by (simp add: slots_ok_def)
  have "vals = (take (length ?del) ?acc @ drop (length ?del) ?acc) @ th_todo s" unfolding append_take_drop_id t(2) ..
  then have "\<exists>rest. vals = ?del @ rest" unfolding d append.assoc by (rule exI)
  moreover have "?acc = vals \<and> th_consumed s = of_nat (length ?del) \<and> (fresh \<longrightarrow> ?del = vals)" if joined: "th_phase s = Joined"
  proof -
    have "\<not> th_running s" using iv joined by simp
    then have "th_todo s = []" using iv by blast
    then have a: "?acc = vals" using t(2) by simp
    moreover have "fresh \<longrightarrow> length ?del = length ?acc" using iv joined by blast
    moreover have "\<not> th_counting s" using iv joined by simp
    then have "th_consumed s = of_nat (length ?del)" using iv by simp
    ultimately show ?thesis using d by auto
  qed
  moreover have "\<not> raced (th_ring s)" using t(1) by (simp add: threads_inv_def)
  ultimately show ?thesis using iv by blast
qed

text \<open>
  (C39) The drain of the throughput benchmark is not ordered after the pushes. \<open>running\<close> is stored and loaded with relaxed order, so seeing it
  false does not make the producer's stores to \<open>tail_\<close> visible: for one to three iterations there is an execution allowed by the C++
  memory model in which all values were pushed and the consumer ends having consumed none of them.
\<close>

theorem throughput_drain_incomplete:
  assumes "0 < k" "k \<le> 3"
  shows "\<exists>s. throughput_reachable 4096 (batches k) False s \<and> accepted (th_ring s) = batches k \<and> th_phase s = Joined \<and> th_consumed s = 0"
proof -
  have l: "length ([] @ batches k) < unat (4096 :: u64)" using assms(2) by simp
  have "throughput_reachable 4096 (batches k) False (throughput_init 4096 (batches k))" by (rule throughput_reachable.launch)
  moreover have "only_pushed [] (throughput_init 4096 (batches k))" by (simp add: only_pushed_def throughput_init_def threads_init_def)
  moreover have "th_todo (throughput_init 4096 (batches k)) = batches k" by (simp add: throughput_init_def)
  ultimately obtain s where s: "throughput_reachable 4096 (batches k) False s" "only_pushed ([] @ batches k) s" "th_todo s = []"
    by (rule push_every [OF static_ok_4096 l])
  note o = s(2)[unfolded only_pushed_def]
  have i: "threads_inv 4096 (th_ring s)" using throughput_inv_reachable [OF s(1)] by (simp add: throughput_inv_def)
  have h: "tail_hist (th_ring s) ! 0 = 0" "tail_hist (th_ring s) \<noteq> []"
    using hist_okD(1,2) [OF count_okD(1) [OF threads_invD(1) [OF i]]] by (auto simp: slot_of_def)
  let ?s1 = "s\<lparr>th_running := False\<rparr>"
  let ?s2 = "?s1\<lparr>th_phase := Draining\<rparr>"
  let ?s3 = "?s2\<lparr>th_ring := (th_ring s)\<lparr>c_pc := C_load_tail 0\<rparr>\<rparr>"
  let ?s4 = "?s3\<lparr>th_ring := (th_ring s)\<lparr>c_sees := 0, c_pc := C_idle\<rparr>, th_phase := Joined\<rparr>"
  have "throughput_act 4096 Stop_running s = Some ?s1" using o s(3) by (simp add: throughput_act_def Let_def)
  from throughput_run [OF s(1) this] have 1: "throughput_reachable 4096 (batches k) False ?s1" .
  have "throughput_act 4096 See_stopped ?s1 = Some ?s2" using o by (simp add: throughput_act_def Let_def)
  from throughput_run [OF 1 this] have 2: "throughput_reachable 4096 (batches k) False ?s2" .
  have "throughput_act 4096 (Consume 0) ?s2 = Some ?s3" using o by (simp add: throughput_act_def spsc_act_def Let_def)
  from throughput_run [OF 2 this] have 3: "throughput_reachable 4096 (batches k) False ?s3" .
  have "throughput_act 4096 (Consume 0) ?s3 = Some ?s4" using o h by (simp add: throughput_act_def spsc_act_def Let_def)
  from throughput_run [OF 3 this] have "throughput_reachable 4096 (batches k) False ?s4" .
  then show ?thesis using o by (intro exI [of _ ?s4]) simp
qed

text \<open>
  The single-threaded ring benchmarks do what their comments say: no push is rejected, every pop returns the item just
  pushed, every batch of 512 comes out complete and in order, \<open>peek\<close> always sees the item, and \<open>size\<close> is always 100.
\<close>

theorem ring_benchmarks:
  "BM_SpscPushPop k = replicate k (True, Some 42) \<and> BM_SpscBatchFillDrain k = replicate k (0, map Some [0..511]) \<and>
   BM_SpscPeek k = replicate k (Some 1) \<and> BM_SpscSize k = replicate k 100"
proof -
  have ok: "static_ok 1024" by (simp add: static_ok_def)
  have f: "ring_inv 1024 (SpscRingBuffer_new 1024 (0 :: int))" by (rule ring_inv_new [OF ok])
  have 1: "BM_SpscPushPop k = replicate k (True, Some 42)"
    unfolding BM_SpscPushPop_def by (rule spsc.push_pop_loop_items [OF f contents_new]) simp
  have 2: "BM_SpscBatchFillDrain k = replicate k (0, map Some [0..511])"
    unfolding BM_SpscBatchFillDrain_def by (rule spsc.fill_drain_loop_items [OF f contents_new]) simp
  have "(let (_, ring) = push 8 (SpscRingBuffer_new 8 0) 1 in peek ring) = Some (1 :: int)" by code_simp
  then have 3: "BM_SpscPeek k = replicate k (Some 1)" by (simp add: BM_SpscPeek_def case_prod_beta)
  define r where "r = snd (push_all (push 4096) (SpscRingBuffer_new 4096 0) (map of_nat [0..<100] :: u64 list))"
  have g: "ring_inv 4096 (SpscRingBuffer_new 4096 (0 :: u64))" using ring_inv_new [OF static_ok_4096] .
  note p = spsc.push_all_items [OF g, of "map of_nat [0..<100]", folded r_def]
  have "length (contents 4096 r) = 100" unfolding p(2) by (simp add: contents_new)
  then have "unat (ring_size 4096 r) = 100" using ring_size_count [OF p(1)] by (simp add: contents_def)
  then have "ring_size 4096 r = 100" by (simp add: word_unat_eq_iff)
  then have 4: "BM_SpscSize k = replicate k 100" by (simp add: BM_SpscSize_def r_def case_prod_beta)
  show ?thesis using 1 2 3 4 by simp
qed

theorem throughput_drain_incomplete_witness:
  "\<exists>s. throughput_reachable 4096 (batches 1) False s \<and> accepted (th_ring s) = batches 1 \<and> th_phase s = Joined \<and> th_consumed s = 0"
  using throughput_drain_incomplete [of 1] by simp

text \<open>A run of the benchmark from a list of actions, in which the consumer's loads of \<open>tail_\<close> return its newest value.\<close>

fun throughput_exec :: "u64 \<Rightarrow> throughput_action list \<Rightarrow> throughput \<Rightarrow> throughput option" where
  "throughput_exec N [] s = Some s"
| "throughput_exec N (a # as) s =
     (if (case a of Consume i \<Rightarrow> Suc i = length (tail_hist (th_ring s)) | _ \<Rightarrow> True)
      then (case throughput_act N a s of None \<Rightarrow> None | Some s' \<Rightarrow> throughput_exec N as s')
      else None)"

lemma throughput_exec_reachable:
  "throughput_exec N as s = Some s' \<Longrightarrow> throughput_reachable N vals True s \<Longrightarrow> throughput_reachable N vals True s'"
proof (induction as arbitrary: s)
  case (Cons a as)
  then obtain s1 where 1: "throughput_act N a s = Some s1" "throughput_exec N as s1 = Some s'"
    "case a of Consume i \<Rightarrow> Suc i = length (tail_hist (th_ring s)) | _ \<Rightarrow> True"
    by (auto split: if_splits option.splits)
  from Cons.prems(2) 1(1) have "throughput_reachable N vals True s1"
    by (rule throughput_reachable.act) (use 1(3) in auto)
  then show ?case using Cons.IH 1(2) by blast
qed simp

theorem throughput_accounting_witness:
  "\<exists>s. throughput_reachable 4 [7, 9] True s \<and> th_phase s = Joined \<and> th_consumed s = 2 \<and> \<not> raced (th_ring s) \<and> delivered (th_ring s) = [7, 9]"
proof -
  let ?acts = "replicate 4 (Produce 0) @ replicate 4 (Consume 1) @ replicate 2 (Produce 1) @ Count # replicate 2 (Produce 1) @
    Consume 2 # Stop_running # replicate 3 (Consume 2) @ [Count, See_stopped, Consume 2, Consume 2]"
  have "map_option th_phase (throughput_exec 4 ?acts (throughput_init 4 [7, 9])) = Some Joined" by code_simp
  then obtain s where s: "throughput_exec 4 ?acts (throughput_init 4 [7, 9]) = Some s" "th_phase s = Joined" by auto
  have "throughput_reachable 4 [7, 9] True s" using throughput_exec_reachable [OF s(1) throughput_reachable.launch] .
  moreover from this have "accepted (th_ring s) = [7, 9] \<and> delivered (th_ring s) = [7, 9] \<and> th_consumed s = of_nat (length (delivered (th_ring s))) \<and> \<not> raced (th_ring s)"
    using throughput_accounting [of 4 "[7, 9]" True s] s(2) by (simp add: static_ok_def)
  ultimately show ?thesis using s(2) by (intro exI [of _ s]) simp
qed

end
