(* ===== verification/Os_Trace.thy ===== *)
theory Os_Trace
  imports Feed_Prelude
begin

text \<open>
  The operating-system and libxdp calls that acquire and release resources. They are not code of
  this repository: their answers come from a parameter \<open>env\<close> (a record of functions of the calls
  made so far), and the program's side is the trace of calls it makes, newest first.

  \<open>ledger\<close> replays a trace and keeps the live mappings, UMEMs and sockets. It returns None as soon
  as a call misuses the interface: unmapping a region that is not mapped with that length or that a
  live UMEM still uses, deleting a UMEM that is not live or that a live socket still uses,
  deleting a socket that is not live.
\<close>

section \<open>Calls and their effect\<close>

datatype sys_event =
    Mmap ptr u64
  | Munmap ptr u64
  | Umem_create u64 ptr
  | Umem_delete u64
  | Socket_create u64 u64
  | Socket_delete u64
  | Sendto int

record resources =
  maps :: "(ptr \<times> u64) set"
  umems :: "(u64 \<times> ptr) set"
  socks :: "(u64 \<times> u64) set"

definition no_resources :: resources where
  "no_resources = \<lparr>maps = {}, umems = {}, socks = {}\<rparr>"

definition MAP_FAILED :: ptr where
  "MAP_FAILED = - 1"

fun res_step :: "sys_event \<Rightarrow> resources \<Rightarrow> resources option" where
  "res_step (Mmap a n) L = Some (L\<lparr>maps := insert (a, n) (maps L)\<rparr>)"
| "res_step (Munmap a n) L =
     (if (a, n) \<in> maps L \<and> a \<notin> snd ` umems L then Some (L\<lparr>maps := maps L - {(a, n)}\<rparr>) else None)"
| "res_step (Umem_create h a) L =
     (if a \<in> fst ` maps L then Some (L\<lparr>umems := insert (h, a) (umems L)\<rparr>) else None)"
| "res_step (Umem_delete h) L =
     (if h \<in> fst ` umems L \<and> h \<notin> snd ` socks L
      then Some (L\<lparr>umems := {p \<in> umems L. fst p \<noteq> h}\<rparr>) else None)"
| "res_step (Socket_create s h) L =
     (if h \<in> fst ` umems L then Some (L\<lparr>socks := insert (s, h) (socks L)\<rparr>) else None)"
| "res_step (Socket_delete s) L =
     (if s \<in> fst ` socks L then Some (L\<lparr>socks := {p \<in> socks L. fst p \<noteq> s}\<rparr>) else None)"
| "res_step (Sendto fd) L = Some L"

primrec ledger :: "sys_event list \<Rightarrow> resources option" where
  "ledger [] = Some no_resources"
| "ledger (e # tr) = (case ledger tr of None \<Rightarrow> None | Some L \<Rightarrow> res_step e L)"

section \<open>Answers of the environment\<close>

text \<open>
  The structures \<open>xsk_umem_config\<close> and \<open>xsk_socket_config\<close> of libxdp, as far as the code sets them.
\<close>

record xsk_umem_config =
  xu_fill_size :: u32
  xu_comp_size :: u32
  xu_frame_size :: u32
  xu_frame_headroom :: u32
  xu_flags :: u32

record xsk_socket_config =
  xs_rx_size :: u32
  xs_tx_size :: u32
  xs_xdp_flags :: u32
  xs_bind_flags :: u16
  xs_libbpf_flags :: u32

text \<open>
  \<open>env_mmap tr n huge\<close> is the returned address and \<open>errno\<close>; \<open>env_umem\<close> and \<open>env_socket\<close> return the
  non-zero error code, or the new handle with the initialised rings; \<open>env_alloc n\<close> tells whether
  the heap can serve \<open>n\<close> bytes.
\<close>

record ('f, 'c, 'r, 't) env =
  env_mmap :: "sys_event list \<Rightarrow> u64 \<Rightarrow> bool \<Rightarrow> ptr \<times> int"
  env_umem :: "sys_event list \<Rightarrow> ptr \<Rightarrow> u64 \<Rightarrow> xsk_umem_config \<Rightarrow> int + (u64 \<times> 'f \<times> 'c)"
  env_socket :: "sys_event list \<Rightarrow> string \<Rightarrow> u32 \<Rightarrow> u64 \<Rightarrow> xsk_socket_config \<Rightarrow> int + (u64 \<times> 'r \<times> 't)"
  env_fd :: "u64 \<Rightarrow> int"
  env_alloc :: "sys_event list \<Rightarrow> nat \<Rightarrow> bool"

text \<open>
  What POSIX and libxdp promise: a successful \<open>mmap\<close> without \<open>MAP_FIXED\<close> returns a non-null address
  at which nothing is mapped; a successful create call returns a non-null handle that no live
  object has.
\<close>

definition mmap_doc :: "('f, 'c, 'r, 't) env \<Rightarrow> bool" where
  "mmap_doc env \<longleftrightarrow> (\<forall>tr L n huge a e. ledger tr = Some L \<and> env_mmap env tr n huge = (a, e) \<and> a \<noteq> MAP_FAILED
     \<longrightarrow> a \<noteq> 0 \<and> a \<notin> fst ` maps L)"

definition umem_doc :: "('f, 'c, 'r, 't) env \<Rightarrow> bool" where
  "umem_doc env \<longleftrightarrow> (\<forall>tr L a n cfg h f c. ledger tr = Some L \<and> env_umem env tr a n cfg = Inr (h, f, c)
     \<longrightarrow> h \<noteq> 0 \<and> h \<notin> fst ` umems L)"

definition socket_doc :: "('f, 'c, 'r, 't) env \<Rightarrow> bool" where
  "socket_doc env \<longleftrightarrow> (\<forall>tr L ifc q h cfg s r t. ledger tr = Some L \<and> env_socket env tr ifc q h cfg = Inr (s, r, t)
     \<longrightarrow> s \<noteq> 0 \<and> s \<notin> fst ` socks L \<and> h \<in> fst ` umems L)"

definition env_laws :: "('f, 'c, 'r, 't) env \<Rightarrow> bool" where
  "env_laws env \<longleftrightarrow> mmap_doc env \<and> umem_doc env \<and> socket_doc env"

section \<open>A concrete environment\<close>

text \<open>
  Addresses and handles are taken from the length of the trace and refused when the trace
  already mentions them. It serves at most \<open>lim\<close> mappings, umems and sockets in total.
\<close>

fun event_words :: "sys_event \<Rightarrow> u64 list" where
  "event_words (Mmap a n) = [a]"
| "event_words (Umem_create h a) = [h]"
| "event_words (Socket_create s h) = [s]"
| "event_words _ = []"

definition fresh_word :: "nat \<Rightarrow> sys_event list \<Rightarrow> u64 option" where
  "fresh_word lim tr = (let w = 4096 * of_nat (length tr + 1) in
     if lim \<le> length tr \<or> w = 0 \<or> w = MAP_FAILED \<or> w \<in> set (concat (map event_words tr)) then None else Some w)"

definition small_env :: "nat \<Rightarrow> 'f \<Rightarrow> 'c \<Rightarrow> 'r \<Rightarrow> 't \<Rightarrow> ('f, 'c, 'r, 't) env" where
  "small_env lim f c r t = \<lparr>
     env_mmap = (\<lambda>tr n huge. if huge then (MAP_FAILED, 12) else
        case fresh_word lim tr of None \<Rightarrow> (MAP_FAILED, 12) | Some w \<Rightarrow> (w, 0)),
     env_umem = (\<lambda>tr a n cfg. case fresh_word lim tr of None \<Rightarrow> Inl (- 22) | Some w \<Rightarrow> Inr (w, f, c)),
     env_socket = (\<lambda>tr ifc q h cfg. case (ledger tr, fresh_word lim tr) of
        (Some L, Some w) \<Rightarrow> if h \<in> fst ` umems L then Inr (w, r, t) else Inl (- 22)
      | _ \<Rightarrow> Inl (- 22)),
     env_fd = (\<lambda>s. 3),
     env_alloc = (\<lambda>tr n. n \<le> 2 ^ 40)\<rparr>"

section \<open>Lemmas\<close>

lemma res_step_names:
  "res_step e L = Some L' \<Longrightarrow>
   fst ` maps L' \<subseteq> set (event_words e) \<union> fst ` maps L \<and>
   fst ` umems L' \<subseteq> set (event_words e) \<union> fst ` umems L \<and>
   fst ` socks L' \<subseteq> set (event_words e) \<union> fst ` socks L"
  by (cases e) (auto split: if_splits intro: rev_image_eqI)

lemma ledger_names:
  "ledger tr = Some L \<Longrightarrow>
   fst ` maps L \<subseteq> set (concat (map event_words tr)) \<and>
   fst ` umems L \<subseteq> set (concat (map event_words tr)) \<and>
   fst ` socks L \<subseteq> set (concat (map event_words tr))"
proof (induction tr arbitrary: L)
  case (Cons e tr)
  then obtain L0 where L0: "ledger tr = Some L0" "res_step e L0 = Some L"
    by (cases "ledger tr") simp_all
  have "set (concat (map event_words (e # tr))) = set (event_words e) \<union> set (concat (map event_words tr))"
    by simp
  moreover have "A' \<subseteq> E \<union> S" if "A' \<subseteq> E \<union> A" "A \<subseteq> S" for A A' E S :: "u64 set"
    using that by blast
  ultimately show ?case using Cons.IH [OF L0(1)] res_step_names [OF L0(2)] by metis
qed (simp add: no_resources_def)

lemma fresh_word_fresh:
  assumes "fresh_word lim tr = Some w" "ledger tr = Some L"
  shows "w \<noteq> 0" "w \<noteq> MAP_FAILED" "w \<notin> fst ` maps L" "w \<notin> fst ` umems L" "w \<notin> fst ` socks L"
proof -
  have "w \<notin> set (concat (map event_words tr))" "w \<noteq> 0" "w \<noteq> MAP_FAILED"
    using assms(1) unfolding fresh_word_def Let_def by (auto split: if_splits)
  then show "w \<noteq> 0" "w \<noteq> MAP_FAILED" "w \<notin> fst ` maps L" "w \<notin> fst ` umems L" "w \<notin> fst ` socks L"
    using ledger_names [OF assms(2)] by blast+
qed

lemma small_env_mmap: "mmap_doc (small_env lim f c r t)"
  unfolding mmap_doc_def
proof (intro allI impI, elim conjE)
  fix tr L n huge a e
  assume L: "ledger tr = Some L" and "env_mmap (small_env lim f c r t) tr n huge = (a, e)" "a \<noteq> MAP_FAILED"
  then have "fresh_word lim tr = Some a" by (cases huge; cases "fresh_word lim tr") (simp_all add: small_env_def)
  from fresh_word_fresh [OF this L] show "a \<noteq> 0 \<and> a \<notin> fst ` maps L" by simp
qed

lemma small_env_umem: "umem_doc (small_env lim f c r t)"
  unfolding umem_doc_def
proof (intro allI impI, elim conjE)
  fix tr L a n cfg h f' c'
  assume L: "ledger tr = Some L" and "env_umem (small_env lim f c r t) tr a n cfg = Inr (h, f', c')"
  then have "fresh_word lim tr = Some h" by (cases "fresh_word lim tr") (simp_all add: small_env_def)
  from fresh_word_fresh [OF this L] show "h \<noteq> 0 \<and> h \<notin> fst ` umems L" by simp
qed

lemma small_env_socket: "socket_doc (small_env lim f c r t)"
  unfolding socket_doc_def
proof (intro allI impI, elim conjE)
  fix tr L ifc q h cfg s r' t'
  assume L: "ledger tr = Some L" and "env_socket (small_env lim f c r t) tr ifc q h cfg = Inr (s, r', t')"
  then have "fresh_word lim tr = Some s" "h \<in> fst ` umems L"
    by (cases "fresh_word lim tr"; cases "h \<in> fst ` umems L"; simp add: small_env_def)+
  with fresh_word_fresh [OF this(1) L] show "s \<noteq> 0 \<and> s \<notin> fst ` socks L \<and> h \<in> fst ` umems L" by simp
qed

lemma small_env_laws: "env_laws (small_env lim f c r t)"
  by (simp add: env_laws_def small_env_mmap small_env_umem small_env_socket)

end
