(* ===== verification/Xsk_Api.thy ===== *)
theory Xsk_Api
  imports Feed_Prelude
begin

text \<open>
  The ring functions of libxdp that the code calls (\<open>xdp/xsk.h\<close>, not part of this repository).
  They are parameters: records of functions over an unknown ring type, passed to every operation
  that uses them. \<open>prod_laws\<close> and \<open>cons_laws\<close> state what libxdp documents about them, in terms of
  an observation of the ring (a record of selector functions, also a parameter): they are the
  named hypotheses of the properties that depend on libxdp.

  At the end, a list-backed ring shows that the laws can be satisfied; the witnesses use it.
\<close>

section \<open>Producer rings (fill and TX)\<close>

text \<open>
  \<open>reserve r n idx\<close> returns the number of slots reserved, the new value of the caller's index
  variable, and the ring; \<open>put\<close> writes through the slot pointer that
  \<open>xsk_ring_prod__fill_addr\<close> / \<open>xsk_ring_prod__tx_desc\<close> return.
\<close>

record ('p, 'd) prod_api =
  reserve :: "'p \<Rightarrow> u32 \<Rightarrow> u32 \<Rightarrow> u32 \<times> u32 \<times> 'p"
  put :: "'p \<Rightarrow> u32 \<Rightarrow> 'd \<Rightarrow> 'p"
  submit :: "'p \<Rightarrow> u32 \<Rightarrow> 'p"
  needs_wakeup :: "'p \<Rightarrow> bool"

text \<open>
  What can be observed of a producer ring: the entries handed to the kernel and not yet taken,
  the reserved but unsubmitted slots with the index of the first of them, and the free space.
\<close>

record ('p, 'd) prod_view =
  queued :: "'p \<Rightarrow> 'd list"
  staged :: "'p \<Rightarrow> 'd list"
  first_idx :: "'p \<Rightarrow> u32"
  space :: "'p \<Rightarrow> nat"

text \<open>
  \<^item> \<open>xsk_ring_prod__reserve\<close> reserves all \<open>n\<close> slots, or none when fewer are free; then it returns
    0 and leaves the index variable alone.
  \<^item> Writing a reserved slot changes that slot only.
  \<^item> \<open>xsk_ring_prod__submit\<close> of all reserved slots hands them to the kernel in slot order.
\<close>

definition reserve_doc :: "('p, 'd) prod_api \<Rightarrow> ('p, 'd) prod_view \<Rightarrow> bool" where
  "reserve_doc api v \<longleftrightarrow>
     (\<forall>r n i. staged v r = [] \<longrightarrow>
        (if unat n \<le> space v r
         then case reserve api r n i of (k, idx, r1) \<Rightarrow>
           k = n \<and> idx = first_idx v r1 \<and> length (staged v r1) = unat n \<and> queued v r1 = queued v r \<and>
           space v r1 = space v r - unat n
         else reserve api r n i = (0, i, r)))"

definition put_doc :: "('p, 'd) prod_api \<Rightarrow> ('p, 'd) prod_view \<Rightarrow> bool" where
  "put_doc api v \<longleftrightarrow>
     (\<forall>r j d. j < length (staged v r) \<longrightarrow>
        queued v (put api r (first_idx v r + of_nat j) d) = queued v r \<and>
        staged v (put api r (first_idx v r + of_nat j) d) = (staged v r)[j := d] \<and>
        first_idx v (put api r (first_idx v r + of_nat j) d) = first_idx v r \<and>
        space v (put api r (first_idx v r + of_nat j) d) = space v r)"

definition submit_doc :: "('p, 'd) prod_api \<Rightarrow> ('p, 'd) prod_view \<Rightarrow> bool" where
  "submit_doc api v \<longleftrightarrow>
     (\<forall>r k. unat k = length (staged v r) \<longrightarrow>
        queued v (submit api r k) = queued v r @ staged v r \<and> staged v (submit api r k) = [] \<and>
        space v (submit api r k) = space v r)"

definition prod_laws :: "('p, 'd) prod_api \<Rightarrow> ('p, 'd) prod_view \<Rightarrow> bool" where
  "prod_laws api v \<longleftrightarrow> reserve_doc api v \<and> put_doc api v \<and> submit_doc api v"

section \<open>Consumer rings (RX and completion)\<close>

record ('c, 'd) cons_api =
  cpeek :: "'c \<Rightarrow> u32 \<Rightarrow> u32 \<Rightarrow> u32 \<times> u32 \<times> 'c"
  entry :: "'c \<Rightarrow> u32 \<Rightarrow> 'd"
  release :: "'c \<Rightarrow> u32 \<Rightarrow> 'c"

text \<open>
  What can be observed of a consumer ring: the entries the kernel has published and user space
  has not released, how many of them have been peeked, and the index of the first.
\<close>

record ('c, 'd) cons_view =
  avail :: "'c \<Rightarrow> 'd list"
  peeked :: "'c \<Rightarrow> nat"
  base_idx :: "'c \<Rightarrow> u32"

text \<open>
  \<^item> \<open>xsk_ring_cons__peek\<close> returns at most \<open>n\<close> published entries, and at least one if any is
    published and \<open>n\<close> is not 0.
  \<^item> A peeked entry is read at its index.
  \<^item> \<open>xsk_ring_cons__release\<close> of the peeked entries removes them from the front.
\<close>

definition peek_doc :: "('c, 'd) cons_api \<Rightarrow> ('c, 'd) cons_view \<Rightarrow> bool" where
  "peek_doc api v \<longleftrightarrow>
     (\<forall>r n i k idx r1. peeked v r = 0 \<and> cpeek api r n i = (k, idx, r1) \<longrightarrow>
        unat k \<le> unat n \<and> unat k \<le> length (avail v r) \<and>
        (avail v r \<noteq> [] \<and> n \<noteq> 0 \<longrightarrow> k \<noteq> 0) \<and>
        avail v r1 = avail v r \<and> peeked v r1 = unat k \<and> (k \<noteq> 0 \<longrightarrow> idx = base_idx v r1))"

definition entry_doc :: "('c, 'd) cons_api \<Rightarrow> ('c, 'd) cons_view \<Rightarrow> bool" where
  "entry_doc api v \<longleftrightarrow>
     (\<forall>r j. j < peeked v r \<longrightarrow> entry api r (base_idx v r + of_nat j) = avail v r ! j)"

definition release_doc :: "('c, 'd) cons_api \<Rightarrow> ('c, 'd) cons_view \<Rightarrow> bool" where
  "release_doc api v \<longleftrightarrow>
     (\<forall>r k. unat k = peeked v r \<longrightarrow>
        avail v (release api r k) = drop (unat k) (avail v r) \<and> peeked v (release api r k) = 0)"

definition cons_laws :: "('c, 'd) cons_api \<Rightarrow> ('c, 'd) cons_view \<Rightarrow> bool" where
  "cons_laws api v \<longleftrightarrow> peek_doc api v \<and> entry_doc api v \<and> release_doc api v"

section \<open>The loops over reserved and peeked slots\<close>

text \<open>
  The code fills reserved slots in a counting loop, \<open>for (i = 0; i < reserved; ++i) slot(idx + i) = f(i)\<close>,
  and reads peeked ones likewise. \<open>put_loop\<close> starts at \<open>i\<close> and runs \<open>k\<close> iterations; the index
  arithmetic is on 32-bit words as in the code.
\<close>

fun put_loop :: "('p, 'd) prod_api \<Rightarrow> u32 \<Rightarrow> (nat \<Rightarrow> 'd) \<Rightarrow> nat \<Rightarrow> nat \<Rightarrow> 'p \<Rightarrow> 'p" where
  "put_loop api idx f i 0 r = r"
| "put_loop api idx f i (Suc k) r = put_loop api idx f (Suc i) k (put api r (idx + of_nat i) (f i))"

definition get_loop :: "('c, 'd) cons_api \<Rightarrow> u32 \<Rightarrow> nat \<Rightarrow> 'c \<Rightarrow> 'd list" where
  "get_loop api idx k r = map (\<lambda>i. entry api r (idx + of_nat i)) [0..<k]"

section \<open>A list-backed ring\<close>

record 'd lring =
  lr_queued :: "'d list"
  lr_staged :: "'d list"
  lr_next :: u32
  lr_space :: nat

definition lring_prod :: "'d \<Rightarrow> ('d lring, 'd) prod_api" where
  "lring_prod blank =
     \<lparr>reserve = (\<lambda>r n i. if unat n \<le> lr_space r
        then (n, lr_next r, r\<lparr>lr_staged := replicate (unat n) blank, lr_space := lr_space r - unat n\<rparr>)
        else (0, i, r)),
      put = (\<lambda>r i d. r\<lparr>lr_staged := (lr_staged r)[unat (i - lr_next r) := d]\<rparr>),
      submit = (\<lambda>r k. r\<lparr>lr_queued := lr_queued r @ take (unat k) (lr_staged r),
        lr_staged := [], lr_next := lr_next r + k\<rparr>),
      needs_wakeup = (\<lambda>r. lr_queued r \<noteq> [])\<rparr>"

definition lring_prod_view :: "('d lring, 'd) prod_view" where
  "lring_prod_view = \<lparr>queued = lr_queued, staged = \<lambda>r. take (2 ^ 32) (lr_staged r), first_idx = lr_next, space = lr_space\<rparr>"

record 'd lcons =
  lc_avail :: "'d list"
  lc_peeked :: nat
  lc_base :: u32

definition lring_cons :: "('d lcons, 'd) cons_api" where
  "lring_cons =
     \<lparr>cpeek = (\<lambda>r n i. let k = min (unat n) (length (lc_avail r))
        in (of_nat k, if k = 0 then i else lc_base r, r\<lparr>lc_peeked := k\<rparr>)),
      entry = (\<lambda>r i. lc_avail r ! unat (i - lc_base r)),
      release = (\<lambda>r k. r\<lparr>lc_avail := drop (unat k) (lc_avail r), lc_peeked := 0, lc_base := lc_base r + k\<rparr>)\<rparr>"

definition lring_cons_view :: "('d lcons, 'd) cons_view" where
  "lring_cons_view = \<lparr>avail = lc_avail, peeked = \<lambda>r. min (2 ^ 32 - 1) (lc_peeked r), base_idx = lc_base\<rparr>"

section \<open>Consequences of the laws\<close>

lemma reserve_all:
  assumes "prod_laws api v" "staged v r = []" "unat n \<le> space v r"
  obtains r1 where "reserve api r n i = (n, first_idx v r1, r1)" "length (staged v r1) = unat n"
    "queued v r1 = queued v r" "space v r1 = space v r - unat n"
proof -
  obtain k idx r1 where r: "reserve api r n i = (k, idx, r1)" by (cases "reserve api r n i")
  have "if unat n \<le> space v r
      then case reserve api r n i of (k, idx, r1) \<Rightarrow>
        k = n \<and> idx = first_idx v r1 \<and> length (staged v r1) = unat n \<and> queued v r1 = queued v r \<and>
        space v r1 = space v r - unat n
      else reserve api r n i = (0, i, r)"
    using assms(1,2) unfolding prod_laws_def reserve_doc_def by blast
  then show thesis using assms(3) r by (intro that [of r1]) simp_all
qed

lemma reserve_none:
  assumes "prod_laws api v" "staged v r = []" "space v r < unat n"
  shows "reserve api r n i = (0, i, r)"
  using assms unfolding prod_laws_def reserve_doc_def by (metis not_le)

lemma put_law:
  assumes "prod_laws api v" "j < length (staged v r)"
  shows "queued v (put api r (first_idx v r + of_nat j) d) = queued v r"
    "staged v (put api r (first_idx v r + of_nat j) d) = (staged v r)[j := d]"
    "first_idx v (put api r (first_idx v r + of_nat j) d) = first_idx v r"
    "space v (put api r (first_idx v r + of_nat j) d) = space v r"
  using assms unfolding prod_laws_def put_doc_def by blast+

lemma submit_law:
  assumes "prod_laws api v" "unat k = length (staged v r)"
  shows "queued v (submit api r k) = queued v r @ staged v r" "staged v (submit api r k) = []"
    "space v (submit api r k) = space v r"
  using assms unfolding prod_laws_def submit_doc_def by blast+

lemma put_loop_staged:
  assumes "prod_laws api v" and "idx = first_idx v r" and "i + k = length (staged v r)"
  shows "queued v (put_loop api idx f i k r) = queued v r \<and>
    staged v (put_loop api idx f i k r) = take i (staged v r) @ map f [i..<i + k] \<and>
    space v (put_loop api idx f i k r) = space v r"
  using assms(2,3)
proof (induction k arbitrary: i r)
  case (Suc k)
  let ?r1 = "put api r (idx + of_nat i) (f i)"
  have i: "i < length (staged v r)" using Suc.prems by simp
  note p = put_law [OF assms(1) i, of "f i", folded Suc.prems(1)]
  have "take (Suc i) ((staged v r)[i := f i]) = take i (staged v r) @ [f i]"
    using i by (simp add: take_Suc_conv_app_nth)
  then show ?case using Suc.IH [of ?r1 "Suc i"] Suc.prems p by (simp add: upt_conv_Cons)
qed simp

text \<open>Reserve, fill and submit: either all entries are appended, or the ring is unchanged.\<close>

lemma produce_all:
  assumes laws: "prod_laws api v" and st: "staged v r = []" and sp: "unat n \<le> space v r"
  shows "case reserve api r n i of (k, idx, r1) \<Rightarrow>
    k = n \<and> queued v (submit api (put_loop api idx f 0 (unat k) r1) k) = queued v r @ map f [0..<unat n] \<and>
    staged v (submit api (put_loop api idx f 0 (unat k) r1) k) = [] \<and>
    space v (submit api (put_loop api idx f 0 (unat k) r1) k) = space v r - unat n"
proof -
  obtain r1 where r1: "reserve api r n i = (n, first_idx v r1, r1)" "length (staged v r1) = unat n"
    "queued v r1 = queued v r" "space v r1 = space v r - unat n"
    using reserve_all [OF laws st sp] by blast
  have "0 + unat n = length (staged v r1)" using r1(2) by simp
  note lp = put_loop_staged [OF laws refl this, of f]
  then have "unat n = length (staged v (put_loop api (first_idx v r1) f 0 (unat n) r1))" by simp
  note sb = submit_law [OF laws this]
  show ?thesis using r1 lp sb by simp
qed

lemma peek_law:
  assumes "cons_laws api v" "peeked v r = 0" "cpeek api r n i = (k, idx, r1)"
  shows "unat k \<le> unat n" "unat k \<le> length (avail v r)"
    "avail v r \<noteq> [] \<Longrightarrow> n \<noteq> 0 \<Longrightarrow> k \<noteq> 0" "avail v r1 = avail v r" "peeked v r1 = unat k"
    "k \<noteq> 0 \<Longrightarrow> idx = base_idx v r1"
  using assms unfolding cons_laws_def peek_doc_def by blast+

lemma entry_law: "cons_laws api v \<Longrightarrow> j < peeked v r \<Longrightarrow> entry api r (base_idx v r + of_nat j) = avail v r ! j"
  unfolding cons_laws_def entry_doc_def by blast

lemma release_law:
  "cons_laws api v \<Longrightarrow> unat k = peeked v r \<Longrightarrow>
   avail v (release api r k) = drop (unat k) (avail v r) \<and> peeked v (release api r k) = 0"
  unfolding cons_laws_def release_doc_def by blast

text \<open>Peek, read and release: the front entries are read in order and removed.\<close>

lemma consume_front:
  assumes laws: "cons_laws api v" and pk: "peeked v r = 0" and c: "cpeek api r n i = (k, idx, r1)"
  shows "get_loop api idx (unat k) r1 = take (unat k) (avail v r)"
    "avail v (if k > 0 then release api r1 k else r1) = drop (unat k) (avail v r)"
    "peeked v (if k > 0 then release api r1 k else r1) = 0"
proof -
  note p = peek_law [OF laws pk c]
  show "get_loop api idx (unat k) r1 = take (unat k) (avail v r)"
  proof (rule nth_equalityI)
    fix j assume "j < length (get_loop api idx (unat k) r1)"
    then have j: "j < unat k" by (simp add: get_loop_def)
    then have "k \<noteq> 0" by auto
    with p j entry_law [OF laws, of j r1] show "get_loop api idx (unat k) r1 ! j = take (unat k) (avail v r) ! j"
      by (simp add: get_loop_def)
  qed (use p in \<open>simp add: get_loop_def\<close>)
  show "avail v (if k > 0 then release api r1 k else r1) = drop (unat k) (avail v r)"
    "peeked v (if k > 0 then release api r1 k else r1) = 0"
    using release_law [OF laws, of k r1] p(4,5) by (cases "k = 0"; simp add: word_neq_0_conv)+
qed

section \<open>The list-backed ring satisfies the laws\<close>

lemma unat_of_nat_u32: "k < 2 ^ 32 \<Longrightarrow> unat (of_nat k :: u32) = k"
  by (simp add: unat_of_nat take_bit_nat_eq_self)

lemma unat_u32_less: "unat (n :: u32) < 2 ^ 32"
  using unsigned_less [of n] by simp

lemma lring_prod_laws: "prod_laws (lring_prod blank) lring_prod_view"
proof -
  have "reserve_doc (lring_prod blank) lring_prod_view"
    using less_imp_le [OF unat_u32_less] unfolding reserve_doc_def lring_prod_def lring_prod_view_def by (simp add: min_def)
  moreover have "put_doc (lring_prod blank) lring_prod_view"
    unfolding put_doc_def lring_prod_def lring_prod_view_def
    by (simp add: unat_of_nat_u32 take_update_swap)
  moreover have "submit_doc (lring_prod blank) lring_prod_view"
    unfolding submit_doc_def
  proof (intro allI impI)
    fix r :: "'a lring" and k :: u32
    assume "unat k = length (staged lring_prod_view r)"
    then have "unat k = length (lr_staged r)"
      using unat_u32_less [of k] by (simp add: lring_prod_view_def min_def split: if_splits)
    then show "queued lring_prod_view (submit (lring_prod blank) r k)
          = queued lring_prod_view r @ staged lring_prod_view r \<and>
        staged lring_prod_view (submit (lring_prod blank) r k) = [] \<and>
        space lring_prod_view (submit (lring_prod blank) r k) = space lring_prod_view r"
      using unat_u32_less [of k] by (simp add: lring_prod_def lring_prod_view_def)
  qed
  ultimately show ?thesis by (simp add: prod_laws_def)
qed

lemma lring_cons_laws: "cons_laws lring_cons lring_cons_view"
proof -
  have k: "min (unat n) l < 2 ^ 32" for n :: u32 and l using unat_u32_less [of n] by simp
  have k0: "(of_nat (min (unat n) l) :: u32) = 0 \<longleftrightarrow> n = 0 \<or> l = 0" for n :: u32 and l
    using unat_of_nat_u32 [OF k [of n l]] by (metis min_def le_zero_eq min_0L min_0R of_nat_0 unat_0 unat_eq_0)
  have k1: "min 4294967295 (min (unat n) l) = min (unat n) l" for n :: u32 and l
    using k [of n l] by simp
  have k2: "unat (of_nat (min (unat n) l) :: u32) = min (unat n) l" for n :: u32 and l
    by (rule unat_of_nat_u32 [OF k])
  have k3: "min (unat n) l = 0 \<longleftrightarrow> n = 0 \<or> l = 0" for n :: u32 and l
    by (auto simp: min_def unat_eq_0 split: if_splits)
  have "peek_doc lring_cons lring_cons_view"
    unfolding peek_doc_def lring_cons_def lring_cons_view_def
    by (auto simp: Let_def k0 k1 k2 k3)
  moreover have "entry_doc lring_cons lring_cons_view"
    unfolding entry_doc_def lring_cons_def lring_cons_view_def by (simp add: unat_of_nat_u32)
  moreover have "release_doc lring_cons lring_cons_view"
    unfolding release_doc_def lring_cons_def lring_cons_view_def by simp
  ultimately show ?thesis by (simp add: cons_laws_def)
qed

end
