(* ===== verification/Umem.thy ===== *)
theory Umem
  imports Os_Trace Xsk_Api "HOL-Library.Multiset"
begin

text \<open>
  \<open>Umem\<close> (\<open>include/ultrafast/umem.hpp\<close>, \<open>src/umem.cpp\<close>): the region arithmetic, the constructor
  and its failure paths, the destructor and the moves as calls on the traced environment, the
  priming of the fill ring and the LIFO frame allocator. Exceptions are the left summand of the
  result. Pointers to a C structure are represented by the structure itself where the code
  only passes them on, and null pointers by 0.
\<close>

section \<open>Data\<close>

record UmemConfig =
  frame_size :: u64
  frame_count :: u64
  fill_size :: u64
  completion_size :: u64
  use_huge_pages :: bool

definition UmemConfig_default :: UmemConfig where
  "UmemConfig_default = \<lparr>frame_size = 4096, frame_count = 4096, fill_size = 2048,
     completion_size = 2048, use_huge_pages = True\<rparr>"

record ('f, 'c) Umem =
  um_cfg :: UmemConfig
  region :: ptr
  region_size :: u64
  huge_pages :: bool
  umem :: u64
  fill_ring :: 'f
  comp_ring :: 'c
  free_frames :: "u64 list"

text \<open>
  The exceptions the constructor throws. \<open>Mmap_failed\<close> carries the byte count and \<open>errno\<close> that the
  message prints, \<open>Umem_create_failed\<close> the return code; the last two come from
  \<open>free_frames_.reserve\<close>.
\<close>

datatype umem_error =
    Mmap_failed u64 int
  | Umem_create_failed int
  | Length_error
  | Bad_alloc

section \<open>Region arithmetic\<close>

definition align_up :: "u64 \<Rightarrow> u64 \<Rightarrow> u64" where
  "align_up sz align_to = (sz + align_to - 1) AND NOT (align_to - 1)"

definition kHugePage :: u64 where
  "kHugePage = push_bit 20 2"

definition frame_offset :: "('f, 'c) Umem \<Rightarrow> u64 \<Rightarrow> u64" where
  "frame_offset u idx = idx * frame_size (um_cfg u)"

definition frame_ptr :: "('f, 'c) Umem \<Rightarrow> u64 \<Rightarrow> ptr" where
  "frame_ptr u idx = region u + frame_offset u idx"

definition umem_valid :: "('f, 'c) Umem \<Rightarrow> bool" where
  "umem_valid u \<longleftrightarrow> umem u \<noteq> 0"

definition region_span :: "('f, 'c) Umem \<Rightarrow> ptr \<times> u64" where
  "region_span u = (region u, region_size u)"

section \<open>Construction\<close>

text \<open>The object before the constructor body runs: the default member initialisers. The rings
  are value-initialised (\<open>xsk_ring_prod\<close>, \<open>xsk_ring_cons\<close> of libxdp: parameters).\<close>

definition Umem_members :: "'f \<Rightarrow> 'c \<Rightarrow> UmemConfig \<Rightarrow> ('f, 'c) Umem" where
  "Umem_members f0 c0 cfg = \<lparr>um_cfg = cfg, region = 0, region_size = 0, huge_pages = False, umem = 0,
     fill_ring = f0, comp_ring = c0, free_frames = []\<rparr>"

definition allocate_region ::
  "('f, 'c, 'r, 't) env \<Rightarrow> ('f, 'c) Umem \<Rightarrow> sys_event list \<Rightarrow> (umem_error + ('f, 'c) Umem) \<times> sys_event list" where
  "allocate_region env u tr =
     (let raw_size = frame_size (um_cfg u) * frame_count (um_cfg u);
          aligned_size = align_up raw_size kHugePage;
          (a, e) = env_mmap env tr aligned_size True
      in if use_huge_pages (um_cfg u) \<and> a \<noteq> MAP_FAILED
         then (Inr (u\<lparr>region := a, region_size := aligned_size, huge_pages := True\<rparr>), Mmap a aligned_size # tr)
         else
           let sz = align_up raw_size 4096;
               (a', e') = env_mmap env tr sz False;
               u' = u\<lparr>region_size := sz, region := a'\<rparr>
           in if a' = MAP_FAILED
              then let u' = u'\<lparr>region := 0, region_size := 0\<rparr> in (Inl (Mmap_failed (region_size u') e'), tr)
              else (Inr (u'\<lparr>huge_pages := False\<rparr>), Mmap a' sz # tr))"

definition deallocate_region :: "('f, 'c) Umem \<Rightarrow> sys_event list \<Rightarrow> ('f, 'c) Umem \<times> sys_event list" where
  "deallocate_region u tr =
     (if region u \<noteq> 0
      then (u\<lparr>region := 0, region_size := 0\<rparr>, Munmap (region u) (region_size u) # tr)
      else (u, tr))"

definition create_umem ::
  "('f, 'c, 'r, 't) env \<Rightarrow> ('f, 'c) Umem \<Rightarrow> sys_event list \<Rightarrow> (umem_error + ('f, 'c) Umem) \<times> sys_event list" where
  "create_umem env u tr =
     (let xsk_cfg = \<lparr>xu_fill_size = ucast (fill_size (um_cfg u)), xu_comp_size = ucast (completion_size (um_cfg u)),
            xu_frame_size = ucast (frame_size (um_cfg u)), xu_frame_headroom = 0, xu_flags = 0\<rparr>
      in case env_umem env tr (region u) (region_size u) xsk_cfg of
           Inl ret \<Rightarrow> let (u', tr') = deallocate_region u tr in (Inl (Umem_create_failed ret), tr')
         | Inr (h, f, c) \<Rightarrow> (Inr (u\<lparr>umem := h, fill_ring := f, comp_ring := c\<rparr>), Umem_create h (region u) # tr))"

text \<open>
  \<open>free_frames_.reserve(n)\<close>: \<open>length_error\<close> beyond \<open>max_size()\<close> (\<open>PTRDIFF_MAX / 8\<close> elements),
  \<open>bad_alloc\<close> when the heap cannot serve it. Neither is caught, and the destructor of an object
  whose constructor throws does not run.
\<close>

definition reserve_frames :: "('f, 'c, 'r, 't) env \<Rightarrow> sys_event list \<Rightarrow> u64 \<Rightarrow> umem_error option" where
  "reserve_frames env tr n =
     (if unat n > 2 ^ 60 - 1 then Some Length_error
      else if env_alloc env tr (8 * unat n) then None else Some Bad_alloc)"

fun fill_free_list :: "('f, 'c) Umem \<Rightarrow> nat \<Rightarrow> nat \<Rightarrow> ('f, 'c) Umem" where
  "fill_free_list u i 0 = u"
| "fill_free_list u i (Suc k) =
     fill_free_list (u\<lparr>free_frames := free_frames u @ [frame_offset u (of_nat i)]\<rparr>) (Suc i) k"

definition Umem_new ::
  "('f, 'c, 'r, 't) env \<Rightarrow> 'f \<Rightarrow> 'c \<Rightarrow> UmemConfig \<Rightarrow> sys_event list \<Rightarrow> (umem_error + ('f, 'c) Umem) \<times> sys_event list" where
  "Umem_new env f0 c0 cfg tr =
     (case allocate_region env (Umem_members f0 c0 cfg) tr of
        (Inl err, tr1) \<Rightarrow> (Inl err, tr1)
      | (Inr u1, tr1) \<Rightarrow>
          (case create_umem env u1 tr1 of
             (Inl err, tr2) \<Rightarrow> (Inl err, tr2)
           | (Inr u2, tr2) \<Rightarrow>
               (case reserve_frames env tr2 (frame_count cfg) of
                  Some err \<Rightarrow> (Inl err, tr2)
                | None \<Rightarrow> (Inr (fill_free_list u2 0 (unat (frame_count cfg))), tr2))))"

section \<open>Destruction and moves\<close>

definition Umem_destroy :: "('f, 'c) Umem \<Rightarrow> sys_event list \<Rightarrow> ('f, 'c) Umem \<times> sys_event list" where
  "Umem_destroy u tr =
     (if umem u \<noteq> 0 then deallocate_region (u\<lparr>umem := 0\<rparr>) (Umem_delete (umem u) # tr)
      else deallocate_region u tr)"

text \<open>Both moves leave \<open>other\<close> with null pointers; the moved-from vector is empty. The second
  component of the results is the moved-from object.\<close>

definition moved_from :: "('f, 'c) Umem \<Rightarrow> ('f, 'c) Umem" where
  "moved_from other = other\<lparr>region := 0, region_size := 0, umem := 0, free_frames := []\<rparr>"

definition Umem_move_new :: "('f, 'c) Umem \<Rightarrow> ('f, 'c) Umem \<times> ('f, 'c) Umem" where
  "Umem_move_new other =
     (\<lparr>um_cfg = um_cfg other, region = region other, region_size = region_size other,
       huge_pages = huge_pages other, umem = umem other, fill_ring = fill_ring other,
       comp_ring = comp_ring other, free_frames = free_frames other\<rparr>,
      moved_from other)"

text \<open>The assignment is on a store of objects, since it tests \<open>this != &other\<close>.\<close>

definition Umem_move_assign ::
  "nat \<Rightarrow> nat \<Rightarrow> (nat \<rightharpoonup> ('f, 'c) Umem) \<Rightarrow> sys_event list \<Rightarrow> (nat \<rightharpoonup> ('f, 'c) Umem) \<times> sys_event list" where
  "Umem_move_assign this other objs tr =
     (case (objs this, objs other) of
        (Some u, Some v) \<Rightarrow>
          if this \<noteq> other then
            let tr1 = (if umem u \<noteq> 0 then Umem_delete (umem u) # tr else tr);
                (u1, tr2) = deallocate_region u tr1;
                u2 = u1\<lparr>um_cfg := um_cfg v, region := region v, region_size := region_size v,
                       huge_pages := huge_pages v, umem := umem v, fill_ring := fill_ring v,
                       comp_ring := comp_ring v, free_frames := free_frames v\<rparr>
            in (objs(this \<mapsto> u2, other \<mapsto> moved_from v), tr2)
          else (objs, tr)
      | _ \<Rightarrow> (objs, tr))"

section \<open>Fill ring and frame allocator\<close>

definition populate_fill_ring :: "('f, u64) prod_api \<Rightarrow> ('f, 'c) Umem \<Rightarrow> ('f, 'c) Umem" where
  "populate_fill_ring api u =
     (let n = ucast (min (fill_size (um_cfg u)) (frame_count (um_cfg u))) :: u32;
          (reserved, idx, r1) = reserve api (fill_ring u) n 0;
          r2 = put_loop api idx (\<lambda>i. ucast (of_nat i :: u32) * frame_size (um_cfg u)) 0 (unat reserved) r1
      in u\<lparr>fill_ring := submit api r2 reserved\<rparr>)"

definition alloc_frame :: "('f, 'c) Umem \<Rightarrow> u64 \<times> ('f, 'c) Umem" where
  "alloc_frame u =
     (if free_frames u = [] then (- 1, u)
      else (last (free_frames u), u\<lparr>free_frames := butlast (free_frames u)\<rparr>))"

definition free_frame :: "('f, 'c) Umem \<Rightarrow> u64 \<Rightarrow> ('f, 'c) Umem" where
  "free_frame u offset = u\<lparr>free_frames := free_frames u @ [offset]\<rparr>"

section \<open>Specification\<close>

text \<open>
  \<open>frames\<close> lists the frame offsets of a configuration. \<open>cfg_ok\<close> asks for a non-empty frame and that the
  region, rounded up to a huge page, fits in 64 bits. \<open>primed\<close> is how many frames
  \<open>populate_fill_ring\<close> gives to the kernel. \<open>frame_run\<close> is a client of the allocator with the frames it
  holds: it frees held frames only (None otherwise) and tells exhaustion by the sentinel.
\<close>

definition frames :: "UmemConfig \<Rightarrow> u64 list" where
  "frames cfg = map (\<lambda>i. of_nat i * frame_size cfg) [0..<unat (frame_count cfg)]"

definition cfg_ok :: "UmemConfig \<Rightarrow> bool" where
  "cfg_ok cfg \<longleftrightarrow> 0 < frame_size cfg \<and> unat (frame_size cfg) * unat (frame_count cfg) + 2 ^ 21 \<le> 2 ^ 64"

definition page_size :: "('f, 'c) Umem \<Rightarrow> nat" where
  "page_size u = (if huge_pages u then 2 ^ 21 else 2 ^ 12)"

datatype frame_op = Alloc | Free u64

fun frame_run :: "frame_op list \<Rightarrow> ('f, 'c) Umem \<times> u64 list \<Rightarrow> (('f, 'c) Umem \<times> u64 list) option" where
  "frame_run [] s = Some s"
| "frame_run (Alloc # ops) (u, held) =
     (let (f, u') = alloc_frame u in frame_run ops (u', if f = - 1 then held else f # held))"
| "frame_run (Free f # ops) (u, held) =
     (if f \<in> set held then frame_run ops (free_frame u f, remove1 f held) else None)"

definition tiny_cfg :: UmemConfig where
  "tiny_cfg = \<lparr>frame_size = 2048, frame_count = 4, fill_size = 2, completion_size = 2, use_huge_pages = True\<rparr>"

definition tiny_umem :: "'f \<Rightarrow> 'c \<Rightarrow> ('f, 'c) Umem" where
  "tiny_umem f c = \<lparr>um_cfg = tiny_cfg, region = 4096, region_size = 8192, huge_pages = False, umem = 8192,
     fill_ring = f, comp_ring = c, free_frames = [0, 2048, 4096, 6144]\<rparr>"

definition primed :: "UmemConfig \<Rightarrow> nat" where
  "primed cfg = min (unat (fill_size cfg)) (unat (frame_count cfg))"

section \<open>Lemmas and properties\<close>

lemma unat_and_not_mask: "unat (a AND NOT (mask n) :: u64) = unat a - unat a mod 2 ^ n"
proof -
  have "a = (a AND mask n) + (a AND NOT (mask n))"
    by (simp add: disjunctive_add_eq_or bit_eq_iff bit_simps) blast
  then have "a AND NOT (mask n) = a - take_bit n a"
    by (simp add: take_bit_eq_mask algebra_simps)
  moreover have "unat (take_bit n a) = unat a mod 2 ^ n"
    using unsigned_take_bit_eq [of n a, where 'a = nat] by (simp only: take_bit_eq_mod)
  moreover have "take_bit n a \<le> a" using calculation(2) by (simp add: word_le_nat_alt)
  ultimately show ?thesis by (simp add: unat_sub)
qed

lemma align_up_unat:
  assumes "align_to = mask k + 1" "k < 64" "unat x + 2 ^ k \<le> 2 ^ 64"
  shows "unat (align_up x align_to) = (unat x + 2 ^ k - 1) div 2 ^ k * 2 ^ k"
proof -
  have m: "unat (mask k :: u64) = 2 ^ k - 1" 
  proof -
    have "uint (mask k :: u64) = mask k" using assms(2) by (simp add: uint_mask_eq)
    then show ?thesis by (simp add: unat_eq_nat_uint mask_eq_exp_minus_1 nat_diff_distrib nat_power_eq)
  qed
  have "unat (x + mask k) = unat x + 2 ^ k - 1" using assms(3) m by (simp add: unat_add_lt)
  then show ?thesis using assms(1)
    by (simp add: align_up_def unat_and_not_mask minus_mod_eq_div_mult algebra_simps)
qed

lemma align_up_bounds:
  assumes "align_to = mask k + 1" "k < 64" "unat x + 2 ^ k \<le> 2 ^ 64"
  shows "unat x \<le> unat (align_up x align_to)" "unat (align_up x align_to) < unat x + 2 ^ k"
    "2 ^ k dvd unat (align_up x align_to)"
proof -
  let ?s = "unat x + 2 ^ k - 1"
  have "?s = ?s div 2 ^ k * 2 ^ k + ?s mod 2 ^ k" "?s mod 2 ^ k < 2 ^ k"
    by (rule div_mult_mod_eq [symmetric], simp)
  then show "unat x \<le> unat (align_up x align_to)" "unat (align_up x align_to) < unat x + 2 ^ k"
    unfolding align_up_unat [OF assms] by linarith+
  show "2 ^ k dvd unat (align_up x align_to)" unfolding align_up_unat [OF assms] by simp
qed

lemma page_masks: "(4096 :: u64) = mask 12 + 1" "kHugePage = mask 21 + 1"
  by (simp_all add: mask_eq_exp_minus_1 kHugePage_def push_bit_eq_mult)

lemma raw_size_unat:
  "cfg_ok cfg \<Longrightarrow> unat (frame_size cfg * frame_count cfg) = unat (frame_size cfg) * unat (frame_count cfg)"
  by (rule unat_mult_lt) (simp add: cfg_ok_def)

lemma frame_offset_unat:
  assumes "cfg_ok (um_cfg u)" "i < unat (frame_count (um_cfg u))"
  shows "unat (frame_offset u (of_nat i)) = i * unat (frame_size (um_cfg u))"
    "i * unat (frame_size (um_cfg u)) + unat (frame_size (um_cfg u))
      \<le> unat (frame_size (um_cfg u)) * unat (frame_count (um_cfg u))"
proof -
  let ?s = "unat (frame_size (um_cfg u))" and ?c = "unat (frame_count (um_cfg u))"
  have "Suc i * ?s \<le> ?c * ?s" using assms(2) by (intro mult_right_mono) simp_all
  then show le: "i * ?s + ?s \<le> ?s * ?c" by (simp add: algebra_simps)
  have i: "unat (of_nat i :: u64) = i" using assms(2) unsigned_less [of "frame_count (um_cfg u)", where 'a = nat]
    by (simp add: unat_of_nat take_bit_nat_eq_self)
  have "i * ?s < 2 ^ 64" using le assms(1) by (simp add: cfg_ok_def)
  then have "unat (of_nat i * frame_size (um_cfg u)) = i * ?s" using i by (subst unat_mult_lt) simp_all
  then show "unat (frame_offset u (of_nat i)) = i * ?s" by (simp add: frame_offset_def)
qed

lemma frames_nth:
  assumes "cfg_ok cfg" "i < length (frames cfg)"
  shows "unat (frames cfg ! i) = i * unat (frame_size cfg)"
    "i * unat (frame_size cfg) + unat (frame_size cfg) \<le> unat (frame_size cfg) * unat (frame_count cfg)"
  using frame_offset_unat [of "Umem_members () () cfg" i] assms
  by (simp_all add: frames_def frame_offset_def Umem_members_def)

lemma frames_distinct: "cfg_ok cfg \<Longrightarrow> distinct (frames cfg)"
  unfolding distinct_conv_nth using frames_nth(1) [of cfg]
  by (metis cfg_ok_def mult_cancel2 unat_gt_0 less_irrefl)

lemma frames_sentinel: "cfg_ok cfg \<Longrightarrow> - 1 \<notin> set (frames cfg)"
proof
  assume ok: "cfg_ok cfg" and "- 1 \<in> set (frames cfg)"
  then obtain i where i: "i < length (frames cfg)" "frames cfg ! i = - 1" by (auto simp: in_set_conv_nth)
  have "unat (- 1 :: u64) = 2 ^ 64 - 1" by (simp add: unsigned_minus_1_eq_mask mask_eq_exp_minus_1)
  then show False using frames_nth [OF ok i(1)] i(2) ok by (simp add: cfg_ok_def)
qed

lemma frames_length [simp]: "length (frames cfg) = unat (frame_count cfg)"
  by (simp add: frames_def)

lemma fill_free_list_eq:
  "fill_free_list u i k = u\<lparr>free_frames := free_frames u @ map (\<lambda>j. of_nat j * frame_size (um_cfg u)) [i..<i + k]\<rparr>"
proof (induction u i k rule: fill_free_list.induct)
  case (2 u i k)
  have "[i..<i + Suc k] = i # [Suc i..<Suc i + k]" by (simp add: upt_conv_Cons)
  with 2 show ?case by (simp add: frame_offset_def)
qed simp

lemma allocate_region_cases:
  assumes "allocate_region env u tr = (r, tr1)"
  obtains e where "r = Inl (Mmap_failed 0 e)" "tr1 = tr"
  | a n hp e where "r = Inr (u\<lparr>region := a, region_size := n, huge_pages := hp\<rparr>)" "tr1 = Mmap a n # tr"
      "a \<noteq> MAP_FAILED" "env_mmap env tr n hp = (a, e)" "hp \<longrightarrow> use_huge_pages (um_cfg u)"
      "n = align_up (frame_size (um_cfg u) * frame_count (um_cfg u)) (if hp then kHugePage else 4096)"
proof -
  let ?raw = "frame_size (um_cfg u) * frame_count (um_cfg u)"
  obtain a e where a: "env_mmap env tr (align_up ?raw kHugePage) True = (a, e)" by fastforce
  obtain a' e' where a': "env_mmap env tr (align_up ?raw 4096) False = (a', e')" by fastforce
  consider "use_huge_pages (um_cfg u)" "a \<noteq> MAP_FAILED" | "\<not> (use_huge_pages (um_cfg u) \<and> a \<noteq> MAP_FAILED)" by blast
  then show ?thesis
  proof cases
    case 1
    then have "r = Inr (u\<lparr>region := a, region_size := align_up ?raw kHugePage, huge_pages := True\<rparr>)"
      "tr1 = Mmap a (align_up ?raw kHugePage) # tr"
      using assms a by (simp_all add: allocate_region_def Let_def)
    from this 1(2) a show ?thesis by (rule that(2)) (simp_all add: 1)
  next
    case 2
    then have eq: "allocate_region env u tr = (if a' = MAP_FAILED then (Inl (Mmap_failed 0 e'), tr)
        else (Inr (u\<lparr>region := a', region_size := align_up ?raw 4096, huge_pages := False\<rparr>),
              Mmap a' (align_up ?raw 4096) # tr))"
      using a a' by (auto simp: allocate_region_def Let_def)
    show ?thesis
    proof (cases "a' = MAP_FAILED")
      case True
      then show ?thesis using eq assms by (intro that(1)) simp_all
    next
      case False
      then have "r = Inr (u\<lparr>region := a', region_size := align_up ?raw 4096, huge_pages := False\<rparr>)"
        "tr1 = Mmap a' (align_up ?raw 4096) # tr" using eq assms by simp_all
      from this False a' show ?thesis by (rule that(2)) simp_all
    qed
  qed
qed

lemma create_umem_cases:
  assumes "create_umem env u tr = (r, tr1)"
  obtains ret where "r = Inl (Umem_create_failed ret)"
      "tr1 = (if region u = 0 then tr else Munmap (region u) (region_size u) # tr)"
  | xc h f c where "r = Inr (u\<lparr>umem := h, fill_ring := f, comp_ring := c\<rparr>)" "tr1 = Umem_create h (region u) # tr"
      "env_umem env tr (region u) (region_size u) xc = Inr (h, f, c)"
proof -
  let ?xc = "\<lparr>xu_fill_size = ucast (fill_size (um_cfg u)), xu_comp_size = ucast (completion_size (um_cfg u)),
            xu_frame_size = ucast (frame_size (um_cfg u)), xu_frame_headroom = 0, xu_flags = 0\<rparr>"
  show ?thesis
  proof (cases "env_umem env tr (region u) (region_size u) ?xc")
    case (Inl ret)
    then show ?thesis using assms that(1) [of ret]
      by (cases "region u = 0") (simp_all add: create_umem_def deallocate_region_def)
  next
    case (Inr hfc)
    obtain h f c where "hfc = (h, f, c)" by (cases hfc)
    then show ?thesis using Inr assms that(2) [where h = h and f = f and c = c and xc = ?xc]
      by (simp add: create_umem_def)
  qed
qed

lemma Umem_new_cases:
  assumes "Umem_new env f0 c0 cfg tr = (r, tr')"
  obtains (mmap) e where "r = Inl (Mmap_failed 0 e)" "tr' = tr"
  | (create) a n hp e ret where "r = Inl (Umem_create_failed ret)" "a \<noteq> MAP_FAILED" "env_mmap env tr n hp = (a, e)"
      "tr' = (if a = 0 then Mmap a n # tr else Munmap a n # Mmap a n # tr)"
  | (heap) a n hp e h f c xc err where "r = Inl err" "err = Length_error \<or> err = Bad_alloc" "a \<noteq> MAP_FAILED" "env_mmap env tr n hp = (a, e)"
      "env_umem env (Mmap a n # tr) a n xc = Inr (h, f, c)" "tr' = Umem_create h a # Mmap a n # tr"
      "reserve_frames env tr' (frame_count cfg) = Some err"
  | (ok) a n hp e h f c xc where
      "r = Inr \<lparr>um_cfg = cfg, region = a, region_size = n, huge_pages = hp, umem = h, fill_ring = f,
         comp_ring = c, free_frames = map (\<lambda>j. of_nat j * frame_size cfg) [0..<unat (frame_count cfg)]\<rparr>"
      "a \<noteq> MAP_FAILED" "env_mmap env tr n hp = (a, e)" "hp \<longrightarrow> use_huge_pages cfg"
      "n = align_up (frame_size cfg * frame_count cfg) (if hp then kHugePage else 4096)"
      "env_umem env (Mmap a n # tr) a n xc = Inr (h, f, c)" "tr' = Umem_create h a # Mmap a n # tr"
proof -
  obtain r1 tr1 where r1: "allocate_region env (Umem_members f0 c0 cfg) tr = (r1, tr1)" by fastforce
  from this show ?thesis
  proof (cases rule: allocate_region_cases)
    case (1 e)
    then show ?thesis using assms r1 mmap [of e] by (simp add: Umem_new_def)
  next
    case (2 a n hp e)
    let ?u = "Umem_members f0 c0 cfg\<lparr>region := a, region_size := n, huge_pages := hp\<rparr>"
    obtain r2 tr2 where r2: "create_umem env ?u (Mmap a n # tr) = (r2, tr2)" by fastforce
    have new: "Umem_new env f0 c0 cfg tr = (case r2 of Inl err \<Rightarrow> (Inl err, tr2)
        | Inr u2 \<Rightarrow> case reserve_frames env tr2 (frame_count cfg) of Some err \<Rightarrow> (Inl err, tr2)
            | None \<Rightarrow> (Inr (fill_free_list u2 0 (unat (frame_count cfg))), tr2))"
      using r1 2(1,2) r2 by (cases r2) (simp_all add: Umem_new_def)
    from r2 show ?thesis
    proof (cases rule: create_umem_cases)
      case (1 ret)
      have "r = Inl (Umem_create_failed ret)" "tr' = tr2" using assms new 1(1) by simp_all
      moreover have "tr2 = (if a = 0 then Mmap a n # tr else Munmap a n # Mmap a n # tr)" using 1(2) by simp
      ultimately show ?thesis using 2(3,4) by (intro create) simp_all
    next
      case c2: (2 xc h f c)
      have um: "env_umem env (Mmap a n # tr) a n xc = Inr (h, f, c)" "tr2 = Umem_create h a # Mmap a n # tr"
        using c2 by simp_all
      show ?thesis
      proof (cases "reserve_frames env tr2 (frame_count cfg)")
        case None
        have "tr' = tr2" "r = Inr \<lparr>um_cfg = cfg, region = a, region_size = n, huge_pages = hp, umem = h, fill_ring = f,
            comp_ring = c, free_frames = map (\<lambda>j. of_nat j * frame_size cfg) [0..<unat (frame_count cfg)]\<rparr>"
          using assms new None c2(1) by (simp_all add: fill_free_list_eq Umem_members_def)
        moreover have "hp \<longrightarrow> use_huge_pages cfg"
          "n = align_up (frame_size cfg * frame_count cfg) (if hp then kHugePage else 4096)"
          using 2(5,6) unfolding Umem_members_def by simp_all
        ultimately show ?thesis using ok 2(3,4) um by blast
      next
        case (Some err)
        then have "err = Length_error \<or> err = Bad_alloc" by (auto simp: reserve_frames_def split: if_splits)
        moreover have "r = Inl err" "tr' = tr2" using assms new Some c2(1) by simp_all
        ultimately show ?thesis using heap 2(3,4) um Some by blast
      qed
    qed
  qed
qed

lemma alloc_frame_mset:
  assumes "alloc_frame u = (f, u')" "- 1 \<notin> set (free_frames u)"
  shows "um_cfg u' = um_cfg u" "f = - 1 \<longleftrightarrow> free_frames u = []" "f = - 1 \<Longrightarrow> u' = u"
    "f \<noteq> - 1 \<Longrightarrow> mset (free_frames u) = add_mset f (mset (free_frames u'))"
proof -
  have last: "free_frames u \<noteq> [] \<Longrightarrow> last (free_frames u) \<noteq> - 1" using assms(2) last_in_set by metis
  show "um_cfg u' = um_cfg u" "f = - 1 \<longleftrightarrow> free_frames u = []" "f = - 1 \<Longrightarrow> u' = u"
    using assms last by (auto simp: alloc_frame_def split: if_splits)
  assume "f \<noteq> - 1"
  then have "free_frames u = free_frames u' @ [f]"
    using assms by (auto simp: alloc_frame_def split: if_splits)
  then show "mset (free_frames u) = add_mset f (mset (free_frames u'))" by simp
qed

lemma frame_run_mset:
  assumes "- 1 \<notin># M"
  shows "frame_run ops (u, held) = Some (u', held') \<Longrightarrow> mset (free_frames u) + mset held = M \<Longrightarrow>
    um_cfg u' = um_cfg u \<and> mset (free_frames u') + mset held' = M"
proof (induction ops arbitrary: u held)
  case (Cons op ops)
  have ns: "- 1 \<notin> set (free_frames u)" using assms Cons.prems(2) by (metis set_mset_mset union_iff)
  show ?case
  proof (cases op)
    case Alloc
    obtain f u1 where a: "alloc_frame u = (f, u1)" by fastforce
    note A = alloc_frame_mset [OF a ns]
    have "mset (free_frames u1) + mset (if f = - 1 then held else f # held) = M"
      using A(3,4) Cons.prems(2) by auto
    then show ?thesis using Cons.IH [of u1 "if f = - 1 then held else f # held"] Cons.prems(1) Alloc a A(1) by simp
  next
    case (Free f)
    then have f: "f \<in> set held" "frame_run ops (free_frame u f, remove1 f held) = Some (u', held')"
      using Cons.prems(1) by (auto split: if_splits)
    have "mset held = add_mset f (mset (remove1 f held))" using f(1) by simp
    moreover have "mset (free_frames (free_frame u f)) + mset (remove1 f held)
        = mset (free_frames u) + add_mset f (mset (remove1 f held))" by (simp add: free_frame_def)
    ultimately have "mset (free_frames (free_frame u f)) + mset (remove1 f held) = M"
      using Cons.prems(2) by (simp only:)
    then show ?thesis using Cons.IH [OF f(2)] by (simp add: free_frame_def)
  qed
qed simp

text \<open>
  (C16) For a configuration whose region does not wrap at 64 bits, the frame allocator never hands a frame out twice: after any sequence of allocations and
  frees of held frames on a new UMEM, the free list and the held frames together are exactly the
  frames of the region, all distinct; every held frame is aligned to the frame size and lies
  inside the region; the sentinel UINT64_MAX is returned exactly when all frames are held.
\<close>

theorem frame_allocator_safe:
  assumes "cfg_ok (um_cfg u)" "free_frames u = frames (um_cfg u)" "frame_run ops (u, []) = Some (u', held)"
  shows "mset (free_frames u') + mset held = mset (frames (um_cfg u)) \<and>
    distinct (free_frames u' @ held) \<and>
    (\<forall>f \<in> set held. \<exists>i < unat (frame_count (um_cfg u)). unat f = i * unat (frame_size (um_cfg u)) \<and>
       unat f + unat (frame_size (um_cfg u)) \<le> unat (frame_size (um_cfg u)) * unat (frame_count (um_cfg u))) \<and>
    (fst (alloc_frame u') = - 1 \<longleftrightarrow> length held = unat (frame_count (um_cfg u)))"
proof -
  let ?fr = "frames (um_cfg u)"
  have ns: "- 1 \<notin># mset ?fr" using frames_sentinel [OF assms(1)] by simp
  have m: "mset (free_frames u') + mset held = mset ?fr"
    using frame_run_mset [OF ns assms(3)] assms(2) by simp
  then have m': "mset (free_frames u' @ held) = mset ?fr" by simp
  have d: "distinct (free_frames u' @ held)"
    using frames_distinct [OF assms(1)] mset_eq_imp_distinct_iff [OF m'] by blast
  have st: "set (free_frames u') \<union> set held = set ?fr" using m' by (metis set_append mset_eq_setD)
  have held: "\<exists>i < unat (frame_count (um_cfg u)). unat f = i * unat (frame_size (um_cfg u)) \<and>
      unat f + unat (frame_size (um_cfg u)) \<le> unat (frame_size (um_cfg u)) * unat (frame_count (um_cfg u))"
    if "f \<in> set held" for f
  proof -
    have "f \<in> set ?fr" using that st by blast
    then obtain i where i: "i < length ?fr" "f = ?fr ! i" unfolding in_set_conv_nth by blast
    show ?thesis by (rule exI [of _ i]) (use frames_nth [OF assms(1) i(1)] i in simp)
  qed
  have "fst (alloc_frame u') = - 1 \<longleftrightarrow> free_frames u' = []"
  proof -
    obtain f u1 where a: "alloc_frame u' = (f, u1)" by fastforce
    have "- 1 \<notin> set (free_frames u')" using ns st by auto
    from alloc_frame_mset(2) [OF a this] show ?thesis using a by simp
  qed
  moreover have "length (free_frames u') + length held = unat (frame_count (um_cfg u))"
    using mset_eq_length [OF m'] by simp
  ultimately have "fst (alloc_frame u') = - 1 \<longleftrightarrow> length held = unat (frame_count (um_cfg u))" by auto
  then show ?thesis using m d held by blast
qed

text \<open>
  (C24) Layout of a constructed UMEM. When frame_size * frame_count plus a huge page fits in 64 bits, the
  mapped region is page aligned in size, at least as large as all frames and less than one page larger;
  frame i starts at i * frame_size and ends inside the region; the free list holds every frame. The pointers that \<open>frame_ptr\<close> computes
  stay inside \<open>region_span\<close>, as the region does not reach the end of the address space.
\<close>

theorem umem_region_layout:
  assumes "cfg_ok cfg" "Umem_new env f0 c0 cfg tr = (Inr u, tr')"
  shows "um_cfg u = cfg \<and> free_frames u = frames cfg \<and> page_size u dvd unat (region_size u) \<and>
    unat (frame_size cfg) * unat (frame_count cfg) \<le> unat (region_size u) \<and>
    unat (region_size u) < unat (frame_size cfg) * unat (frame_count cfg) + page_size u \<and>
    (\<forall>i < unat (frame_count cfg). unat (frame_offset u (of_nat i)) = i * unat (frame_size cfg) \<and>
       unat (frame_offset u (of_nat i)) + unat (frame_size cfg) \<le> unat (region_size u)) \<and>
    (let (b, sz) = region_span u in unat b + unat sz < 2 ^ 64 \<longrightarrow> (\<forall>i < unat (frame_count cfg).
       unat b \<le> unat (frame_ptr u (of_nat i)) \<and> unat (frame_ptr u (of_nat i)) + unat (frame_size cfg) \<le> unat b + unat sz))"
  using assms(2)
proof (cases rule: Umem_new_cases)
  case (ok a n hp e h f c xc)
  let ?raw = "frame_size cfg * frame_count cfg"
  have bound: "unat ?raw + 2 ^ 21 \<le> 2 ^ 64" using assms(1) raw_size_unat [OF assms(1)] by (simp add: cfg_ok_def)
  have size: "unat ?raw \<le> unat n" "unat n < unat ?raw + page_size u" "page_size u dvd unat n"
    using align_up_bounds [OF page_masks(1), of ?raw] align_up_bounds [OF page_masks(2), of ?raw] bound ok(1,5)
    by (simp_all add: page_size_def)
  have cfg: "um_cfg u = cfg" using ok(1) by simp
  have ff: "free_frames u = frames cfg" and n: "region_size u = n" using ok(1) by (simp_all add: frames_def)
  have "unat (frame_offset u (of_nat i)) = i * unat (frame_size cfg) \<and>
       unat (frame_offset u (of_nat i)) + unat (frame_size cfg) \<le> unat n" if "i < unat (frame_count cfg)" for i
    using frame_offset_unat [of u i] that assms(1) size(1) raw_size_unat [OF assms(1)] unfolding cfg by simp
  note off = this
  have "unat (region u) \<le> unat (frame_ptr u (of_nat i)) \<and> unat (frame_ptr u (of_nat i)) + unat (frame_size cfg) \<le> unat (region u) + unat n"
    if "i < unat (frame_count cfg)" "unat (region u) + unat n < 2 ^ 64" for i
    using off [OF that(1)] that(2) unat_add_lt [of "region u" "frame_offset u (of_nat i)"] by (simp add: frame_ptr_def)
  then show ?thesis unfolding cfg ff n region_span_def Let_def case_prod_conv using off size [unfolded raw_size_unat [OF assms(1)]] by blast
qed simp_all

lemma tiny_ok: "cfg_ok tiny_cfg" by (simp add: cfg_ok_def tiny_cfg_def)

lemma tiny_size: "align_up (2048 * 4) 4096 = 8192" "align_up (2048 * 4) kHugePage = 2097152"
  by code_simp+

lemmas umem_eval = small_env_def fresh_word_def Let_def Umem_new_def allocate_region_def
  create_umem_def reserve_frames_def Umem_members_def MAP_FAILED_def Umem_move_assign_def
  Umem_move_new_def Umem_destroy_def deallocate_region_def moved_from_def 

lemma tiny_frames: "frames tiny_cfg = [0, 2048, 4096, 6144]"
  by (simp add: frames_def tiny_cfg_def upt_rec)

lemma tiny_new: "Umem_new (small_env 100 f c r t) f0 c0 tiny_cfg [] =
    (Inr (tiny_umem f c), [Umem_create 8192 4096, Mmap 4096 8192])"
  by (simp add: umem_eval fill_free_list_eq tiny_size [simplified] tiny_cfg_def tiny_umem_def upt_rec)

theorem umem_region_layout_witness:
  "unat (region_size (tiny_umem () ())) < 2048 * 4 + 2 ^ 12 \<and> unat (frame_offset (tiny_umem () ()) 3) = 3 * 2048"
proof -
  note lay = umem_region_layout [OF tiny_ok tiny_new [of "()" "()" "()" "()" "()" "()"]]
  have "unat (frame_offset (tiny_umem () ()) (of_nat 3)) = 3 * unat (frame_size tiny_cfg)"
    using lay by (elim conjE allE [of _ 3]) (simp add: tiny_cfg_def)
  then show ?thesis using lay by (simp add: tiny_cfg_def tiny_umem_def page_size_def)
qed

theorem frame_allocator_safe_witness:
  "\<exists>u' held. frame_run [Alloc, Alloc, Free 6144, Alloc, Alloc, Alloc, Alloc] (tiny_umem () (), []) = Some (u', held) \<and>
     held = [0, 2048, 6144, 4096] \<and> distinct (free_frames u' @ held) \<and> fst (alloc_frame u') = - 1"
proof -
  let ?u = "tiny_umem () ()"
  have run: "frame_run [Alloc, Alloc, Free 6144, Alloc, Alloc, Alloc, Alloc] (?u, []) =
      Some (?u\<lparr>free_frames := []\<rparr>, [0, 2048, 6144, 4096])"
    by (simp add: alloc_frame_def free_frame_def tiny_umem_def)
  have c: "cfg_ok (um_cfg ?u)" "free_frames ?u = frames (um_cfg ?u)"
    using tiny_ok tiny_frames by (simp_all add: tiny_umem_def)
  from frame_allocator_safe [OF c run] run show ?thesis by (simp add: tiny_umem_def tiny_cfg_def)
qed

lemma primed_count:
  assumes "primed cfg < 2 ^ 32"
  shows "unat (ucast (min (fill_size cfg) (frame_count cfg)) :: u32) = primed cfg"
proof -
  have "unat (min (fill_size cfg) (frame_count cfg)) = primed cfg"
    by (simp add: primed_def min_def word_le_nat_alt)
  then show ?thesis using assms by (simp add: unsigned_ucast_eq take_bit_nat_eq_self)
qed

lemma populate_queue:
  assumes laws: "prod_laws api v" and st: "staged v (fill_ring u) = []" and n: "primed (um_cfg u) < 2 ^ 32"
    and sp: "primed (um_cfg u) \<le> space v (fill_ring u)"
  shows "queued v (fill_ring (populate_fill_ring api u)) =
      queued v (fill_ring u) @ take (primed (um_cfg u)) (frames (um_cfg u))"
    "staged v (fill_ring (populate_fill_ring api u)) = []"
    "space v (fill_ring (populate_fill_ring api u)) = space v (fill_ring u) - primed (um_cfg u)"
proof -
  let ?n = "ucast (min (fill_size (um_cfg u)) (frame_count (um_cfg u))) :: u32"
  let ?f = "\<lambda>i. ucast (of_nat i :: u32) * frame_size (um_cfg u)"
  note n' = primed_count [OF n]
  obtain k idx r1 where r: "reserve api (fill_ring u) ?n 0 = (k, idx, r1)" using prod_cases3 by blast
  note P = produce_all [OF laws st, where n = ?n and i = 0 and f = ?f, unfolded r n' prod.case, OF sp]
  have pf: "fill_ring (populate_fill_ring api u) = submit api (put_loop api idx ?f 0 (unat k) r1) k"
    using r by (simp add: populate_fill_ring_def)
  have "?f i = of_nat i * frame_size (um_cfg u)" if "i < primed (um_cfg u)" for i
  proof -
    have "i < 2 ^ 32" using that n by simp
    then have "unat (ucast (of_nat i :: u32) :: u64) = unat (of_nat i :: u64)"
      by (simp add: unat_ucast_up unat_of_nat take_bit_nat_eq_self)
    then have "(ucast (of_nat i :: u32) :: u64) = of_nat i" by (simp only: word_unat_eq_iff)
    then show ?thesis by simp
  qed
  then have "map ?f [0..<primed (um_cfg u)] = take (primed (um_cfg u)) (frames (um_cfg u))"
    by (simp add: frames_def take_map primed_def)
  then show "queued v (fill_ring (populate_fill_ring api u)) =
      queued v (fill_ring u) @ take (primed (um_cfg u)) (frames (um_cfg u))"
    "staged v (fill_ring (populate_fill_ring api u)) = []"
    "space v (fill_ring (populate_fill_ring api u)) = space v (fill_ring u) - primed (um_cfg u)"
    using P [THEN conjunct2] unfolding pf by simp_all
qed

lemma populate_none:
  assumes laws: "prod_laws api v" and st: "staged v (fill_ring u) = []" and n: "primed (um_cfg u) < 2 ^ 32"
    and sp: "\<not> primed (um_cfg u) \<le> space v (fill_ring u)"
  shows "queued v (fill_ring (populate_fill_ring api u)) = queued v (fill_ring u)"
    "staged v (fill_ring (populate_fill_ring api u)) = []"
proof -
  let ?n = "ucast (min (fill_size (um_cfg u)) (frame_count (um_cfg u))) :: u32"
  have "reserve api (fill_ring u) ?n 0 = (0, 0, fill_ring u)"
    using reserve_none [OF laws st] primed_count [OF n] sp by simp
  then have "fill_ring (populate_fill_ring api u) = submit api (fill_ring u) 0"
    by (simp add: populate_fill_ring_def)
  then show "queued v (fill_ring (populate_fill_ring api u)) = queued v (fill_ring u)"
    "staged v (fill_ring (populate_fill_ring api u)) = []"
    using submit_law [OF laws, of 0 "fill_ring u"] st by simp_all
qed

text \<open>
  Priming the fill ring: with room for min(fill_size, frame_count) entries the kernel is given exactly the
  first frames of the region, in order, after what it already had; without that room nothing is given.
  Either way nothing stays reserved, and the allocator's free list is left as it was.
\<close>

theorem populate_fill_ring_spec:
  assumes "prod_laws api v" "staged v (fill_ring u) = []" "primed (um_cfg u) < 2 ^ 32"
  shows "queued v (fill_ring (populate_fill_ring api u)) = queued v (fill_ring u) @
      (if primed (um_cfg u) \<le> space v (fill_ring u) then take (primed (um_cfg u)) (frames (um_cfg u)) else []) \<and>
    staged v (fill_ring (populate_fill_ring api u)) = [] \<and>
    free_frames (populate_fill_ring api u) = free_frames u"
proof -
  have free: "free_frames (populate_fill_ring api u) = free_frames u"
    by (simp add: populate_fill_ring_def split: prod.split)
  show ?thesis
  proof (cases "primed (um_cfg u) \<le> space v (fill_ring u)")
    case True
    then show ?thesis using populate_queue [OF assms] free by simp
  next
    case False
    have "queued v (fill_ring (populate_fill_ring api u)) = queued v (fill_ring u) \<and>
        staged v (fill_ring (populate_fill_ring api u)) = []"
      using populate_none [OF assms] False by simp
    then show ?thesis using False free by simp
  qed
qed

theorem populate_fill_ring_spec_witness:
  "\<exists>r. space lring_prod_view r = 2 \<and>
     queued lring_prod_view (fill_ring (populate_fill_ring (lring_prod 0) (tiny_umem r ()))) = [0, 2048]"
proof -
  let ?r = "\<lparr>lr_queued = [], lr_staged = [], lr_next = 7, lr_space = 2\<rparr> :: u64 lring"
  have v: "queued lring_prod_view ?r = []" "staged lring_prod_view ?r = []" "space lring_prod_view ?r = 2"
    by (simp_all add: lring_prod_view_def)
  have "primed tiny_cfg = 2" by (simp add: primed_def tiny_cfg_def)
  then have "queued lring_prod_view (fill_ring (populate_fill_ring (lring_prod 0) (tiny_umem ?r ()))) = [0, 2048]"
    using populate_fill_ring_spec [OF lring_prod_laws, of "tiny_umem ?r ()" 0] v tiny_frames
    by (simp add: tiny_umem_def)
  then show ?thesis using v(3) by blast
qed

lemma frame_run_allocs:
  "k \<le> length (free_frames u) \<Longrightarrow> - 1 \<notin> set (free_frames u) \<Longrightarrow>
   frame_run (replicate k Alloc) (u, held) = Some (u\<lparr>free_frames := take (length (free_frames u) - k) (free_frames u)\<rparr>,
     drop (length (free_frames u) - k) (free_frames u) @ held)"
proof (induction k arbitrary: u held)
  case (Suc k)
  obtain xs x where fr: "free_frames u = xs @ [x]"
    using Suc.prems(1) by (cases "free_frames u" rule: rev_cases) auto
  moreover have "x \<noteq> - 1" using Suc.prems(2) fr by auto
  ultimately have "frame_run (replicate (Suc k) Alloc) (u, held)
      = frame_run (replicate k Alloc) (u\<lparr>free_frames := xs\<rparr>, x # held)"
    by (simp add: alloc_frame_def)
  then show ?case using Suc.IH [of "u\<lparr>free_frames := xs\<rparr>" "x # held"] Suc.prems fr by simp
qed simp

text \<open>
  (C33) The allocator and the fill ring are not disjoint: priming leaves the frames given to the kernel in the free list,
  so after frame_count - min(fill_size, frame_count) allocations the next one returns a frame that the
  kernel may be writing received packets to.
\<close>

theorem fill_ring_frame_allocated:
  assumes "prod_laws api v" "staged v (fill_ring u) = []" "primed (um_cfg u) < 2 ^ 32"
    "primed (um_cfg u) \<le> space v (fill_ring u)" "0 < primed (um_cfg u)"
    "cfg_ok (um_cfg u)" "free_frames u = frames (um_cfg u)"
  shows "\<exists>u' f held. frame_run (replicate (unat (frame_count (um_cfg u)) - primed (um_cfg u) + 1) Alloc)
      (populate_fill_ring api u, []) = Some (u', f # held) \<and> f \<in> set (queued v (fill_ring u'))"
proof -
  let ?p = "primed (um_cfg u)" and ?c = "unat (frame_count (um_cfg u))" and ?u = "populate_fill_ring api u"
  have pc: "?p \<le> ?c" by (simp add: primed_def)
  have fr: "free_frames ?u = frames (um_cfg u)" using assms(7) by (simp add: populate_fill_ring_def split: prod.split)
  have idx: "?c - (?c - ?p + 1) = ?p - 1" using pc by simp
  have "frame_run (replicate (?c - ?p + 1) Alloc) (?u, []) =
      Some (?u\<lparr>free_frames := take (?p - 1) (frames (um_cfg u))\<rparr>, drop (?p - 1) (frames (um_cfg u)))"
    using frame_run_allocs [of "?c - ?p + 1" ?u "[]"] fr frames_sentinel [OF assms(6)] pc assms(5) idx by simp
  moreover have "drop (?p - 1) (frames (um_cfg u)) = frames (um_cfg u) ! (?p - 1) # drop ?p (frames (um_cfg u))"
    using Cons_nth_drop_Suc [of "?p - 1" "frames (um_cfg u)"] pc assms(5) by simp
  moreover have "frames (um_cfg u) ! (?p - 1) \<in> set (take ?p (frames (um_cfg u)))"
    using pc assms(5) by (auto simp: in_set_conv_nth intro!: exI [of _ "?p - 1"])
  ultimately show ?thesis using populate_queue(1) [OF assms(1-4)] by auto
qed

theorem fill_ring_frame_allocated_witness:
  "\<exists>r u' f held. frame_run [Alloc, Alloc, Alloc] (populate_fill_ring (lring_prod 0) (tiny_umem r ()), []) = Some (u', f # held) \<and>
     f \<in> set (queued lring_prod_view (fill_ring u'))"
proof -
  let ?r = "\<lparr>lr_queued = [], lr_staged = [], lr_next = 7, lr_space = 2\<rparr> :: u64 lring"
  let ?u = "tiny_umem ?r ()"
  have v: "staged lring_prod_view (fill_ring ?u) = []" "space lring_prod_view (fill_ring ?u) = 2"
    by (simp_all add: lring_prod_view_def tiny_umem_def)
  have p: "primed (um_cfg ?u) = 2" "unat (frame_count (um_cfg ?u)) = 4"
    by (simp_all add: primed_def tiny_cfg_def tiny_umem_def)
  have c: "cfg_ok (um_cfg ?u)" "free_frames ?u = frames (um_cfg ?u)"
    using tiny_ok tiny_frames by (simp_all add: tiny_umem_def)
  have "[Alloc, Alloc, Alloc] = replicate (unat (frame_count (um_cfg ?u)) - primed (um_cfg ?u) + 1) Alloc"
    unfolding p by (simp add: numeral_eq_Suc)
  moreover have "primed (um_cfg ?u) < 2 ^ 32" "primed (um_cfg ?u) \<le> space lring_prod_view (fill_ring ?u)"
    "0 < primed (um_cfg ?u)" unfolding p v by simp_all
  ultimately show ?thesis using fill_ring_frame_allocated [OF lring_prod_laws v(1) _ _ _ c, of 0] by metis
qed

end
