(* ===== verification/Umem_Lifecycle.thy ===== *)
theory Umem_Lifecycle
  imports Umem
begin

text \<open>
  Ownership of mappings and UMEM handles by \<open>Umem\<close> objects: programs that construct, move and destroy
  objects in a store, the invariant that ties the store to the ledger of live resources, and
  what a failing constructor leaves behind.
\<close>

section \<open>Programs on a store of objects\<close>

text \<open>
  An operation names objects by number; it does nothing when it would construct over a live object or
  use one that is not there. A constructor that throws creates no object.
  \<open>heap_serves\<close> and \<open>op_fits\<close> bound the free lists by what the heap can serve.
\<close>

datatype umem_op =
    Op_new nat UmemConfig
  | Op_move_new nat nat
  | Op_move_assign nat nat
  | Op_destroy nat

fun umem_exec ::
  "('f, 'c, 'r, 't) env \<Rightarrow> 'f \<Rightarrow> 'c \<Rightarrow> umem_op \<Rightarrow> (nat \<rightharpoonup> ('f, 'c) Umem) \<times> sys_event list
   \<Rightarrow> (nat \<rightharpoonup> ('f, 'c) Umem) \<times> sys_event list" where
  "umem_exec env f0 c0 (Op_new i cfg) (objs, tr) =
     (if objs i \<noteq> None then (objs, tr)
      else case Umem_new env f0 c0 cfg tr of (Inl err, tr') \<Rightarrow> (objs, tr') | (Inr u, tr') \<Rightarrow> (objs(i \<mapsto> u), tr'))"
| "umem_exec env f0 c0 (Op_move_new i j) (objs, tr) =
     (case (objs i, objs j) of
        (None, Some v) \<Rightarrow> let (w, v') = Umem_move_new v in (objs(i \<mapsto> w, j \<mapsto> v'), tr)
      | _ \<Rightarrow> (objs, tr))"
| "umem_exec env f0 c0 (Op_move_assign i j) (objs, tr) = Umem_move_assign i j objs tr"
| "umem_exec env f0 c0 (Op_destroy i) (objs, tr) =
     (case objs i of None \<Rightarrow> (objs, tr) | Some u \<Rightarrow> (objs(i := None), snd (Umem_destroy u tr)))"

definition umem_session ::
  "('f, 'c, 'r, 't) env \<Rightarrow> 'f \<Rightarrow> 'c \<Rightarrow> umem_op list \<Rightarrow> (nat \<rightharpoonup> ('f, 'c) Umem) \<times> sys_event list" where
  "umem_session env f0 c0 ops = fold (umem_exec env f0 c0) ops (Map.empty, [])"

definition owned :: "('u \<Rightarrow> 'x) \<Rightarrow> ('u \<Rightarrow> bool) \<Rightarrow> (nat \<rightharpoonup> 'u) \<Rightarrow> 'x set" where
  "owned g P objs = {g u | i u. objs i = Some u \<and> P u}"

definition owned_maps :: "(nat \<rightharpoonup> ('f, 'c) Umem) \<Rightarrow> (ptr \<times> u64) set" where
  "owned_maps = owned (\<lambda>u. (region u, region_size u)) (\<lambda>u. region u \<noteq> 0)"

definition owned_umems :: "(nat \<rightharpoonup> ('f, 'c) Umem) \<Rightarrow> (u64 \<times> ptr) set" where
  "owned_umems = owned (\<lambda>u. (umem u, region u)) (\<lambda>u. umem u \<noteq> 0)"

definition paired :: "(nat \<rightharpoonup> ('f, 'c) Umem) \<Rightarrow> bool" where
  "paired objs \<longleftrightarrow> (\<forall>i u. objs i = Some u \<longrightarrow> (umem u = 0 \<longleftrightarrow> region u = 0))"

definition separate :: "(nat \<rightharpoonup> ('f, 'c) Umem) \<Rightarrow> bool" where
  "separate objs \<longleftrightarrow>
     (\<forall>i j u v. objs i = Some u \<and> objs j = Some v \<and> region u \<noteq> 0 \<and>
        (region u = region v \<or> umem u = umem v) \<longrightarrow> i = j)"

definition store_inv :: "(nat \<rightharpoonup> ('f, 'c) Umem) \<Rightarrow> resources \<Rightarrow> bool" where
  "store_inv objs L \<longleftrightarrow>
     L = \<lparr>maps = owned_maps objs, umems = owned_umems objs, socks = {}\<rparr> \<and> paired objs \<and> separate objs"

definition heap_serves :: "('f, 'c, 'r, 't) env \<Rightarrow> nat \<Rightarrow> bool" where
  "heap_serves env B \<longleftrightarrow> B < 2 ^ 60 \<and> (\<forall>tr n. n \<le> 8 * B \<longrightarrow> env_alloc env tr n)"

definition op_fits :: "nat \<Rightarrow> umem_op \<Rightarrow> bool" where
  "op_fits B op = (case op of Op_new i cfg \<Rightarrow> unat (frame_count cfg) \<le> B | _ \<Rightarrow> True)"

definition demo_ops :: "umem_op list" where
  "demo_ops = [Op_new 0 tiny_cfg, Op_new 1 tiny_cfg, Op_move_assign 0 1, Op_move_assign 0 0, Op_move_new 2 0,
     Op_destroy 0, Op_destroy 2, Op_destroy 1]"

definition demo_trace :: "sys_event list" where
  "demo_trace = [Munmap 12288 8192, Umem_delete 16384, Munmap 4096 8192, Umem_delete 8192,
     Umem_create 16384 12288, Mmap 12288 8192, Umem_create 8192 4096, Mmap 4096 8192]"

definition wrapping_cfg :: UmemConfig where
  "wrapping_cfg = \<lparr>frame_size = 4096, frame_count = 2 ^ 60 + 1, fill_size = 2, completion_size = 2, use_huge_pages = False\<rparr>"

section \<open>Lemmas and properties\<close>

lemma umem_acquired:
  assumes laws: "env_laws env" and L: "ledger tr = Some L"
    and mm: "env_mmap env tr n hp = (a, e)" "a \<noteq> MAP_FAILED"
  shows "a \<noteq> 0" "a \<notin> fst ` maps L"
    "ledger (Mmap a n # tr) = Some (L\<lparr>maps := insert (a, n) (maps L)\<rparr>)"
    "env_umem env (Mmap a n # tr) a n xc = Inr (h, f, c) \<Longrightarrow>
      h \<noteq> 0 \<and> h \<notin> fst ` umems L \<and>
      ledger (Umem_create h a # Mmap a n # tr)
        = Some (L\<lparr>maps := insert (a, n) (maps L), umems := insert (h, a) (umems L)\<rparr>)"
proof -
  have md: "mmap_doc env" and ud: "umem_doc env" using laws by (simp_all add: env_laws_def)
  show "a \<noteq> 0" "a \<notin> fst ` maps L" using md L mm unfolding mmap_doc_def by blast+
  show L1: "ledger (Mmap a n # tr) = Some (L\<lparr>maps := insert (a, n) (maps L)\<rparr>)" using L by simp
  assume um: "env_umem env (Mmap a n # tr) a n xc = Inr (h, f, c)"
  have "h \<noteq> 0 \<and> h \<notin> fst ` umems (L\<lparr>maps := insert (a, n) (maps L)\<rparr>)"
    using ud L1 um unfolding umem_doc_def by blast
  then show "h \<noteq> 0 \<and> h \<notin> fst ` umems L \<and> ledger (Umem_create h a # Mmap a n # tr)
      = Some (L\<lparr>maps := insert (a, n) (maps L), umems := insert (h, a) (umems L)\<rparr>)"
    using L by simp
qed

lemma map_unmap:
  assumes "a \<notin> fst ` maps L" "a \<notin> snd ` umems L" "ledger tr = Some L"
  shows "ledger (Munmap a n # Mmap a n # tr) = Some L"
proof -
  have "insert (a, n) (maps L) - {(a, n)} = maps L" using assms(1) by force
  then show ?thesis using assms by simp
qed

lemma Umem_destroy_trace:
  "snd (Umem_destroy u tr) =
    (if region u = 0 then [] else [Munmap (region u) (region_size u)]) @
    (if umem u = 0 then [] else [Umem_delete (umem u)]) @ tr"
  by (simp add: Umem_destroy_def deallocate_region_def)

lemma separateD:
  "separate objs \<Longrightarrow> objs i = Some u \<Longrightarrow> objs j = Some v \<Longrightarrow> region u \<noteq> 0 \<Longrightarrow>
   region u = region v \<or> umem u = umem v \<Longrightarrow> i = j"
  unfolding separate_def by blast

lemma pairedD: "paired objs \<Longrightarrow> objs i = Some u \<Longrightarrow> umem u = 0 \<longleftrightarrow> region u = 0"
  unfolding paired_def by blast

lemma paired_remove: "paired objs \<Longrightarrow> paired (objs(i := None))"
  unfolding paired_def by auto

lemma separate_remove: "separate objs \<Longrightarrow> separate (objs(i := None))"
  unfolding separate_def by (auto split: if_splits)

lemma owned_update: "owned g P (objs(i \<mapsto> w)) = (if P w then {g w} else {}) \<union> owned g P (objs(i := None))"
  by (auto simp: owned_def split: if_splits)

lemma owned_split: "objs i = Some u \<Longrightarrow> owned g P objs = (if P u then {g u} else {}) \<union> owned g P (objs(i := None))"
  using owned_update [of g P objs i u] by (simp add: fun_upd_idem)

lemma ownedE:
  assumes "x \<in> owned g P objs"
  obtains i u where "objs i = Some u" "P u" "x = g u"
  using assms unfolding owned_def by blast

lemma owned_move:
  assumes v: "objs j = Some v" and i: "objs i = None" and g: "g w = g v" "P w = P v" "\<not> P x"
  shows "owned g P (objs(i \<mapsto> w, j \<mapsto> x)) = owned g P objs"
proof -
  have "objs(i \<mapsto> w, j := None) = (objs(j := None))(i \<mapsto> w)"
    using v i by (intro ext) auto
  moreover have "(objs(j := None))(i := None) = objs(j := None)" using i by (intro ext) auto
  ultimately have "owned g P (objs(i \<mapsto> w, j \<mapsto> x)) = (if P w then {g w} else {}) \<union> owned g P (objs(j := None))"
    using g(3) by (simp only: owned_update if_False Un_empty_left)
  then show ?thesis using g owned_split [of objs j v g P, OF v] by simp
qed

lemma owned_release:
  assumes u: "objs i = Some u" and nz: "region u \<noteq> 0" and p: "paired objs" and sep: "separate objs"
  shows "owned_maps objs - {(region u, region_size u)} = owned_maps (objs(i := None))"
    "{p \<in> owned_umems objs. fst p \<noteq> umem u} = owned_umems (objs(i := None))"
    "(region u, region_size u) \<in> owned_maps objs" "umem u \<in> fst ` owned_umems objs"
    "region u \<notin> snd ` owned_umems (objs(i := None))"
proof -
  have h: "umem u \<noteq> 0" using pairedD [OF p u] nz by simp
  have other: "region v \<noteq> region u \<and> umem v \<noteq> umem u" if "(objs(i := None)) j = Some v" for j v
    using separateD [OF sep u _ nz, of j v] that by (auto split: if_splits)
  have "(region u, region_size u) \<notin> owned_maps (objs(i := None))"
  proof
    assume "(region u, region_size u) \<in> owned_maps (objs(i := None))"
    then obtain j v where "(objs(i := None)) j = Some v" "(region u, region_size u) = (region v, region_size v)"
      unfolding owned_maps_def by (rule ownedE)
    then show False using other [of j v] by simp
  qed
  then show "owned_maps objs - {(region u, region_size u)} = owned_maps (objs(i := None))"
    using nz unfolding owned_maps_def owned_split [of objs i u, OF u] by auto
  have "fst p \<noteq> umem u" "snd p \<noteq> region u" if "p \<in> owned_umems (objs(i := None))" for p
  proof -
    obtain j v where "(objs(i := None)) j = Some v" "p = (umem v, region v)"
      using \<open>p \<in> owned_umems (objs(i := None))\<close> unfolding owned_umems_def by (rule ownedE)
    then show "fst p \<noteq> umem u" "snd p \<noteq> region u" using other [of j v] by simp_all
  qed
  then show "{p \<in> owned_umems objs. fst p \<noteq> umem u} = owned_umems (objs(i := None))"
    "region u \<notin> snd ` owned_umems (objs(i := None))"
    unfolding owned_umems_def owned_split [of objs i u, OF u] by auto blast
  show "(region u, region_size u) \<in> owned_maps objs" "umem u \<in> fst ` owned_umems objs"
    using nz h unfolding owned_maps_def owned_umems_def owned_split [of objs i u, OF u] by auto
qed

lemma store_destroy:
  assumes inv: "store_inv objs L" and u: "objs i = Some u" and L: "ledger tr = Some L"
  shows "\<exists>L'. ledger (snd (Umem_destroy u tr)) = Some L' \<and> store_inv (objs(i := None)) L'"
proof -
  have p: "paired objs" and sep: "separate objs"
    and eq: "L = \<lparr>maps = owned_maps objs, umems = owned_umems objs, socks = {}\<rparr>"
    using inv by (simp_all add: store_inv_def)
  let ?L = "\<lparr>maps = owned_maps (objs(i := None)), umems = owned_umems (objs(i := None)), socks = {}\<rparr>"
  have "store_inv (objs(i := None)) ?L"
    unfolding store_inv_def using paired_remove [OF p] separate_remove [OF sep] by blast
  moreover have "ledger (snd (Umem_destroy u tr)) = Some ?L"
  proof (cases "region u = 0")
    case True
    then show ?thesis using L eq pairedD [OF p u] owned_split [of objs i u "\<lambda>u. (region u, region_size u)" "\<lambda>u. region u \<noteq> 0", OF u]
          owned_split [of objs i u "\<lambda>u. (umem u, region u)" "\<lambda>u. umem u \<noteq> 0", OF u]
      by (simp add: Umem_destroy_trace owned_maps_def owned_umems_def)
  next
    case False
    then show ?thesis using L eq pairedD [OF p u] owned_release [OF u False p sep] by (simp add: Umem_destroy_trace)
  qed
  ultimately show ?thesis by blast
qed

lemma store_move:
  assumes inv: "store_inv objs L" and v: "objs j = Some v" and i: "objs i = None"
    and w: "region w = region v" "region_size w = region_size v" "umem w = umem v"
  shows "store_inv (objs(i \<mapsto> w, j \<mapsto> moved_from v)) L"
proof -
  let ?o = "objs(i \<mapsto> w, j \<mapsto> moved_from v)"
  have p: "paired objs" and sep: "separate objs" and ij: "i \<noteq> j"
    and eq: "L = \<lparr>maps = owned_maps objs, umems = owned_umems objs, socks = {}\<rparr>"
    using inv v i by (auto simp: store_inv_def)
  have null: "region (moved_from v) = 0" "umem (moved_from v) = 0" by (simp_all add: moved_from_def)
  have "paired ?o" using p v w null unfolding paired_def by auto
  moreover have "separate ?o"
    unfolding separate_def
  proof (intro allI impI, elim conjE)
    fix k l x y assume x: "?o k = Some x" and y: "?o l = Some y" and nz: "region x \<noteq> 0"
      and same: "region x = region y \<or> umem x = umem y"
    have old: "\<exists>z. objs (if m = i then j else m) = Some z \<and> region z = region t \<and> umem z = umem t"
      if "?o m = Some t" "m \<noteq> j" for m t using that v w by (auto split: if_splits)
    have kj: "k \<noteq> j" using x nz null by auto
    moreover have "umem x \<noteq> 0" using old [OF x kj] nz pairedD [OF p] by metis
    ultimately have lj: "l \<noteq> j" using y same nz null by auto
    have "(if k = i then j else k) = (if l = i then j else l)"
    proof -
      obtain x' y' where "objs (if k = i then j else k) = Some x'" "objs (if l = i then j else l) = Some y'"
        "region x' = region x" "umem x' = umem x" "region y' = region y" "umem y' = umem y"
        using old [OF x kj] old [OF y lj] by blast
      with nz same show ?thesis by (intro separateD [OF sep, of _ x' _ y']) simp_all
    qed
    then show "k = l" using kj lj by (auto split: if_splits)
  qed
  moreover have "owned_maps ?o = owned_maps objs" "owned_umems ?o = owned_umems objs"
    using w null unfolding owned_maps_def owned_umems_def by (intro owned_move [OF v i]; simp)+
  ultimately show ?thesis using eq by (simp add: store_inv_def)
qed

lemma store_live:
  assumes inv: "store_inv objs L" and v: "objs j = Some v" "region v \<noteq> 0"
  shows "region v \<in> fst ` maps L" "umem v \<in> fst ` umems L"
proof -
  have "umem v \<noteq> 0" using inv v by (simp add: store_inv_def paired_def)
  then have "(region v, region_size v) \<in> maps L" "(umem v, region v) \<in> umems L"
    using inv v unfolding store_inv_def owned_maps_def owned_umems_def owned_def by auto
  then show "region v \<in> fst ` maps L" "umem v \<in> fst ` umems L" by (auto intro: rev_image_eqI)
qed

lemma store_unmapped: "a \<notin> fst ` maps L \<Longrightarrow> store_inv objs L \<Longrightarrow> a \<notin> snd ` umems L"
proof
  assume a: "a \<notin> fst ` maps L" and inv: "store_inv objs L" and "a \<in> snd ` umems L"
  then obtain p where p: "p \<in> owned_umems objs" "a = snd p" by (auto simp: store_inv_def)
  from p(1) obtain j v where v: "objs j = Some v" "umem v \<noteq> 0" "p = (umem v, region v)"
    unfolding owned_umems_def by (rule ownedE)
  moreover have "region v \<noteq> 0" using inv v by (simp add: store_inv_def paired_def)
  ultimately show False using store_live(1) [OF inv, of j v] a p(2) by simp
qed

lemma store_add:
  assumes inv: "store_inv objs L" and i: "objs i = None"
    and w: "region w \<noteq> 0" "umem w \<noteq> 0" "region w \<notin> fst ` maps L" "umem w \<notin> fst ` umems L"
  shows "store_inv (objs(i \<mapsto> w)) (L\<lparr>maps := insert (region w, region_size w) (maps L),
    umems := insert (umem w, region w) (umems L)\<rparr>)"
proof -
  have p: "paired objs" and sep: "separate objs"
    and eq: "L = \<lparr>maps = owned_maps objs, umems = owned_umems objs, socks = {}\<rparr>"
    using inv by (simp_all add: store_inv_def)
  have "objs(i := None) = objs" using i by (intro ext) simp
  then have "owned_maps (objs(i \<mapsto> w)) = insert (region w, region_size w) (owned_maps objs)"
    "owned_umems (objs(i \<mapsto> w)) = insert (umem w, region w) (owned_umems objs)"
    using w unfolding owned_maps_def owned_umems_def by (simp_all add: owned_update)
  moreover have "paired (objs(i \<mapsto> w))" using p w unfolding paired_def by simp
  moreover have diff: "region v \<noteq> region w \<and> umem v \<noteq> umem w" if v: "objs j = Some v" for j v
  proof (cases "region v = 0")
    case True
    then show ?thesis using w pairedD [OF p v] by auto
  next
    case False
    then show ?thesis using store_live [OF inv v False] w by metis
  qed
  have "separate (objs(i \<mapsto> w))"
    unfolding separate_def
  proof (intro allI impI, elim conjE)
    fix k l x y assume "(objs(i \<mapsto> w)) k = Some x" "(objs(i \<mapsto> w)) l = Some y" "region x \<noteq> 0"
      "region x = region y \<or> umem x = umem y"
    then show "k = l" using separateD [OF sep, of k x l y] diff [of k x] diff [of l y]
      by (cases "k = i"; cases "l = i") auto
  qed
  ultimately show ?thesis using eq by (simp add: store_inv_def)
qed

lemma store_new:
  assumes inv: "store_inv objs L" and i: "objs i = None" and L: "ledger tr = Some L" and laws: "env_laws env"
    and heap: "heap_serves env B" "unat (frame_count cfg) \<le> B"
    and new: "Umem_new env f0 c0 cfg tr = (r, tr')"
  shows "\<exists>L'. ledger tr' = Some L' \<and> store_inv (case r of Inl _ \<Rightarrow> objs | Inr u \<Rightarrow> objs(i \<mapsto> u)) L'"
  using new
proof (cases rule: Umem_new_cases)
  case mmap
  then show ?thesis using inv L by simp
next
  case (create a n hp e ret)
  note acq = umem_acquired [OF laws L create(3,2)]
  have "a \<notin> snd ` umems L" using acq(2) inv by (rule store_unmapped)
  from map_unmap [OF acq(2) this L] have "ledger tr' = Some L" unfolding create(4) using acq(1) by (simp only: if_False)
  then show ?thesis using create(1) inv by simp
next
  case (heap a n hp e h f c xc err)
  then show ?thesis using assms(5,6) by (simp add: reserve_frames_def heap_serves_def)
next
  case (ok a n hp e h f c xc)
  note acq = umem_acquired [OF laws L ok(3,2)]
  let ?u = "\<lparr>um_cfg = cfg, region = a, region_size = n, huge_pages = hp, umem = h, fill_ring = f,
    comp_ring = c, free_frames = map (\<lambda>j. of_nat j * frame_size cfg) [0..<unat (frame_count cfg)]\<rparr>"
  have h: "h \<noteq> 0" "h \<notin> fst ` umems L"
    and L': "ledger tr' = Some (L\<lparr>maps := insert (a, n) (maps L), umems := insert (h, a) (umems L)\<rparr>)"
    using acq(4) [OF ok(6)] ok(7) by simp_all
  have "store_inv (objs(i \<mapsto> ?u)) (L\<lparr>maps := insert (a, n) (maps L), umems := insert (h, a) (umems L)\<rparr>)"
    using store_add [OF inv i, of ?u] acq(1,2) h by simp
  then show ?thesis using L' ok(1) by auto
qed

lemma owned_empty: "owned_maps Map.empty = {}" "owned_umems Map.empty = {}"
  by (simp_all add: owned_maps_def owned_umems_def owned_def)

lemma store_empty: "store_inv Map.empty no_resources"
  by (simp add: store_inv_def no_resources_def paired_def separate_def owned_empty)

lemma move_assign_eq:
  assumes "objs i = Some u" "objs j = Some v" "i \<noteq> j"
  shows "\<exists>w. region w = region v \<and> region_size w = region_size v \<and> umem w = umem v \<and>
    Umem_move_assign i j objs tr = ((objs(i := None))(i \<mapsto> w, j \<mapsto> moved_from v), snd (Umem_destroy u tr))"
  using assms by (simp add: Umem_move_assign_def Umem_destroy_def deallocate_region_def) force

lemma store_exec:
  assumes inv: "store_inv objs L" and L: "ledger tr = Some L" and laws: "env_laws env"
    and heap: "heap_serves env B" and fits: "op_fits B op" and ex: "umem_exec env f0 c0 op (objs, tr) = (objs', tr')"
  shows "\<exists>L'. ledger tr' = Some L' \<and> store_inv objs' L'"
proof (cases op)
  case (Op_new i cfg)
  obtain r tr1 where r: "Umem_new env f0 c0 cfg tr = (r, tr1)" by fastforce
  have "unat (frame_count cfg) \<le> B" using fits Op_new by (simp add: op_fits_def)
  note new = store_new [OF inv _ L laws heap this r]
  show ?thesis using ex Op_new r new [of i] inv L by (cases "objs i"; cases r) auto
next
  case (Op_move_new i j)
  show ?thesis
  proof (cases "objs i = None \<and> objs j \<noteq> None")
    case True
    then obtain v where v: "objs j = Some v" by blast
    then show ?thesis using ex Op_move_new True L store_move [OF inv v, of i "fst (Umem_move_new v)"]
      by (auto simp: Umem_move_new_def)
  next
    case False
    then show ?thesis using ex Op_move_new inv L by (auto split: option.splits)
  qed
next
  case (Op_move_assign i j)
  show ?thesis
  proof (cases "objs i \<noteq> None \<and> objs j \<noteq> None \<and> i \<noteq> j")
    case True
    then obtain u v where uv: "objs i = Some u" "objs j = Some v" "i \<noteq> j" by blast
    obtain w where w: "region w = region v" "region_size w = region_size v" "umem w = umem v"
      "Umem_move_assign i j objs tr = ((objs(i := None))(i \<mapsto> w, j \<mapsto> moved_from v), snd (Umem_destroy u tr))"
      using move_assign_eq [OF uv, of tr] by blast
    obtain L' where L': "ledger (snd (Umem_destroy u tr)) = Some L'" "store_inv (objs(i := None)) L'"
      using store_destroy [OF inv uv(1) L] by blast
    have "store_inv ((objs(i := None))(i \<mapsto> w, j \<mapsto> moved_from v)) L'"
      by (rule store_move [OF L'(2)]) (use uv w in auto)
    then show ?thesis using ex Op_move_assign w(4) L'(1) by auto
  next
    case False
    then show ?thesis using ex Op_move_assign inv L by (auto simp: Umem_move_assign_def split: option.splits if_splits)
  qed
next
  case (Op_destroy i)
  show ?thesis using ex Op_destroy inv L store_destroy [OF inv _ L] by (cases "objs i") auto
qed

lemma store_session:
  assumes "env_laws env" "heap_serves env B"
  shows "store_inv objs L \<Longrightarrow> ledger tr = Some L \<Longrightarrow> \<forall>op \<in> set ops. op_fits B op \<Longrightarrow>
    fold (umem_exec env f0 c0) ops (objs, tr) = (objs', tr') \<Longrightarrow> \<exists>L'. ledger tr' = Some L' \<and> store_inv objs' L'"
proof (induction ops arbitrary: objs tr L)
  case (Cons op ops)
  obtain o1 t1 where s1: "umem_exec env f0 c0 op (objs, tr) = (o1, t1)" by fastforce
  obtain L1 where L1: "ledger t1 = Some L1" "store_inv o1 L1"
    using store_exec [OF Cons.prems(1,2) assms _ s1] Cons.prems(3) by auto
  show ?case by (rule Cons.IH [OF L1(2,1)]) (use Cons.prems s1 in simp_all)
qed auto

text \<open>
  (C6) Resource safety over any program on Umem objects: whatever sequence of constructions (each may
  fail in mmap or in xsk_umem__create), move constructions, move assignments (self-assignment
  included) and destructions runs, no call misuses the interface (no double unmap or delete, no
  unmap under a live UMEM), and the live mappings and UMEMs are exactly those owned by the live
  objects, each by one object only. With no object left nothing is leaked.
\<close>

theorem umem_lifecycle:
  assumes "env_laws env" "heap_serves env B" "\<forall>op \<in> set ops. op_fits B op"
    and "umem_session env f0 c0 ops = (objs, tr)"
  shows "\<exists>L. ledger tr = Some L \<and> maps L = owned_maps objs \<and> umems L = owned_umems objs \<and> separate objs \<and>
    (objs = Map.empty \<longrightarrow> L = no_resources)"
proof -
  obtain L where "ledger tr = Some L" "store_inv objs L"
    using store_session [OF assms(1,2) store_empty _ assms(3), of "[]" f0 c0 objs tr] assms(4)
    by (auto simp: umem_session_def)
  then show ?thesis by (auto simp: store_inv_def no_resources_def owned_empty)
qed

lemma demo_session: "umem_session (small_env 100 () () () ()) () () demo_ops = (Map.empty, demo_trace)"
  unfolding demo_ops_def tiny_cfg_def demo_trace_def
  by (simp add: umem_session_def umem_eval fill_free_list_eq tiny_size [simplified])

lemma small_env_heap: "heap_serves (small_env lim f c r t) (2 ^ 37)"
  by (simp add: heap_serves_def small_env_def)

theorem umem_lifecycle_witness:
  "umem_session (small_env 100 () () () ()) () () demo_ops = (Map.empty, demo_trace) \<and>
   ledger demo_trace = Some no_resources"
proof -
  have "\<forall>op \<in> set demo_ops. op_fits (2 ^ 37) op" by (simp add: demo_ops_def op_fits_def tiny_cfg_def)
  from umem_lifecycle [OF small_env_laws small_env_heap this demo_session] demo_session show ?thesis by auto
qed

text \<open>
  (C25) Failure of the constructor. When mmap or xsk_umem__create fails, every resource acquired on
  the way has been given back, so the exception leaks nothing; the mmap message reports 0 bytes
  whatever size was asked for. When reserving the free list throws instead, the mapping and the
  UMEM stay behind with no object to release them.
\<close>

theorem umem_constructor_failure:
  assumes "env_laws env" "ledger tr = Some L" "snd ` umems L \<subseteq> fst ` maps L"
    and "Umem_new env f0 c0 cfg tr = (Inl err, tr')"
  shows "case err of
      Mmap_failed n e \<Rightarrow> n = 0 \<and> tr' = tr
    | Umem_create_failed ret \<Rightarrow> ledger tr' = Some L
    | _ \<Rightarrow> \<exists>a n h. a \<noteq> 0 \<and> h \<noteq> 0 \<and> (a, n) \<notin> maps L \<and>
        ledger tr' = Some (L\<lparr>maps := insert (a, n) (maps L), umems := insert (h, a) (umems L)\<rparr>)"
  using assms(4)
proof (cases rule: Umem_new_cases)
  case mmap
  then show ?thesis by simp
next
  case (create a n hp e ret)
  note acq = umem_acquired [OF assms(1,2) create(3,2)]
  have "a \<notin> snd ` umems L" using acq(2) assms(3) by blast
  from map_unmap [OF acq(2) this assms(2)] have "ledger tr' = Some L"
    unfolding create(4) using acq(1) by (simp only: if_False)
  then show ?thesis using create(1) by simp
next
  case (heap a n hp e h f c xc err')
  note acq = umem_acquired [OF assms(1,2) heap(4,3)]
  have "(a, n) \<notin> maps L" using acq(2) by (metis fst_conv image_eqI)
  moreover have "h \<noteq> 0 \<and> ledger tr' = Some (L\<lparr>maps := insert (a, n) (maps L), umems := insert (h, a) (umems L)\<rparr>)"
    using acq(4) [OF heap(5)] heap(6) by simp
  ultimately have "\<exists>a n h. a \<noteq> 0 \<and> h \<noteq> 0 \<and> (a, n) \<notin> maps L \<and>
      ledger tr' = Some (L\<lparr>maps := insert (a, n) (maps L), umems := insert (h, a) (umems L)\<rparr>)"
    using acq(1) by blast
  then show ?thesis using heap(1,2) by (elim disjE) simp_all
qed simp

lemma wrapping_new:
  "Umem_new (small_env 100 () () () ()) () () wrapping_cfg [] = (Inl Length_error, [Umem_create 8192 4096, Mmap 4096 4096])"
proof -
  have "unat (2 ^ 60 + 1 :: u64) > 2 ^ 60 - 1" by simp
  moreover have "align_up (4096 * (2 ^ 60 + 1)) 4096 = 4096" by code_simp
  ultimately show ?thesis unfolding wrapping_cfg_def by (simp add: umem_eval)
qed

theorem umem_constructor_failure_witness:
  "Umem_new (small_env 100 () () () ()) () () wrapping_cfg [] = (Inl Length_error, [Umem_create 8192 4096, Mmap 4096 4096]) \<and>
   (\<exists>a n h. a \<noteq> 0 \<and> h \<noteq> 0 \<and> (a, n) \<notin> maps no_resources \<and>
     ledger [Umem_create 8192 4096, Mmap 4096 4096] = Some (no_resources\<lparr>maps := {(a, n)}, umems := {(h, a)}\<rparr>))"
  using umem_constructor_failure [OF small_env_laws _ _ wrapping_new, of no_resources] wrapping_new
  by (simp add: no_resources_def)

end
