(* ===== verification/Xdp_Socket.thy ===== *)
theory Xdp_Socket
  imports Umem
begin

text \<open>
  \<open>XdpSocket\<close> (\<open>include/ultrafast/xdp_socket.hpp\<close>, \<open>src/xdp_socket.cpp\<close>): creation, closing and moves on
  the traced environment, and the burst operations on the libxdp rings. The socket refers to its
  Umem by pointer: the operations that reach through it take the Umem as an argument and return it
  updated. A span or array argument is a list; writing past its end is None.
\<close>

section \<open>Data\<close>

record XdpSocketConfig =
  iface :: string
  queue_id :: u32
  rx_size :: u64
  tx_size :: u64
  xdp_flags :: u32
  bind_flags :: u16

text \<open>The kernel's \<open>struct xdp_desc\<close> (\<open>linux/if_xdp.h\<close>), and the descriptor handed to the user.\<close>

record xdp_desc =
  d_addr :: u64
  d_len :: u32
  d_options :: u32

record RxDesc =
  addr :: u64
  rx_len :: u32
  options :: u32

record ('r, 't) XdpSocket =
  sk_umem :: nat
  sk_cfg :: XdpSocketConfig
  socket :: u64
  rx_ring :: 'r
  tx_ring :: 't

text \<open>The exception of \<open>create_socket\<close>: interface, queue and return code printed by the message.\<close>

datatype socket_error = Socket_create_failed string u32 int

section \<open>Creation, closing, moves\<close>

definition create_socket ::
  "('f, 'c, 'r, 't) env \<Rightarrow> ('f, 'c) Umem \<Rightarrow> ('r, 't) XdpSocket \<Rightarrow> sys_event list
   \<Rightarrow> (socket_error + ('r, 't) XdpSocket) \<times> sys_event list" where
  "create_socket env u s tr =
     (let cfg = \<lparr>xs_rx_size = ucast (rx_size (sk_cfg s)), xs_tx_size = ucast (tx_size (sk_cfg s)),
            xs_xdp_flags = xdp_flags (sk_cfg s), xs_bind_flags = bind_flags (sk_cfg s), xs_libbpf_flags = 0\<rparr>
      in case env_socket env tr (iface (sk_cfg s)) (queue_id (sk_cfg s)) (umem u) cfg of
           Inl ret \<Rightarrow> (Inl (Socket_create_failed (iface (sk_cfg s)) (queue_id (sk_cfg s)) ret), tr)
         | Inr (h, r, t) \<Rightarrow> (Inr (s\<lparr>socket := h, rx_ring := r, tx_ring := t\<rparr>), Socket_create h (umem u) # tr))"

definition XdpSocket_new ::
  "('f, 'c, 'r, 't) env \<Rightarrow> 'r \<Rightarrow> 't \<Rightarrow> nat \<Rightarrow> ('f, 'c) Umem \<Rightarrow> XdpSocketConfig \<Rightarrow> sys_event list
   \<Rightarrow> (socket_error + ('r, 't) XdpSocket) \<times> sys_event list" where
  "XdpSocket_new env r0 t0 i u cfg tr =
     create_socket env u \<lparr>sk_umem = i, sk_cfg = cfg, socket = 0, rx_ring = r0, tx_ring = t0\<rparr> tr"

definition close_socket :: "('r, 't) XdpSocket \<Rightarrow> sys_event list \<Rightarrow> ('r, 't) XdpSocket \<times> sys_event list" where
  "close_socket s tr = (if socket s \<noteq> 0 then (s\<lparr>socket := 0\<rparr>, Socket_delete (socket s) # tr) else (s, tr))"

definition XdpSocket_destroy :: "('r, 't) XdpSocket \<Rightarrow> sys_event list \<Rightarrow> ('r, 't) XdpSocket \<times> sys_event list" where
  "XdpSocket_destroy s tr = close_socket s tr"

text \<open>The moved-from configuration has an empty interface name: its string was moved out.\<close>

definition socket_moved_from :: "('r, 't) XdpSocket \<Rightarrow> ('r, 't) XdpSocket" where
  "socket_moved_from other = other\<lparr>sk_cfg := (sk_cfg other)\<lparr>iface := []\<rparr>, socket := 0\<rparr>"

definition XdpSocket_move_new :: "('r, 't) XdpSocket \<Rightarrow> ('r, 't) XdpSocket \<times> ('r, 't) XdpSocket" where
  "XdpSocket_move_new other =
     (\<lparr>sk_umem = sk_umem other, sk_cfg = sk_cfg other, socket = socket other, rx_ring = rx_ring other,
       tx_ring = tx_ring other\<rparr>, socket_moved_from other)"

definition XdpSocket_move_assign ::
  "nat \<Rightarrow> nat \<Rightarrow> (nat \<rightharpoonup> ('r, 't) XdpSocket) \<Rightarrow> sys_event list \<Rightarrow> (nat \<rightharpoonup> ('r, 't) XdpSocket) \<times> sys_event list" where
  "XdpSocket_move_assign this other objs tr =
     (case (objs this, objs other) of
        (Some s, Some v) \<Rightarrow>
          if this \<noteq> other then
            let (s1, tr1) = close_socket s tr;
                s2 = s1\<lparr>sk_umem := sk_umem v, sk_cfg := sk_cfg v, socket := socket v, rx_ring := rx_ring v,
                       tx_ring := tx_ring v\<rparr>
            in (objs(this \<mapsto> s2, other \<mapsto> socket_moved_from v), tr1)
          else (objs, tr)
      | _ \<Rightarrow> (objs, tr))"

definition socket_fd :: "('f, 'c, 'r, 't) env \<Rightarrow> ('r, 't) XdpSocket \<Rightarrow> int" where
  "socket_fd env s = env_fd env (socket s)"

definition socket_valid :: "('r, 't) XdpSocket \<Rightarrow> bool" where
  "socket_valid s \<longleftrightarrow> socket s \<noteq> 0"

section \<open>Receive path\<close>

text \<open>\<open>store_loop\<close> is the loop that copies \<open>k\<close> ring entries into the output buffer from position \<open>i\<close> on.\<close>

fun store_loop :: "(nat \<Rightarrow> 'a) \<Rightarrow> nat \<Rightarrow> nat \<Rightarrow> 'a list \<Rightarrow> 'a list option" where
  "store_loop f i 0 buf = Some buf"
| "store_loop f i (Suc k) buf = (if i < length buf then store_loop f (Suc i) k (buf[i := f i]) else None)"

definition to_RxDesc :: "xdp_desc \<Rightarrow> RxDesc" where
  "to_RxDesc d = \<lparr>addr = d_addr d, rx_len = d_len d, options = d_options d\<rparr>"

definition rx_burst ::
  "('r, xdp_desc) cons_api \<Rightarrow> ('r, 't) XdpSocket \<Rightarrow> RxDesc list \<Rightarrow> (nat \<times> RxDesc list \<times> ('r, 't) XdpSocket) option" where
  "rx_burst api s out_descs =
     (let (rcvd, idx, r1) = cpeek api (rx_ring s) (of_nat (length out_descs)) 0
      in case store_loop (\<lambda>i. to_RxDesc (entry api r1 (idx + of_nat i))) 0 (unat rcvd) out_descs of
           None \<Rightarrow> None
         | Some out \<Rightarrow> Some (unat rcvd, out, s\<lparr>rx_ring := if rcvd > 0 then release api r1 rcvd else r1\<rparr>))"

definition rx_release :: "('f, u64) prod_api \<Rightarrow> ('f, 'c) Umem \<Rightarrow> RxDesc list \<Rightarrow> ('f, 'c) Umem" where
  "rx_release api u descs =
     (if descs = [] then u
      else let (reserved, idx, r1) = reserve api (fill_ring u) (of_nat (length descs)) 0;
               r2 = put_loop api idx (\<lambda>i. addr (descs ! i)) 0 (unat reserved) r1
           in u\<lparr>fill_ring := submit api r2 reserved\<rparr>)"

section \<open>Transmit path\<close>

definition tx_burst ::
  "('t, xdp_desc) prod_api \<Rightarrow> ('r, 't) XdpSocket \<Rightarrow> u64 list \<Rightarrow> u32 list \<Rightarrow> nat \<Rightarrow> nat \<times> ('r, 't) XdpSocket" where
  "tx_burst api s addrs lens cnt =
     (if cnt = 0 then (0, s)
      else let (reserved, idx, r1) = reserve api (tx_ring s) (of_nat cnt) 0;
               r2 = put_loop api idx (\<lambda>i. \<lparr>d_addr = addrs ! i, d_len = lens ! i, d_options = 0\<rparr>) 0 (unat reserved) r1;
               r3 = (if reserved > 0 then submit api r2 reserved else r2)
           in (unat reserved, s\<lparr>tx_ring := r3\<rparr>))"

definition tx_kick ::
  "('f, 'c, 'r, 't) env \<Rightarrow> ('t, xdp_desc) prod_api \<Rightarrow> ('r, 't) XdpSocket \<Rightarrow> sys_event list \<Rightarrow> sys_event list" where
  "tx_kick env api s tr = (if needs_wakeup api (tx_ring s) then Sendto (socket_fd env s) # tr else tr)"

definition tx_complete ::
  "('c, u64) cons_api \<Rightarrow> ('f, 'c) Umem \<Rightarrow> u64 list \<Rightarrow> nat \<Rightarrow> (nat \<times> u64 list \<times> ('f, 'c) Umem) option" where
  "tx_complete api u addrs max_count =
     (let (n, idx, r1) = cpeek api (comp_ring u) (of_nat max_count) 0
      in case store_loop (\<lambda>i. entry api r1 (idx + of_nat i)) 0 (unat n) addrs of
           None \<Rightarrow> None
         | Some out \<Rightarrow> Some (unat n, out, u\<lparr>comp_ring := if n > 0 then release api r1 n else r1\<rparr>))"

section \<open>Frames on the receive path\<close>

text \<open>
  The RX data path as a transition system. The kernel's part follows the AF\_XDP documentation: it takes
  addresses from the fill ring in order, each freeing one slot, and publishes a received frame as a
  descriptor whose address lies in the same UMEM chunk, possibly at an offset (headroom).
  \<open>flight\<close> are the addresses the kernel has taken and not yet published, \<open>held\<close> the descriptors the user is working on,
  from one burst or several.
\<close>

definition frame_no :: "('f, 'c) Umem \<Rightarrow> u64 \<Rightarrow> nat" where
  "frame_no u a = unat a div unat (frame_size (um_cfg u))"

record ('f, 'c, 'r, 't) rx_path =
  rp_umem :: "('f, 'c) Umem"
  rp_socket :: "('r, 't) XdpSocket"
  flight :: "u64 list"
  held :: "RxDesc list"

inductive rx_step ::
  "('f, u64) prod_api \<Rightarrow> ('f, u64) prod_view \<Rightarrow> ('r, xdp_desc) cons_api \<Rightarrow> ('r, xdp_desc) cons_view
   \<Rightarrow> ('f, 'c, 'r, 't) rx_path \<Rightarrow> ('f, 'c, 'r, 't) rx_path \<Rightarrow> bool"
  for fapi fv rapi rv where
  kernel_take:
    "queued fv (fill_ring (rp_umem p)) = a # queued fv f' \<Longrightarrow> staged fv f' = [] \<Longrightarrow>
     space fv f' = Suc (space fv (fill_ring (rp_umem p))) \<Longrightarrow>
     rx_step fapi fv rapi rv p (p\<lparr>rp_umem := (rp_umem p)\<lparr>fill_ring := f'\<rparr>, flight := flight p @ [a]\<rparr>)"
| kernel_publish:
    "flight p = as @ a # bs \<Longrightarrow> frame_no (rp_umem p) (d_addr d) = frame_no (rp_umem p) a \<Longrightarrow>
     avail rv r' = avail rv (rx_ring (rp_socket p)) @ [d] \<Longrightarrow> peeked rv r' = 0 \<Longrightarrow>
     rx_step fapi fv rapi rv p (p\<lparr>rp_socket := (rp_socket p)\<lparr>rx_ring := r'\<rparr>, flight := as @ bs\<rparr>)"
| user_burst:
    "length (held p) + length out < 2 ^ 32 \<Longrightarrow> rx_burst rapi (rp_socket p) out = Some (n, out', s') \<Longrightarrow>
     rx_step fapi fv rapi rv p (p\<lparr>rp_socket := s', held := held p @ take n out'\<rparr>)"
| user_release:
    "rx_step fapi fv rapi rv p (p\<lparr>rp_umem := rx_release fapi (rp_umem p) (held p), held := []\<rparr>)"

definition frames_in :: "('f, u64) prod_view \<Rightarrow> ('r, xdp_desc) cons_view \<Rightarrow> ('f, 'c, 'r, 't) rx_path \<Rightarrow> nat multiset" where
  "frames_in fv rv p = image_mset (frame_no (rp_umem p))
     (mset (queued fv (fill_ring (rp_umem p))) + mset (flight p) +
      mset (map d_addr (avail rv (rx_ring (rp_socket p)))) + mset (map addr (held p)))"

definition rx_path_inv :: "('f, u64) prod_view \<Rightarrow> ('r, xdp_desc) cons_view \<Rightarrow> nat multiset \<Rightarrow> ('f, 'c, 'r, 't) rx_path \<Rightarrow> bool" where
  "rx_path_inv fv rv M p \<longleftrightarrow> frames_in fv rv p = M \<and> staged fv (fill_ring (rp_umem p)) = [] \<and>
     peeked rv (rx_ring (rp_socket p)) = 0 \<and> length (held p) < 2 ^ 32 \<and>
     size M \<le> space fv (fill_ring (rp_umem p)) + length (queued fv (fill_ring (rp_umem p)))"

text \<open>
  The transmit path likewise: the user allocates frames, sends some of the frames it holds, and reclaims
  completed ones into the free list; the kernel takes descriptors from the TX ring and reports their
  addresses on the completion ring, in any order.
\<close>

record ('f, 'c, 'r, 't) tx_path =
  tp_umem :: "('f, 'c) Umem"
  tp_socket :: "('r, 't) XdpSocket"
  tp_held :: "u64 list"
  tp_flight :: "u64 list"

inductive tx_step ::
  "('t, xdp_desc) prod_api \<Rightarrow> ('t, xdp_desc) prod_view \<Rightarrow> ('c, u64) cons_api \<Rightarrow> ('c, u64) cons_view
   \<Rightarrow> ('f, 'c, 'r, 't) tx_path \<Rightarrow> ('f, 'c, 'r, 't) tx_path \<Rightarrow> bool"
  for tapi tv capi cv where
  user_alloc:
    "alloc_frame (tp_umem p) = (a, u') \<Longrightarrow> a \<noteq> - 1 \<Longrightarrow>
     tx_step tapi tv capi cv p (p\<lparr>tp_umem := u', tp_held := tp_held p @ [a]\<rparr>)"
| user_send:
    "tp_held p = addrs @ rest \<Longrightarrow> length lens = length addrs \<Longrightarrow> length addrs < 2 ^ 32 \<Longrightarrow>
     tx_burst tapi (tp_socket p) addrs lens (length addrs) = (n, s') \<Longrightarrow>
     tx_step tapi tv capi cv p (p\<lparr>tp_socket := s', tp_held := drop n addrs @ rest\<rparr>)"
| kernel_send:
    "queued tv (tx_ring (tp_socket p)) = d # queued tv t' \<Longrightarrow> staged tv t' = [] \<Longrightarrow>
     tx_step tapi tv capi cv p (p\<lparr>tp_socket := (tp_socket p)\<lparr>tx_ring := t'\<rparr>, tp_flight := tp_flight p @ [d_addr d]\<rparr>)"
| kernel_complete:
    "tp_flight p = as @ a # bs \<Longrightarrow> avail cv c' = avail cv (comp_ring (tp_umem p)) @ [a] \<Longrightarrow> peeked cv c' = 0 \<Longrightarrow>
     tx_step tapi tv capi cv p (p\<lparr>tp_umem := (tp_umem p)\<lparr>comp_ring := c'\<rparr>, tp_flight := as @ bs\<rparr>)"
| user_reclaim:
    "length buf < 2 ^ 32 \<Longrightarrow> tx_complete capi (tp_umem p) buf (length buf) = Some (n, out, u') \<Longrightarrow>
     tx_step tapi tv capi cv p (p\<lparr>tp_umem := fold (\<lambda>a u. free_frame u a) (take n out) u'\<rparr>)"

definition tx_frames :: "('t, xdp_desc) prod_view \<Rightarrow> ('c, u64) cons_view \<Rightarrow> ('f, 'c, 'r, 't) tx_path \<Rightarrow> u64 multiset" where
  "tx_frames tv cv p = mset (free_frames (tp_umem p)) + mset (tp_held p) +
     mset (map d_addr (queued tv (tx_ring (tp_socket p)))) + mset (tp_flight p) + mset (avail cv (comp_ring (tp_umem p)))"

definition tx_path_inv :: "('t, xdp_desc) prod_view \<Rightarrow> ('c, u64) cons_view \<Rightarrow> u64 multiset \<Rightarrow> ('f, 'c, 'r, 't) tx_path \<Rightarrow> bool" where
  "tx_path_inv tv cv M p \<longleftrightarrow> tx_frames tv cv p = M \<and> staged tv (tx_ring (tp_socket p)) = [] \<and>
     peeked cv (comp_ring (tp_umem p)) = 0"

text \<open>Small concrete rings, sockets and runs, used by the witnesses.\<close>

definition empty_lring :: "u32 \<Rightarrow> nat \<Rightarrow> 'd lring" where
  "empty_lring i n = \<lparr>lr_queued = [], lr_staged = [], lr_next = i, lr_space = n\<rparr>"

definition lcons_of :: "u32 \<Rightarrow> 'd list \<Rightarrow> 'd lcons" where
  "lcons_of i ds = \<lparr>lc_avail = ds, lc_peeked = 0, lc_base = i\<rparr>"

definition tiny_socket :: "'r \<Rightarrow> 't \<Rightarrow> ('r, 't) XdpSocket" where
  "tiny_socket r t = \<lparr>sk_umem = 0, sk_cfg = \<lparr>iface = ''veth1'', queue_id = 0, rx_size = 2048, tx_size = 2048,
     xdp_flags = 2, bind_flags = 2\<rparr>, socket = 12288, rx_ring = r, tx_ring = t\<rparr>"

definition blank_desc :: xdp_desc where
  "blank_desc = \<lparr>d_addr = 0, d_len = 0, d_options = 0\<rparr>"

definition demo_desc :: "u64 \<Rightarrow> xdp_desc" where
  "demo_desc a = \<lparr>d_addr = a, d_len = 64, d_options = 0\<rparr>"

definition blank_rx :: RxDesc where
  "blank_rx = \<lparr>addr = 0, rx_len = 0, options = 0\<rparr>"

definition rx_demo :: "nat \<Rightarrow> (u64 lring, unit, xdp_desc lcons, unit) rx_path" where
  "rx_demo k = \<lparr>
     rp_umem = (if k = 0 then populate_fill_ring (lring_prod 0) (tiny_umem (empty_lring 7 2) ())
       else tiny_umem \<lparr>lr_queued = [2048], lr_staged = [], lr_next = 7, lr_space = 1\<rparr> ()),
     rp_socket = tiny_socket (lcons_of (if k = 3 then 1 else 0) (if k = 2 then [demo_desc 256] else [])) (),
     flight = (if k = 1 then [0] else []),
     held = (if k = 3 then [to_RxDesc (demo_desc 256)] else [])\<rparr>"

definition tx_demo :: "nat \<Rightarrow> (unit, u64 lcons, unit, xdp_desc lring) tx_path" where
  "tx_demo k = \<lparr>
     tp_umem = (tiny_umem () (lcons_of 0 (if k = 4 then [6144] else [])))\<lparr>free_frames := if k = 0 then [0, 2048, 4096, 6144] else [0, 2048, 4096]\<rparr>,
     tp_socket = tiny_socket () \<lparr>lr_queued = (if k = 2 then [demo_desc 6144] else []), lr_staged = [], lr_next = (if k < 2 then 7 else 8), lr_space = (if k < 2 then 2 else 1)\<rparr>,
     tp_held = (if k = 1 then [6144] else []),
     tp_flight = (if k = 3 then [6144] else [])\<rparr>"

section \<open>Lemmas and properties\<close>

lemma store_loop_fill:
  "i + k \<le> length buf \<Longrightarrow> store_loop f i k buf = Some (take i buf @ map f [i..<i + k] @ drop (i + k) buf)"
proof (induction k arbitrary: i buf)
  case (Suc k)
  have "take (Suc i) (buf[i := f i]) = take i buf @ [f i]" using Suc.prems
    by (simp add: take_Suc_conv_app_nth)
  moreover have "[i..<i + Suc k] = i # [Suc i..<Suc i + k]" by (simp add: upt_conv_Cons)
  ultimately show ?case using Suc by (simp add: drop_update_cancel)
qed simp

lemma get_loop_conv: "map (\<lambda>i. g (entry api r (idx + of_nat i))) [0..<k] = map g (get_loop api idx k r)"
  by (simp add: get_loop_def)

lemma burst_front:
  assumes laws: "cons_laws api v" and pk: "peeked v r = 0" and n: "length buf < 2 ^ 32"
    and c: "cpeek api r (of_nat (length buf)) i = (k, idx, r1)"
  shows "store_loop (\<lambda>i. g (entry api r1 (idx + of_nat i))) 0 (unat k) buf
      = Some (map g (take (unat k) (avail v r)) @ drop (unat k) buf)"
    "unat k \<le> length buf" "unat k \<le> length (avail v r)" "avail v r \<noteq> [] \<Longrightarrow> buf \<noteq> [] \<Longrightarrow> 0 < unat k"
    "avail v (if k > 0 then release api r1 k else r1) = drop (unat k) (avail v r)"
    "peeked v (if k > 0 then release api r1 k else r1) = 0"
proof -
  have len: "unat (of_nat (length buf) :: u32) = length buf" by (rule unat_of_nat_u32 [OF n])
  note P = peek_law [OF laws pk c] and F = consume_front [OF laws pk c]
  show le: "unat k \<le> length buf" using P(1) len by simp
  show "store_loop (\<lambda>i. g (entry api r1 (idx + of_nat i))) 0 (unat k) buf
      = Some (map g (take (unat k) (avail v r)) @ drop (unat k) buf)"
    using store_loop_fill [of 0 "unat k" buf] le F(1) by (simp add: get_loop_conv)
  show "unat k \<le> length (avail v r)" by (rule P(2))
  show "0 < unat k" if "avail v r \<noteq> []" "buf \<noteq> []"
  proof -
    have "(of_nat (length buf) :: u32) \<noteq> 0" using len that(2) by (metis length_0_conv unat_0)
    then show ?thesis using P(3) that(1) by (simp add: unat_gt_0)
  qed
  show "avail v (if k > 0 then release api r1 k else r1) = drop (unat k) (avail v r)"
    "peeked v (if k > 0 then release api r1 k else r1) = 0" by (rule F)+
qed

text \<open>
  A receive burst never writes past the caller's span: it takes some number n of published
  descriptors, at least one if there is one and the span is not empty, writes exactly them in order at the front of
  the span, leaves the rest of the span alone, and releases exactly those ring entries.
\<close>

theorem rx_burst_spec:
  assumes "cons_laws api v" "peeked v (rx_ring s) = 0" "length out < 2 ^ 32"
  shows "\<exists>n out' s'. rx_burst api s out = Some (n, out', s') \<and>
    n \<le> length out \<and> n \<le> length (avail v (rx_ring s)) \<and> (avail v (rx_ring s) \<noteq> [] \<and> out \<noteq> [] \<longrightarrow> 0 < n) \<and>
    out' = map to_RxDesc (take n (avail v (rx_ring s))) @ drop n out \<and>
    avail v (rx_ring s') = drop n (avail v (rx_ring s)) \<and> peeked v (rx_ring s') = 0"
proof -
  obtain k idx r1 where c: "cpeek api (rx_ring s) (of_nat (length out)) 0 = (k, idx, r1)" using prod_cases3 by blast
  note B = burst_front [OF assms c]
  show ?thesis
    by (rule exI [of _ "unat k"]) (use B in \<open>simp add: rx_burst_def c\<close>)
qed

lemma rx_burst_defined:
  assumes "cons_laws api v" "peeked v (rx_ring s) = 0" "length out < 2 ^ 32"
  shows "\<exists>n out' s'. rx_burst api s out = Some (n, out', s')"
proof -
  obtain k idx r1 where c: "cpeek api (rx_ring s) (of_nat (length out)) 0 = (k, idx, r1)" using prod_cases3 by blast
  show ?thesis using burst_front(1) [OF assms c] by (simp add: rx_burst_def c)
qed

lemma rx_burst_eq:
  assumes "cons_laws api v" "peeked v (rx_ring s) = 0" "length out < 2 ^ 32" "rx_burst api s out = Some (n, out', s')"
  shows "n \<le> length out" "n \<le> length (avail v (rx_ring s))" "take n out' = map to_RxDesc (take n (avail v (rx_ring s)))"
    "avail v (rx_ring s') = drop n (avail v (rx_ring s))" "peeked v (rx_ring s') = 0" "length out' = length out"
    "n = 0 \<Longrightarrow> out \<noteq> [] \<Longrightarrow> avail v (rx_ring s) = []"
proof -
  obtain k idx r1 where c: "cpeek api (rx_ring s) (of_nat (length out)) 0 = (k, idx, r1)" using prod_cases3 by blast
  note B = burst_front [OF assms(1-3) c]
  have n: "n = unat k" and out': "out' = map to_RxDesc (take n (avail v (rx_ring s))) @ drop n out"
    and r: "rx_ring s' = (if k > 0 then release api r1 k else r1)"
    using assms(4) c B(1) [where g = to_RxDesc] by (auto simp: rx_burst_def)
  show "n \<le> length out" "n \<le> length (avail v (rx_ring s))" "take n out' = map to_RxDesc (take n (avail v (rx_ring s)))"
    "avail v (rx_ring s') = drop n (avail v (rx_ring s))" "peeked v (rx_ring s') = 0" "length out' = length out"
    "n = 0 \<Longrightarrow> out \<noteq> [] \<Longrightarrow> avail v (rx_ring s) = []"
    using B(2-6) unfolding n out' r by (auto simp: min_def)
qed

lemma rx_release_queue:
  assumes "prod_laws api v" "staged v (fill_ring u) = []" "length descs < 2 ^ 32"
  shows "queued v (fill_ring (rx_release api u descs)) =
      queued v (fill_ring u) @ (if length descs \<le> space v (fill_ring u) then map addr descs else [])"
    "staged v (fill_ring (rx_release api u descs)) = []"
    "space v (fill_ring (rx_release api u descs)) =
      space v (fill_ring u) - (if length descs \<le> space v (fill_ring u) then length descs else 0)"
    "um_cfg (rx_release api u descs) = um_cfg u" 
proof -
  have len: "unat (of_nat (length descs) :: u32) = length descs" by (rule unat_of_nat_u32 [OF assms(3)])
  obtain k idx r1 where r: "reserve api (fill_ring u) (of_nat (length descs)) 0 = (k, idx, r1)" using prod_cases3 by blast
  let ?r = "submit api (put_loop api idx (\<lambda>i. addr (descs ! i)) 0 (unat k) r1) k"
  have fr: "fill_ring (rx_release api u descs) = (if descs = [] then fill_ring u else ?r)"
    using r by (simp add: rx_release_def)
  show "um_cfg (rx_release api u descs) = um_cfg u" using r by (simp add: rx_release_def)
  have "queued v ?r = queued v (fill_ring u) @ (if length descs \<le> space v (fill_ring u) then map addr descs else []) \<and>
      staged v ?r = [] \<and> space v ?r = space v (fill_ring u) - (if length descs \<le> space v (fill_ring u) then length descs else 0)"
  proof (cases "length descs \<le> space v (fill_ring u)")
    case True
    have "map (\<lambda>i. addr (descs ! i)) [0..<length descs] = map addr descs"
      by (rule nth_equalityI) simp_all
    then show ?thesis using True produce_all [OF assms(1,2), where n = "of_nat (length descs)" and i = 0
        and f = "\<lambda>i. addr (descs ! i)", unfolded r len prod.case, OF True, THEN conjunct2] by simp
  next
    case False
    then have "reserve api (fill_ring u) (of_nat (length descs)) 0 = (0, 0, fill_ring u)"
      using reserve_none [OF assms(1,2)] len by simp
    then have "k = 0" "r1 = fill_ring u" using r by simp_all
    then show ?thesis using False submit_law [OF assms(1), of 0 "fill_ring u"] assms(2) by simp
  qed
  then show "queued v (fill_ring (rx_release api u descs)) =
      queued v (fill_ring u) @ (if length descs \<le> space v (fill_ring u) then map addr descs else [])"
    "staged v (fill_ring (rx_release api u descs)) = []"
    "space v (fill_ring (rx_release api u descs)) =
      space v (fill_ring u) - (if length descs \<le> space v (fill_ring u) then length descs else 0)"
    unfolding fr using assms(2) by auto
qed

lemma tx_burst_queue:
  assumes "prod_laws api v" "staged v (tx_ring s) = []" "length lens = length addrs" "length addrs < 2 ^ 32"
    and "tx_burst api s addrs lens (length addrs) = (n, s')"
  shows "n = (if length addrs \<le> space v (tx_ring s) then length addrs else 0)"
    "queued v (tx_ring s') = queued v (tx_ring s) @
      map (\<lambda>(a, l). \<lparr>d_addr = a, d_len = l, d_options = 0\<rparr>) (take n (zip addrs lens))"
    "staged v (tx_ring s') = []"
proof -
  let ?f = "\<lambda>i. \<lparr>d_addr = addrs ! i, d_len = lens ! i, d_options = 0\<rparr>"
  have len: "unat (of_nat (length addrs) :: u32) = length addrs" by (rule unat_of_nat_u32 [OF assms(4)])
  obtain k idx r1 where r: "reserve api (tx_ring s) (of_nat (length addrs)) 0 = (k, idx, r1)" using prod_cases3 by blast
  let ?r = "put_loop api idx ?f 0 (unat k) r1"
  have k0: "k > 0 \<longleftrightarrow> 0 < unat k" by (simp add: word_less_nat_alt)
  have st: "n = (if addrs = [] then 0 else unat k)"
    "tx_ring s' = (if addrs = [] then tx_ring s else if k > 0 then submit api ?r k else ?r)"
    using assms(5) r by (auto simp: tx_burst_def Let_def)
  have goal: "n = (if length addrs \<le> space v (tx_ring s) then length addrs else 0) \<and>
      queued v (tx_ring s') = queued v (tx_ring s) @
        map (\<lambda>(a, l). \<lparr>d_addr = a, d_len = l, d_options = 0\<rparr>) (take n (zip addrs lens)) \<and> staged v (tx_ring s') = []"
  proof (cases "length addrs \<le> space v (tx_ring s)")
    case True
    have m: "map ?f [0..<length addrs] = map (\<lambda>(a, l). \<lparr>d_addr = a, d_len = l, d_options = 0\<rparr>) (zip addrs lens)"
      by (rule nth_equalityI) (simp_all add: assms(3))
    note P = produce_all [OF assms(1,2), where n = "of_nat (length addrs)" and i = 0 and f = ?f, unfolded r len prod.case, OF True]
    have "unat k = length addrs" using P len by simp
    then show ?thesis using P [THEN conjunct2] True st m assms(2,3) k0 by (cases "addrs = []") simp_all
  next
    case False
    then have "reserve api (tx_ring s) (of_nat (length addrs)) 0 = (0, 0, tx_ring s)"
      using reserve_none [OF assms(1,2)] len by simp
    then have "k = 0" "r1 = tx_ring s" using r by simp_all
    then show ?thesis using False st assms(2) by simp
  qed
  then show "n = (if length addrs \<le> space v (tx_ring s) then length addrs else 0)"
    "queued v (tx_ring s') = queued v (tx_ring s) @
      map (\<lambda>(a, l). \<lparr>d_addr = a, d_len = l, d_options = 0\<rparr>) (take n (zip addrs lens))"
    "staged v (tx_ring s') = []" by blast+
qed

lemma tx_complete_eq:
  assumes "cons_laws api v" "peeked v (comp_ring u) = 0" "length buf < 2 ^ 32"
    and "tx_complete api u buf (length buf) = Some (n, out, u')"
  shows "take n out = take n (avail v (comp_ring u))" "avail v (comp_ring u') = drop n (avail v (comp_ring u))"
    "peeked v (comp_ring u') = 0" "free_frames u' = free_frames u"
proof -
  obtain k idx r1 where c: "cpeek api (comp_ring u) (of_nat (length buf)) 0 = (k, idx, r1)" using prod_cases3 by blast
  note B = burst_front [OF assms(1-3) c]
  have n: "n = unat k" and out: "out = take n (avail v (comp_ring u)) @ drop n buf"
    and r: "comp_ring u' = (if k > 0 then release api r1 k else r1)" and "free_frames u' = free_frames u"
    using assms(4) c B(1) [where g = "\<lambda>x. x"] by (auto simp: tx_complete_def)
  then show "take n out = take n (avail v (comp_ring u))" "avail v (comp_ring u') = drop n (avail v (comp_ring u))"
    "peeked v (comp_ring u') = 0" "free_frames u' = free_frames u"
    using B(3,5,6) unfolding n out r by simp_all
qed

lemma fold_free: "free_frames (fold (\<lambda>a u. free_frame u a) xs u) = free_frames u @ xs"
  "comp_ring (fold (\<lambda>a u. free_frame u a) xs u) = comp_ring u"
  by (induction xs arbitrary: u) (simp_all add: free_frame_def)

lemma frame_no_ring [simp]: "frame_no (u\<lparr>fill_ring := f\<rparr>) = frame_no u" "frame_no (u\<lparr>comp_ring := c\<rparr>) = frame_no u"
  by (rule ext, simp add: frame_no_def)+

lemma frame_no_cfg: "um_cfg u = um_cfg w \<Longrightarrow> frame_no u = frame_no w"
  by (rule ext) (simp add: frame_no_def)

lemma mset_take_drop: "mset (take n xs) + mset (drop n xs) = mset xs"
  by (metis append_take_drop_id mset_append)

lemma mset_map_split: "mset (map f xs) = mset (map f (drop n xs)) + mset (map f (take n xs))"
  using mset_take_drop [of n "map f xs"] by (simp add: take_map drop_map add.commute)

lemma rx_step_inv:
  assumes laws: "prod_laws fapi fv" "cons_laws rapi rv" and inv: "rx_path_inv fv rv M p" and step: "rx_step fapi fv rapi rv p q"
  shows "rx_path_inv fv rv M q"
  using step
proof cases
  case (kernel_take a f')
  then show ?thesis using inv by (simp add: rx_path_inv_def frames_in_def)
next
  case (kernel_publish as a bs d r')
  then show ?thesis using inv by (simp add: rx_path_inv_def frames_in_def)
next
  case (user_burst out n out' s')
  have pk: "peeked rv (rx_ring (rp_socket p)) = 0" using inv by (simp add: rx_path_inv_def)
  have len: "length out < 2 ^ 32" using user_burst(2) by simp
  note B = rx_burst_eq [OF laws(2) pk len user_burst(3)]
  have "map addr (take n out') = map d_addr (take n (avail rv (rx_ring (rp_socket p))))"
    unfolding B(3) by (simp add: to_RxDesc_def)
  moreover have "mset (map d_addr (avail rv (rx_ring (rp_socket p)))) =
      mset (map d_addr (drop n (avail rv (rx_ring (rp_socket p))))) + mset (map d_addr (take n (avail rv (rx_ring (rp_socket p)))))"
    by (rule mset_map_split)
  ultimately have "frames_in fv rv q = frames_in fv rv p"
    using user_burst(1) B(4) by (simp add: frames_in_def)
  then show ?thesis using user_burst(1,2) inv B(1,5,6) by (simp add: rx_path_inv_def)
next
  case user_release
  let ?u = "rp_umem p"
  have st: "staged fv (fill_ring ?u) = []" and len: "length (held p) < 2 ^ 32"
    and M: "frames_in fv rv p = M" and room: "size M \<le> space fv (fill_ring ?u) + length (queued fv (fill_ring ?u))"
    using inv by (simp_all add: rx_path_inv_def)
  have fits: "length (held p) \<le> space fv (fill_ring ?u)"
    using room unfolding M [symmetric] by (simp add: frames_in_def)
  note R = rx_release_queue [OF laws(1) st len]
  have "frames_in fv rv q = frames_in fv rv p"
    using user_release fits R(1) frame_no_cfg [OF R(4)] by (simp add: frames_in_def)
  then show ?thesis using user_release inv R fits by (simp add: rx_path_inv_def)
qed

lemma rx_steps_inv:
  "(rx_step fapi fv rapi rv)\<^sup>*\<^sup>* p q \<Longrightarrow> prod_laws fapi fv \<Longrightarrow> cons_laws rapi rv \<Longrightarrow> rx_path_inv fv rv M p \<Longrightarrow>
   rx_path_inv fv rv M q"
  by (induction rule: rtranclp_induct) (auto intro: rx_step_inv)

lemma primed_frame_nos:
  assumes "cfg_ok (um_cfg u)" 
  shows "map (frame_no u) (take (primed (um_cfg u)) (frames (um_cfg u))) = [0..<primed (um_cfg u)]"
proof (rule nth_equalityI)
  have p: "primed (um_cfg u) \<le> length (frames (um_cfg u))" by (simp add: primed_def)
  then show "length (map (frame_no u) (take (primed (um_cfg u)) (frames (um_cfg u)))) = length [0..<primed (um_cfg u)]"
    by simp
  fix i assume "i < length (map (frame_no u) (take (primed (um_cfg u)) (frames (um_cfg u))))"
  then have i: "i < primed (um_cfg u)" "i < length (frames (um_cfg u))" by simp_all
  have "0 < unat (frame_size (um_cfg u))" using assms by (simp add: cfg_ok_def unat_gt_0 word_neq_0_conv)
  then show "map (frame_no u) (take (primed (um_cfg u)) (frames (um_cfg u))) ! i = [0..<primed (um_cfg u)] ! i"
    using i frames_nth(1) [OF assms i(2)] by (simp add: frame_no_def)
qed

text \<open>
  (C5) No receive frame is ever lost or duplicated. From a primed UMEM with an idle socket, under any interleaving of the
  kernel (taking frames from the fill ring, publishing received ones, possibly at an offset inside the frame) and the user
  (receive bursts and releases), every primed frame is at every moment in exactly one place: fill ring, kernel,
  RX ring or user. In particular the all-or-nothing reservation of rx_release never fails.
\<close>

theorem rx_frames_conserved:
  assumes "prod_laws fapi fv" "cons_laws rapi rv" "cfg_ok (um_cfg u)" "primed (um_cfg u) < 2 ^ 32"
    "queued fv (fill_ring u) = []" "staged fv (fill_ring u) = []" "primed (um_cfg u) \<le> space fv (fill_ring u)"
    "avail rv (rx_ring s) = []" "peeked rv (rx_ring s) = 0"
    and "(rx_step fapi fv rapi rv)\<^sup>*\<^sup>*
      \<lparr>rp_umem = populate_fill_ring fapi u, rp_socket = s, flight = [], held = []\<rparr> q"
  shows "frames_in fv rv q = mset [0..<primed (um_cfg u)] \<and>
    length (held q) \<le> space fv (fill_ring (rp_umem q))"
proof -
  note P = populate_queue [OF assms(1,6,4,7)]
  have cfg: "um_cfg (populate_fill_ring fapi u) = um_cfg u" by (simp add: populate_fill_ring_def split: prod.split)
  let ?p = "\<lparr>rp_umem = populate_fill_ring fapi u, rp_socket = s, flight = [], held = []\<rparr>"
  have "mset (map (frame_no u) (take (primed (um_cfg u)) (frames (um_cfg u)))) = mset [0..<primed (um_cfg u)]"
    unfolding primed_frame_nos [OF assms(3)] ..
  then have "frames_in fv rv ?p = mset [0..<primed (um_cfg u)]"
    using P assms(5,8) frame_no_cfg [OF cfg] by (simp add: frames_in_def)
  moreover have "primed (um_cfg u) \<le> length (frames (um_cfg u))" by (simp add: primed_def)
  ultimately have "rx_path_inv fv rv (mset [0..<primed (um_cfg u)]) ?p"
    using P assms(5,7-9) by (simp add: rx_path_inv_def)
  from rx_steps_inv [OF assms(10,1,2) this]
  have q: "frames_in fv rv q = mset [0..<primed (um_cfg u)]"
    "size (frames_in fv rv q) \<le> space fv (fill_ring (rp_umem q)) + length (queued fv (fill_ring (rp_umem q)))"
    by (simp_all add: rx_path_inv_def)
  moreover have "length (held q) + length (queued fv (fill_ring (rp_umem q))) \<le> size (frames_in fv rv q)"
    by (simp add: frames_in_def)
  ultimately show ?thesis by simp
qed

lemma tx_step_inv:
  assumes laws: "prod_laws tapi tv" "cons_laws capi cv" and ns: "- 1 \<notin># M"
    and inv: "tx_path_inv tv cv M p" and step: "tx_step tapi tv capi cv p q"
  shows "tx_path_inv tv cv M q"
  using step
proof cases
  case (user_alloc a u')
  have "- 1 \<notin> set (free_frames (tp_umem p))" using ns inv unfolding tx_path_inv_def tx_frames_def by auto
  note A = alloc_frame_mset [OF user_alloc(2) this]
  have "comp_ring u' = comp_ring (tp_umem p)" using user_alloc(2) by (auto simp: alloc_frame_def split: if_splits)
  then show ?thesis using user_alloc(1,3) A(4) inv by (simp add: tx_path_inv_def tx_frames_def)
next
  case (user_send addrs rest lens n s')
  have st: "staged tv (tx_ring (tp_socket p)) = []" using inv by (simp add: tx_path_inv_def)
  note T = tx_burst_queue [OF laws(1) st user_send(3-5)]
  have "map d_addr (map (\<lambda>(a, l). \<lparr>d_addr = a, d_len = l, d_options = 0\<rparr>) (take n (zip addrs lens))) = take n addrs"
    using user_send(3) by (simp add: comp_def case_prod_beta take_zip)
  then have "tx_frames tv cv q = tx_frames tv cv p"
    using user_send(1,2) T(2) by (simp add: tx_frames_def mset_take_drop [of n addrs, symmetric] ac_simps)
  then show ?thesis using user_send(1) inv T(3) by (simp add: tx_path_inv_def)
next
  case (kernel_send d t')
  then show ?thesis using inv by (simp add: tx_path_inv_def tx_frames_def)
next
  case (kernel_complete as a bs c')
  then show ?thesis using inv by (simp add: tx_path_inv_def tx_frames_def)
next
  case (user_reclaim buf n out u')
  have pk: "peeked cv (comp_ring (tp_umem p)) = 0" using inv by (simp add: tx_path_inv_def)
  note C = tx_complete_eq [OF laws(2) pk user_reclaim(2,3)]
  have "tx_frames tv cv q = tx_frames tv cv p"
    using user_reclaim(1) C mset_take_drop [of n "avail cv (comp_ring (tp_umem p))", symmetric]
    by (simp add: tx_frames_def fold_free ac_simps)
  then show ?thesis using user_reclaim(1) inv C by (simp add: tx_path_inv_def fold_free)
qed

lemma tx_steps_inv:
  "(tx_step tapi tv capi cv)\<^sup>*\<^sup>* p q \<Longrightarrow> prod_laws tapi tv \<Longrightarrow> cons_laws capi cv \<Longrightarrow> - 1 \<notin># M \<Longrightarrow>
   tx_path_inv tv cv M p \<Longrightarrow> tx_path_inv tv cv M q"
  by (induction rule: rtranclp_induct) (auto intro: tx_step_inv)

text \<open>
  (C15) No transmit frame is ever lost or duplicated: under any interleaving of allocations, transmit bursts
  (accepted or refused), kernel sends, completions and reclaims, every frame of the region is in exactly
  one place: free list, user, TX ring, kernel or completion ring. So the frames the user holds are
  distinct and none of them is free or with the kernel.
\<close>

theorem tx_frames_conserved:
  assumes "prod_laws tapi tv" "cons_laws capi cv" "cfg_ok (um_cfg u)" "free_frames u = frames (um_cfg u)"
    "avail cv (comp_ring u) = []" "peeked cv (comp_ring u) = 0" "queued tv (tx_ring s) = []" "staged tv (tx_ring s) = []"
    and "(tx_step tapi tv capi cv)\<^sup>*\<^sup>* \<lparr>tp_umem = u, tp_socket = s, tp_held = [], tp_flight = []\<rparr> q"
  shows "tx_frames tv cv q = mset (frames (um_cfg u)) \<and>
    distinct (tp_held q @ free_frames (tp_umem q) @ map d_addr (queued tv (tx_ring (tp_socket q))) @ tp_flight q @
      avail cv (comp_ring (tp_umem q)))"
proof -
  have "tx_path_inv tv cv (mset (frames (um_cfg u))) \<lparr>tp_umem = u, tp_socket = s, tp_held = [], tp_flight = []\<rparr>"
    using assms(4-8) by (simp add: tx_path_inv_def tx_frames_def)
  from tx_steps_inv [OF assms(9,1,2) _ this] frames_sentinel [OF assms(3)]
  have m: "tx_frames tv cv q = mset (frames (um_cfg u))" by (simp add: tx_path_inv_def)
  let ?all = "tp_held q @ free_frames (tp_umem q) @ map d_addr (queued tv (tx_ring (tp_socket q))) @ tp_flight q @
      avail cv (comp_ring (tp_umem q))"
  have "mset ?all = mset (frames (um_cfg u))" using m by (simp add: tx_frames_def ac_simps)
  then have "distinct ?all" using frames_distinct [OF assms(3)] mset_eq_imp_distinct_iff by blast
  with m show ?thesis by blast
qed

text \<open>
  (C32) Releasing a batch of received frames: when the fill ring has room for the whole batch it is appended
  in order; otherwise nothing is appended, and the batch is not retried, so its frames are gone from the receive path.
\<close>

theorem rx_release_spec:
  assumes "prod_laws api v" "staged v (fill_ring u) = []" "length descs < 2 ^ 32"
  shows "queued v (fill_ring (rx_release api u descs)) =
      queued v (fill_ring u) @ (if length descs \<le> space v (fill_ring u) then map addr descs else []) \<and>
    staged v (fill_ring (rx_release api u descs)) = [] \<and>
    free_frames (rx_release api u descs) = free_frames u"
  using rx_release_queue [OF assms] by (simp add: rx_release_def split: prod.split)

text \<open>
  A transmit burst is all or nothing: with room in the TX ring all count descriptors (address, length, options 0)
  are queued in order and count is returned; otherwise the ring is unchanged and 0 is returned.
\<close>

theorem tx_burst_spec:
  assumes "prod_laws api v" "staged v (tx_ring s) = []" "length lens = length addrs" "length addrs < 2 ^ 32"
  shows "\<exists>n s'. tx_burst api s addrs lens (length addrs) = (n, s') \<and>
    n = (if length addrs \<le> space v (tx_ring s) then length addrs else 0) \<and>
    map d_addr (queued v (tx_ring s')) = map d_addr (queued v (tx_ring s)) @ take n addrs \<and>
    map d_len (queued v (tx_ring s')) = map d_len (queued v (tx_ring s)) @ take n lens \<and>
    staged v (tx_ring s') = []"
proof -
  obtain n s' where t: "tx_burst api s addrs lens (length addrs) = (n, s')" by fastforce
  note T = tx_burst_queue [OF assms t]
  have "map d_addr (map (\<lambda>(a, l). \<lparr>d_addr = a, d_len = l, d_options = 0\<rparr>) (take n (zip addrs lens))) = take n addrs"
    "map d_len (map (\<lambda>(a, l). \<lparr>d_addr = a, d_len = l, d_options = 0\<rparr>) (take n (zip addrs lens))) = take n lens"
    using assms(3) by (simp_all add: comp_def case_prod_beta take_zip)
  then show ?thesis using t T by (simp add: T(2))
qed

lemma lring_views [simp]:
  "queued lring_prod_view (empty_lring i n) = []" "staged lring_prod_view (empty_lring i n) = []"
  "space lring_prod_view (empty_lring i n) = n" "avail lring_cons_view (lcons_of i ds) = ds"
  "peeked lring_cons_view (lcons_of i ds) = 0"
  by (simp_all add: lring_prod_view_def empty_lring_def lring_cons_view_def lcons_of_def)

lemma tiny_umem_sel [simp]:
  "fill_ring (tiny_umem f c) = f" "(tiny_umem f c)\<lparr>fill_ring := f'\<rparr> = tiny_umem f' c"
  "comp_ring (tiny_umem f c) = c" "(tiny_umem f c)\<lparr>comp_ring := c'\<rparr> = tiny_umem f c'"
  "um_cfg (tiny_umem f c) = tiny_cfg" "free_frames (tiny_umem f c) = [0, 2048, 4096, 6144]"
  by (simp_all add: tiny_umem_def)

lemma tiny_socket_sel [simp]:
  "rx_ring (tiny_socket r t) = r" "(tiny_socket r t)\<lparr>rx_ring := r'\<rparr> = tiny_socket r' t"
  "tx_ring (tiny_socket r t) = t" "(tiny_socket r t)\<lparr>tx_ring := t'\<rparr> = tiny_socket r t'"
  by (simp_all add: tiny_socket_def)

theorem rx_burst_spec_witness:
  "\<exists>n out' s'. rx_burst lring_cons (tiny_socket (lcons_of 4294967295 [demo_desc 256, demo_desc 2304]) ()) (replicate 64 blank_rx)
     = Some (n, out', s') \<and> 0 < n \<and> n \<le> 2 \<and> addr (out' ! 0) = 256"
proof -
  let ?s = "tiny_socket (lcons_of 4294967295 [demo_desc 256, demo_desc 2304]) ()"
  obtain n out' s' where R: "rx_burst lring_cons ?s (replicate 64 blank_rx) = Some (n, out', s')" "n \<le> 2" "0 < n"
    "out' = map to_RxDesc (take n [demo_desc 256, demo_desc 2304]) @ drop n (replicate 64 blank_rx)"
    using rx_burst_spec [OF lring_cons_laws, of ?s "replicate 64 blank_rx"] by (auto simp: tiny_socket_def)
  then have "addr (out' ! 0) = 256" by (cases n) (simp_all add: to_RxDesc_def demo_desc_def)
  with R show ?thesis by blast
qed

theorem rx_release_spec_witness:
  "queued lring_prod_view (fill_ring (rx_release (lring_prod 0) (tiny_umem (empty_lring 4294967295 2) ())
     [blank_rx\<lparr>addr := 256\<rparr>, blank_rx\<lparr>addr := 2304\<rparr>])) = [256, 2304] \<and>
   queued lring_prod_view (fill_ring (rx_release (lring_prod 0) (tiny_umem (empty_lring 4294967295 1) ())
     [blank_rx\<lparr>addr := 256\<rparr>, blank_rx\<lparr>addr := 2304\<rparr>])) = []"
  using rx_release_spec [OF lring_prod_laws, of "tiny_umem (empty_lring 4294967295 2) ()" "[blank_rx\<lparr>addr := 256\<rparr>, blank_rx\<lparr>addr := 2304\<rparr>]" 0]
    rx_release_spec [OF lring_prod_laws, of "tiny_umem (empty_lring 4294967295 1) ()" "[blank_rx\<lparr>addr := 256\<rparr>, blank_rx\<lparr>addr := 2304\<rparr>]" 0]
  by (simp add: tiny_umem_def)

theorem tx_burst_spec_witness:
  "\<exists>s'. tx_burst (lring_prod blank_desc) (tiny_socket () (empty_lring 7 2)) [0, 2048] [60, 61] (Suc (Suc 0)) = (Suc (Suc 0), s') \<and>
     map d_addr (queued lring_prod_view (tx_ring s')) = [0, 2048] \<and> map d_len (queued lring_prod_view (tx_ring s')) = [60, 61]"
  using tx_burst_spec [OF lring_prod_laws, of "tiny_socket () (empty_lring 7 2)" "[60, 61]" "[0, 2048]" blank_desc]
  by (auto simp: tiny_socket_def)

lemma rx_demo_steps:
  "rx_step (lring_prod 0) lring_prod_view lring_cons lring_cons_view (rx_demo 0) (rx_demo 1)"
  "rx_step (lring_prod 0) lring_prod_view lring_cons lring_cons_view (rx_demo 1) (rx_demo 2)"
  "rx_step (lring_prod 0) lring_prod_view lring_cons lring_cons_view (rx_demo 2) (rx_demo 3)"
proof -
  have pop: "populate_fill_ring (lring_prod 0) (tiny_umem (empty_lring 7 2) ()) =
     tiny_umem \<lparr>lr_queued = [0, 2048], lr_staged = [], lr_next = 9, lr_space = 0\<rparr> ()"
    by code_simp
  show "rx_step (lring_prod 0) lring_prod_view lring_cons lring_cons_view (rx_demo 0) (rx_demo 1)"
    using rx_step.kernel_take [of lring_prod_view "rx_demo 0" 0 "\<lparr>lr_queued = [2048], lr_staged = [], lr_next = 7, lr_space = 1\<rparr>"]
    by (simp add: rx_demo_def pop lring_prod_view_def)
  show "rx_step (lring_prod 0) lring_prod_view lring_cons lring_cons_view (rx_demo 1) (rx_demo 2)"
    using rx_step.kernel_publish [of "rx_demo 1" "[]" 0 "[]" "demo_desc 256" lring_cons_view "lcons_of 0 [demo_desc 256]"]
    by (simp add: rx_demo_def demo_desc_def frame_no_def tiny_umem_def tiny_cfg_def tiny_socket_def)
  show "rx_step (lring_prod 0) lring_prod_view lring_cons lring_cons_view (rx_demo 2) (rx_demo 3)"
    using rx_step.user_burst [of "rx_demo 2" "[blank_rx]" lring_cons 1 "[to_RxDesc (demo_desc 256)]" "rp_socket (rx_demo 3)"]
    by (simp add: rx_demo_def rx_burst_def lring_cons_def lcons_of_def tiny_socket_def)
qed

theorem rx_frames_conserved_witness:
  "(rx_step (lring_prod 0) lring_prod_view lring_cons lring_cons_view)\<^sup>*\<^sup>* (rx_demo 0) (rx_demo 3) \<and>
   held (rx_demo 3) \<noteq> [] \<and> frames_in lring_prod_view lring_cons_view (rx_demo 3) = mset [0..<2]"
proof -
  let ?u = "tiny_umem (empty_lring 7 2) () :: (u64 lring, unit) Umem" and ?s = "tiny_socket (lcons_of 0 []) ()"
  have steps: "(rx_step (lring_prod 0) lring_prod_view lring_cons lring_cons_view)\<^sup>*\<^sup>* (rx_demo 0) (rx_demo 3)"
    using rx_demo_steps by (meson converse_rtranclp_into_rtranclp rtranclp.rtrancl_refl)
  have p: "primed tiny_cfg = 2" by (simp add: primed_def tiny_cfg_def)
  have "rx_demo 0 = \<lparr>rp_umem = populate_fill_ring (lring_prod 0) ?u, rp_socket = ?s, flight = [], held = []\<rparr>"
    by (simp add: rx_demo_def)
  with rx_frames_conserved [OF lring_prod_laws lring_cons_laws, of ?u ?s 0 "rx_demo 3"] steps tiny_ok p
  have "frames_in lring_prod_view lring_cons_view (rx_demo 3) = mset [0..<2]" by simp
  then show ?thesis using steps by (simp add: rx_demo_def)
qed

lemma tx_demo_steps:
  "tx_step (lring_prod blank_desc) lring_prod_view lring_cons lring_cons_view (tx_demo 0) (tx_demo 1)"
  "tx_step (lring_prod blank_desc) lring_prod_view lring_cons lring_cons_view (tx_demo 1) (tx_demo 2)"
  "tx_step (lring_prod blank_desc) lring_prod_view lring_cons lring_cons_view (tx_demo 2) (tx_demo 3)"
  "tx_step (lring_prod blank_desc) lring_prod_view lring_cons lring_cons_view (tx_demo 3) (tx_demo 4)"
proof -
  show "tx_step (lring_prod blank_desc) lring_prod_view lring_cons lring_cons_view (tx_demo 0) (tx_demo 1)"
    using tx_step.user_alloc [of "tx_demo 0" 6144 "tp_umem (tx_demo 1)"]
    by (simp add: tx_demo_def alloc_frame_def)
  have b: "tx_burst (lring_prod blank_desc) (tp_socket (tx_demo 1)) [6144] [64] (Suc 0) = (1, tp_socket (tx_demo 2))"
    by (simp add: tx_burst_def lring_prod_def tx_demo_def demo_desc_def)
  show "tx_step (lring_prod blank_desc) lring_prod_view lring_cons lring_cons_view (tx_demo 1) (tx_demo 2)"
    using tx_step.user_send [of "tx_demo 1" "[6144]" "[]" "[64]" "lring_prod blank_desc" 1 "tp_socket (tx_demo 2)"] b
    by (simp add: tx_demo_def)
  show "tx_step (lring_prod blank_desc) lring_prod_view lring_cons lring_cons_view (tx_demo 2) (tx_demo 3)"
    using tx_step.kernel_send [of lring_prod_view "tx_demo 2" "demo_desc 6144" "\<lparr>lr_queued = [], lr_staged = [], lr_next = 8, lr_space = 1\<rparr>"]
    by (simp add: tx_demo_def lring_prod_view_def demo_desc_def)
  show "tx_step (lring_prod blank_desc) lring_prod_view lring_cons lring_cons_view (tx_demo 3) (tx_demo 4)"
    using tx_step.kernel_complete [of "tx_demo 3" "[]" 6144 "[]" lring_cons_view "lcons_of 0 [6144]"]
    by (simp add: tx_demo_def tiny_umem_def)
qed

theorem tx_frames_conserved_witness:
  "(tx_step (lring_prod blank_desc) lring_prod_view lring_cons lring_cons_view)\<^sup>*\<^sup>* (tx_demo 0) (tx_demo 4) \<and>
   tx_frames lring_prod_view lring_cons_view (tx_demo 4) = mset [0, 2048, 4096, 6144]"
proof -
  let ?u = "tiny_umem () (lcons_of 0 []) :: (unit, u64 lcons) Umem" and ?s = "tiny_socket () (empty_lring 7 2)"
  have steps: "(tx_step (lring_prod blank_desc) lring_prod_view lring_cons lring_cons_view)\<^sup>*\<^sup>* (tx_demo 0) (tx_demo 4)"
    using tx_demo_steps by (meson converse_rtranclp_into_rtranclp rtranclp.rtrancl_refl)
  have "tx_demo 0 = \<lparr>tp_umem = ?u, tp_socket = ?s, tp_held = [], tp_flight = []\<rparr>"
    by (simp add: tx_demo_def tiny_umem_def empty_lring_def)
  with tx_frames_conserved [OF lring_prod_laws lring_cons_laws, of ?u ?s blank_desc "tx_demo 4"] steps tiny_ok tiny_frames
  show ?thesis by simp
qed

end
