(* ===== verification/Packet.thy ===== *)
theory Packet
  imports Feed_Prelude "HOL-Library.Monad_Syntax"
begin

text \<open>
  The wire structs and the zero-copy view of \<open>include/ultrafast/packet.hpp\<close>. A \<open>Packet\<close> is a
  pointer and a length; its accessors return pointers, so they are modelled over an explicit
  memory. An accessor that dereferences a pointer returns an option, where \<open>None\<close> is a read
  outside every object; \<open>Some nullptr\<close> is the code's \<open>nullptr\<close> result.

  \<open>frame_udp_off\<close> and the functions after it are the specification: the same parse written
  directly on the bytes of the frame.
\<close>

section \<open>Definitions\<close>

text \<open>
  The packed layouts: the sizes of the members of \<open>EthHeader\<close>, \<open>IpHeader\<close> and \<open>UdpHeader\<close> in
  order; a member's offset is the sum of the sizes before it.
\<close>

definition EthHeader :: "nat list" where
  "EthHeader = [6, 6, 2]"

definition IpHeader :: "nat list" where
  "IpHeader = [1, 1, 2, 2, 2, 1, 1, 2, 4, 4]"

definition UdpHeader :: "nat list" where
  "UdpHeader = [2, 2, 2, 2]"

definition size_of :: "nat list \<Rightarrow> u64" where
  "size_of layout = of_nat (sum_list layout)"

definition member_off :: "nat list \<Rightarrow> nat \<Rightarrow> u64" where
  "member_off layout k = of_nat (sum_list (take k layout))"

definition eth_ether_type :: "memory \<Rightarrow> ptr \<Rightarrow> u16 option" where
  "eth_ether_type m p = load_u16 m (p + member_off EthHeader 2)"

definition ip_version_ihl :: "memory \<Rightarrow> ptr \<Rightarrow> u8 option" where
  "ip_version_ihl m p = load_u8 m (p + member_off IpHeader 0)"

definition ip_protocol :: "memory \<Rightarrow> ptr \<Rightarrow> u8 option" where
  "ip_protocol m p = load_u8 m (p + member_off IpHeader 6)"

definition ip_src_ip :: "memory \<Rightarrow> ptr \<Rightarrow> u32 option" where
  "ip_src_ip m p = load_u32 m (p + member_off IpHeader 8)"

definition udp_src_port :: "memory \<Rightarrow> ptr \<Rightarrow> u16 option" where
  "udp_src_port m p = load_u16 m (p + member_off UdpHeader 0)"

definition udp_dst_port :: "memory \<Rightarrow> ptr \<Rightarrow> u16 option" where
  "udp_dst_port m p = load_u16 m (p + member_off UdpHeader 1)"

definition udp_length :: "memory \<Rightarrow> ptr \<Rightarrow> u16 option" where
  "udp_length m p = load_u16 m (p + member_off UdpHeader 2)"

record Packet =
  pkt_data :: ptr
  pkt_len :: u64

definition pkt_eth :: "Packet \<Rightarrow> ptr" where
  "pkt_eth p = (if pkt_len p < size_of EthHeader then nullptr else pkt_data p)"

definition pkt_ip :: "Packet \<Rightarrow> ptr" where
  "pkt_ip p = (if pkt_len p < size_of EthHeader + size_of IpHeader then nullptr
               else pkt_data p + size_of EthHeader)"

definition ip_hlen :: "u8 \<Rightarrow> u64" where
  "ip_hlen vi = ucast (vi AND 0x0F) * 4"

definition pkt_udp :: "memory \<Rightarrow> Packet \<Rightarrow> ptr option" where
  "pkt_udp m p =
     (let ip_hdr = pkt_ip p
      in if ip_hdr = nullptr then Some nullptr
         else do {
           proto \<leftarrow> ip_protocol m ip_hdr;
           if proto \<noteq> 17 then Some nullptr
           else do {
             vi \<leftarrow> ip_version_ihl m ip_hdr;
             let udp_off = size_of EthHeader + ip_hlen vi;
             if pkt_len p < udp_off + size_of UdpHeader then Some nullptr
             else Some (pkt_data p + udp_off)
           }
         })"

definition pkt_payload :: "memory \<Rightarrow> Packet \<Rightarrow> ptr option" where
  "pkt_payload m p =
     do {
       udp_hdr \<leftarrow> pkt_udp m p;
       if udp_hdr = nullptr then Some nullptr
       else do {
         vi \<leftarrow> ip_version_ihl m (pkt_ip p);
         Some (pkt_data p + size_of EthHeader + ip_hlen vi + size_of UdpHeader)
       }
     }"

definition pkt_payload_len :: "memory \<Rightarrow> Packet \<Rightarrow> u64 option" where
  "pkt_payload_len m p =
     do {
       udp_hdr \<leftarrow> pkt_udp m p;
       if udp_hdr = nullptr then Some 0
       else do {
         raw \<leftarrow> udp_length m udp_hdr;
         let udp_total = (ucast (ntohs raw) :: u64);
         if udp_total < size_of UdpHeader then Some 0 else Some (udp_total - size_of UdpHeader)
       }
     }"

definition pkt_is_udp :: "memory \<Rightarrow> Packet \<Rightarrow> bool option" where
  "pkt_is_udp m p = map_option (\<lambda>u. u \<noteq> nullptr) (pkt_udp m p)"

definition pkt_is_ipv4 :: "Packet \<Rightarrow> bool" where
  "pkt_is_ipv4 p \<longleftrightarrow> pkt_ip p \<noteq> nullptr"

definition ether_type_host :: "memory \<Rightarrow> Packet \<Rightarrow> u16 option" where
  "ether_type_host m p =
     (let e = pkt_eth p in if e \<noteq> nullptr then map_option ntohs (eth_ether_type m e) else Some 0)"

text \<open>The specification on the bytes of a frame.\<close>

definition frame_hlen :: "bytes \<Rightarrow> nat" where
  "frame_hlen bs = 4 * unat (bs ! 14 AND 0x0F)"

definition frame_udp_off :: "bytes \<Rightarrow> nat option" where
  "frame_udp_off bs =
     (if length bs < 34 \<or> bs ! 23 \<noteq> 17 \<or> length bs < 14 + frame_hlen bs + 8 then None
      else Some (14 + frame_hlen bs))"

definition be16_at :: "bytes \<Rightarrow> nat \<Rightarrow> u16" where
  "be16_at bs k = be_word [bs ! k, bs ! Suc k]"

definition frame_payload_len :: "bytes \<Rightarrow> nat" where
  "frame_payload_len bs =
     (case frame_udp_off bs of None \<Rightarrow> 0 | Some off \<Rightarrow> unat (be16_at bs (off + 4)) - 8)"

text \<open>
  The frame that \<open>bench/bench_xdp_socket.cpp\<close> builds for its parse benchmark: a zeroed 64-byte
  buffer with an IPv4 / UDP header chain, ports 12345 and 9999, and UDP length 8; here with the
  UDP length as an argument.
\<close>

definition be_bytes16 :: "u16 \<Rightarrow> bytes" where
  "be_bytes16 w = rev (le_bytes 2 w)"

definition bench_frame :: "u16 \<Rightarrow> bytes" where
  "bench_frame udp_len =
     replicate 12 0 @ be_bytes16 0x0800 @
     [0x45, 0] @ be_bytes16 28 @ replicate 5 0 @ [17] @ replicate 10 0 @
     be_bytes16 12345 @ be_bytes16 9999 @ be_bytes16 udp_len @ replicate 24 0"

text \<open>The view \<open>p\<close> shows exactly the bytes \<open>bs\<close>, and the null page is not mapped.\<close>

definition views :: "memory \<Rightarrow> Packet \<Rightarrow> bytes \<Rightarrow> bool" where
  "views m p bs \<longleftrightarrow> stored_at m (pkt_data p) bs \<and> length bs = unat (pkt_len p) \<and> m nullptr = None"

section \<open>Layout\<close>

lemma size_of_simps [simp]:
  "size_of EthHeader = 14" "size_of IpHeader = 20" "size_of UdpHeader = 8"
  by (simp_all add: size_of_def EthHeader_def IpHeader_def UdpHeader_def)

lemma member_off_simps [simp]:
  "member_off EthHeader 2 = 12" "member_off IpHeader 0 = 0" "member_off IpHeader 6 = 9"
  "member_off IpHeader 8 = 12" "member_off UdpHeader 0 = 0" "member_off UdpHeader (Suc 0) = 2"
  "member_off UdpHeader 2 = 4"
  by (simp_all add: member_off_def EthHeader_def IpHeader_def UdpHeader_def numeral_eq_Suc)

lemma unat_ip_hlen: "unat (ip_hlen vi) = 4 * unat (vi AND 0x0F)"
  and ip_hlen_le: "unat (ip_hlen vi) \<le> 60"
proof -
  have "unat (vi AND 0x0F) \<le> unat (0x0F :: u8)"
    by (rule word_and_le1 [THEN word_le_nat_alt [THEN iffD1]])
  then have le: "unat (vi AND 0x0F) \<le> 15" by simp
  have uc: "unat (ucast (vi AND 0x0F) :: u64) = unat (vi AND 0x0F)"
    by (rule unat_ucast_up) simp
  show eq: "unat (ip_hlen vi) = 4 * unat (vi AND 0x0F)"
    unfolding ip_hlen_def using le by (subst unat_mult_lt) (auto simp: uc)
  show "unat (ip_hlen vi) \<le> 60" using le by (simp add: eq)
qed

section \<open>Loads inside the frame\<close>

lemma viewsD:
  assumes "views m p bs"
  shows "stored_at m (pkt_data p) bs" "unat (pkt_len p) = length bs" "m nullptr = None"
    "length bs < 2 ^ 64"
  using assms unsigned_less [of "pkt_len p"] by (auto simp: views_def)

lemma pkt_len_less_iff:
  "views m p bs \<Longrightarrow> pkt_len p < n \<longleftrightarrow> length bs < unat n"
  by (simp add: views_def word_less_nat_alt)

lemma views_load_u8 [mem_simps]:
  "views m p bs \<Longrightarrow> unat k < length bs \<Longrightarrow> load_u8 m (pkt_data p + k) = Some (bs ! unat k)"
  using load_u8_stored [of m "pkt_data p" bs "unat k"] by (simp add: views_def)

lemma views_load_bytes [mem_simps]:
  "views m p bs \<Longrightarrow> unat k + n \<le> length bs \<Longrightarrow>
   load_bytes m (pkt_data p + k) n = Some (take n (drop (unat k) bs))"
  using load_bytes_stored [of m "pkt_data p" bs "unat k" n] by (simp add: views_def)

lemma take2_drop: "Suc k < length xs \<Longrightarrow> take 2 (drop k xs) = [xs ! k, xs ! Suc k]"
  by (metis Cons_nth_drop_Suc Suc_lessD drop_Suc take0 take_Suc_Cons numeral_2_eq_2 take_Suc)

lemma views_load_be16 [mem_simps]:
  assumes "views m p bs" and "unat k + 2 \<le> length bs"
  shows "map_option ntohs (load_u16 m (pkt_data p + k)) = Some (be16_at bs (unat k))"
proof -
  have "Suc (unat k) < length bs" using assms(2) by simp
  with views_load_bytes [OF assms] show ?thesis
    by (simp add: load_u16_def take2_drop be16_at_def ntohs_le_word del: le_word.simps)
qed

lemma views_nonnull:
  "views m p bs \<Longrightarrow> unat k < length bs \<Longrightarrow> pkt_data p + k \<noteq> nullptr"
  using stored_at_nonnull [of m "pkt_data p" bs "unat k"] by (simp add: views_def)

section \<open>The accessors follow the specification\<close>

lemma pkt_ip_views:
  assumes "views m p bs"
  shows "pkt_ip p = (if length bs < 34 then nullptr else pkt_data p + 14)"
  using pkt_len_less_iff [OF assms, of 34] by (simp add: pkt_ip_def)

lemma pkt_ip_nonnull: "views m p bs \<Longrightarrow> 34 \<le> length bs \<Longrightarrow> pkt_data p + 14 \<noteq> nullptr"
  by (rule views_nonnull) auto

lemma ip_fields_views:
  assumes "views m p bs" and "34 \<le> length bs"
  shows "ip_protocol m (pkt_data p + 14) = Some (bs ! 23)"
    and "ip_version_ihl m (pkt_data p + 14) = Some (bs ! 14)"
    and "ip_src_ip m (pkt_data p + 14) = Some (le_word (take 4 (drop 26 bs)))"
  using views_load_u8 [OF assms(1), of 23] views_load_u8 [OF assms(1), of 14]
    views_load_bytes [OF assms(1), of 26 4] assms(2)
  by (simp_all add: ip_protocol_def ip_version_ihl_def ip_src_ip_def load_u32_def add.assoc)

lemma frame_hlen_eq: "frame_hlen bs = unat (ip_hlen (bs ! 14))"
  by (simp add: frame_hlen_def unat_ip_hlen)

lemma unat_udp_off: "unat (14 + ip_hlen (bs ! 14)) = 14 + frame_hlen bs"
  and unat_udp_off8: "unat (22 + ip_hlen (bs ! 14)) = 22 + frame_hlen bs"
proof -
  have "frame_hlen bs \<le> 60" using ip_hlen_le by (simp add: frame_hlen_eq)
  then show "unat (14 + ip_hlen (bs ! 14)) = 14 + frame_hlen bs"
    by (subst unat_add_lt) (auto simp: frame_hlen_eq)
  show "unat (22 + ip_hlen (bs ! 14)) = 22 + frame_hlen bs"
    using \<open>frame_hlen bs \<le> 60\<close> by (subst unat_add_lt) (auto simp: frame_hlen_eq)
qed

lemma pkt_udp_views:
  assumes "views m p bs"
  shows "pkt_udp m p = Some (case frame_udp_off bs of None \<Rightarrow> nullptr | Some off \<Rightarrow> pkt_data p + of_nat off)"
proof (cases "length bs < 34")
  case True
  then show ?thesis using pkt_ip_views [OF assms] by (simp add: pkt_udp_def frame_udp_off_def)
next
  case False
  then have ip: "pkt_ip p = pkt_data p + 14" "pkt_data p + 14 \<noteq> nullptr"
    using pkt_ip_views [OF assms] pkt_ip_nonnull [OF assms] by auto
  have "word_of_nat (14 + frame_hlen bs) = 14 + ip_hlen (bs ! 14)"
    by (simp add: frame_hlen_eq)
  with False ip show ?thesis
    by (simp add: pkt_udp_def ip_fields_views [OF assms] pkt_len_less_iff [OF assms] unat_udp_off8
        frame_udp_off_def Let_def)
qed

lemma frame_udp_offD:
  assumes "frame_udp_off bs = Some off"
  shows "off = 14 + frame_hlen bs" "off + 8 \<le> length bs" "34 \<le> length bs" "bs ! 23 = 17" "off \<le> 74"
  using assms ip_hlen_le [of "bs ! 14"] by (auto simp: frame_udp_off_def frame_hlen_eq split: if_splits)

lemma udp_ptr_views:
  assumes "views m p bs" and "frame_udp_off bs = Some off"
  shows "pkt_data p + of_nat off \<noteq> nullptr"
    and "j \<le> 8 \<Longrightarrow> unat (of_nat off + j) = off + unat (j :: u64)"
proof -
  note d = frame_udp_offD [OF assms(2)]
  have uo: "unat (of_nat off :: u64) = off" using d(5) by (simp add: unat_of_nat take_bit_nat_eq_self)
  show "pkt_data p + of_nat off \<noteq> nullptr" using views_nonnull [OF assms(1), of "of_nat off"] uo d(2) by simp
  show "unat (of_nat off + j) = off + unat j" if "j \<le> 8"
  proof -
    have "unat j \<le> 8" using that by (simp add: word_le_nat_alt)
    then show ?thesis using uo d(5) by (subst unat_add_lt) auto
  qed
qed

lemma udp_fields_views:
  assumes "views m p bs" and "frame_udp_off bs = Some off"
  shows "map_option ntohs (udp_src_port m (pkt_data p + of_nat off)) = Some (be16_at bs off)"
    and "map_option ntohs (udp_dst_port m (pkt_data p + of_nat off)) = Some (be16_at bs (off + 2))"
    and "map_option ntohs (udp_length m (pkt_data p + of_nat off)) = Some (be16_at bs (off + 4))"
proof -
  note d = frame_udp_offD [OF assms(2)] and u = udp_ptr_views(2) [OF assms]
  have "map_option ntohs (load_u16 m (pkt_data p + (of_nat off + j))) = Some (be16_at bs (off + unat j))"
    if "j \<le> 6" for j
    using views_load_be16 [OF assms(1), of "of_nat off + j"] u [of j] that d(2)
    by (simp add: word_le_nat_alt)
  from this [of 0] this [of 2] this [of 4]
  show "map_option ntohs (udp_src_port m (pkt_data p + of_nat off)) = Some (be16_at bs off)"
    and "map_option ntohs (udp_dst_port m (pkt_data p + of_nat off)) = Some (be16_at bs (off + 2))"
    and "map_option ntohs (udp_length m (pkt_data p + of_nat off)) = Some (be16_at bs (off + 4))"
    by (simp_all add: udp_src_port_def udp_dst_port_def udp_length_def add.assoc)
qed

lemma pkt_payload_views:
  assumes "views m p bs"
  shows "pkt_payload m p = Some (case frame_udp_off bs of None \<Rightarrow> nullptr | Some off \<Rightarrow> pkt_data p + of_nat (off + 8))"
proof (cases "frame_udp_off bs")
  case None
  then show ?thesis by (simp add: pkt_payload_def pkt_udp_views [OF assms])
next
  case (Some off)
  note d = frame_udp_offD [OF Some]
  have "word_of_nat (off + 8) = 14 + ip_hlen (bs ! 14) + 8" using d(1) by (simp add: frame_hlen_eq)
  with Some d(3) show ?thesis
    using udp_ptr_views(1) [OF assms Some] pkt_ip_views [OF assms] ip_fields_views(2) [OF assms]
    by (simp add: pkt_payload_def pkt_udp_views [OF assms] add.assoc)
qed

lemma pkt_payload_len_views:
  assumes "views m p bs"
  shows "pkt_payload_len m p = Some (of_nat (frame_payload_len bs))"
proof (cases "frame_udp_off bs")
  case None
  then show ?thesis by (simp add: pkt_payload_len_def pkt_udp_views [OF assms] frame_payload_len_def)
next
  case (Some off)
  obtain raw where raw: "udp_length m (pkt_data p + of_nat off) = Some raw" "ntohs raw = be16_at bs (off + 4)"
    using udp_fields_views(3) [OF assms Some] by auto
  let ?w = "be16_at bs (off + 4)"
  have uc: "unat (ucast ?w :: u64) = unat ?w" by (rule unat_ucast_up) simp
  have "(if (ucast ?w :: u64) < 8 then 0 else ucast ?w - 8) = (of_nat (unat ?w - 8) :: u64)"
  proof (cases "unat ?w < 8")
    case False
    then have "of_nat (unat ?w - 8) = (of_nat (unat ?w) - of_nat 8 :: u64)" by (intro of_nat_diff) simp
    with False show ?thesis by (simp add: word_less_nat_alt uc)
  qed (simp add: word_less_nat_alt uc)
  with Some raw show ?thesis
    using udp_ptr_views(1) [OF assms Some]
    by (simp add: pkt_payload_len_def pkt_udp_views [OF assms] frame_payload_len_def Let_def split: if_splits)
qed

lemma ether_type_host_views:
  assumes "views m p bs"
  shows "ether_type_host m p = Some (if length bs < 14 then 0 else be16_at bs 12)"
proof (cases "length bs < 14")
  case True
  then show ?thesis using pkt_len_less_iff [OF assms, of 14] by (simp add: ether_type_host_def pkt_eth_def)
next
  case False
  then have "bs \<noteq> []" by auto
  with False have "pkt_eth p = pkt_data p + 0" "pkt_data p + 0 \<noteq> nullptr"
    using pkt_len_less_iff [OF assms, of 14] views_nonnull [OF assms, of 0] by (auto simp: pkt_eth_def)
  with False show ?thesis using views_load_be16 [OF assms, of 12]
    by (simp add: ether_type_host_def eth_ether_type_def)
qed

section \<open>Properties\<close>

text \<open>
  (C8) The header accessors are memory safe and correct. On any view of a frame in memory, even one
  where nothing but the frame is mapped, every accessor is defined (it reads no byte outside the
  frame), and it returns what the byte-level specification says: \<open>udp()\<close> is \<open>nullptr\<close> or points
  to a complete UDP header inside the frame, \<open>payload()\<close> points just behind it, \<open>payload_len()\<close> is
  the UDP length field less 8 (0 if that is negative).
\<close>

theorem packet_accessors_safe:
  assumes "views m p bs"
  shows "pkt_udp m p = Some (case frame_udp_off bs of None \<Rightarrow> nullptr | Some off \<Rightarrow> pkt_data p + of_nat off) \<and>
    (\<forall>off. frame_udp_off bs = Some off \<longrightarrow> off + 8 \<le> length bs) \<and>
    pkt_payload m p = Some (case frame_udp_off bs of None \<Rightarrow> nullptr | Some off \<Rightarrow> pkt_data p + of_nat (off + 8)) \<and>
    pkt_payload_len m p = Some (of_nat (frame_payload_len bs)) \<and>
    pkt_is_udp m p = Some (frame_udp_off bs \<noteq> None) \<and>
    (pkt_is_ipv4 p \<longleftrightarrow> 34 \<le> length bs) \<and>
    ether_type_host m p = Some (if length bs < 14 then 0 else be16_at bs 12)"
proof -
  have "pkt_is_udp m p = Some (frame_udp_off bs \<noteq> None)"
    using udp_ptr_views(1) [OF assms] by (auto simp: pkt_is_udp_def pkt_udp_views [OF assms] split: option.splits)
  moreover have "pkt_is_ipv4 p \<longleftrightarrow> 34 \<le> length bs"
    using pkt_ip_nonnull [OF assms] by (auto simp: pkt_is_ipv4_def pkt_ip_views [OF assms])
  ultimately show ?thesis
    using pkt_udp_views [OF assms] pkt_payload_views [OF assms] pkt_payload_len_views [OF assms]
      ether_type_host_views [OF assms] frame_udp_offD(2) by blast
qed

theorem packet_accessors_safe_witness:
  "views (mem_of 0x1000 (bench_frame 8)) \<lparr>pkt_data = 0x1000, pkt_len = 64\<rparr> (bench_frame 8) \<and>
   pkt_udp (mem_of 0x1000 (bench_frame 8)) \<lparr>pkt_data = 0x1000, pkt_len = 64\<rparr> = Some 0x1022 \<and>
   pkt_payload_len (mem_of 0x1000 (bench_frame 8)) \<lparr>pkt_data = 0x1000, pkt_len = 64\<rparr> = Some 0"
proof -
  have len: "length (bench_frame 8) = 64" by code_simp
  have v: "views (mem_of 0x1000 (bench_frame 8)) \<lparr>pkt_data = 0x1000, pkt_len = 64\<rparr> (bench_frame 8)"
    by (simp add: views_def len) (simp add: mem_of_def len)
  have "frame_udp_off (bench_frame 8) = Some 34" "frame_payload_len (bench_frame 8) = 0" by code_simp+
  with packet_accessors_safe [OF v] v show ?thesis by simp
qed

text \<open>
  Reading the payload is safe when the UDP length field fits the frame: then the
  \<open>payload_len()\<close> bytes at \<open>payload()\<close> are exactly the frame's bytes behind the UDP header.
\<close>

theorem payload_read_in_frame:
  assumes "views m p bs" and "frame_udp_off bs = Some off"
    and "off + unat (be16_at bs (off + 4)) \<le> length bs"
  shows "Option.bind (pkt_payload m p) (\<lambda>pay. Option.bind (pkt_payload_len m p) (\<lambda>n. load_bytes m pay (unat n)))
    = Some (take (frame_payload_len bs) (drop (off + 8) bs))"
proof -
  note d = frame_udp_offD [OF assms(2)]
  have n: "frame_payload_len bs = unat (be16_at bs (off + 4)) - 8" by (simp add: frame_payload_len_def assms(2))
  have "unat (be16_at bs (off + 4)) < 2 ^ 16" using unsigned_less [of "be16_at bs (off + 4)"] by simp
  then have un: "unat (of_nat (frame_payload_len bs) :: u64) = frame_payload_len bs"
    by (simp add: n unat_of_nat take_bit_nat_eq_self)
  have "off + 8 + frame_payload_len bs \<le> length bs" using n assms(3) d(2) by linarith
  then show ?thesis
    using load_bytes_stored [OF viewsD(1) [OF assms(1)], of "off + 8"] un
    by (simp add: pkt_payload_views [OF assms(1)] pkt_payload_len_views [OF assms(1)] assms(2) add.assoc)
qed

theorem payload_read_in_frame_witness:
  "frame_udp_off (bench_frame 16) = Some 34 \<and>
   Option.bind (pkt_payload (mem_of 0x1000 (bench_frame 16)) \<lparr>pkt_data = 0x1000, pkt_len = 64\<rparr>)
     (\<lambda>pay. Option.bind (pkt_payload_len (mem_of 0x1000 (bench_frame 16)) \<lparr>pkt_data = 0x1000, pkt_len = 64\<rparr>)
       (\<lambda>n. load_bytes (mem_of 0x1000 (bench_frame 16)) pay (unat n))) = Some (replicate 8 0)"
proof -
  have len: "length (bench_frame 16) = 64" by code_simp
  have v: "views (mem_of 0x1000 (bench_frame 16)) \<lparr>pkt_data = 0x1000, pkt_len = 64\<rparr> (bench_frame 16)"
    by (simp add: views_def len) (simp add: mem_of_def len)
  have o: "frame_udp_off (bench_frame 16) = Some 34" by code_simp
  have l: "34 + unat (be16_at (bench_frame 16) (34 + 4)) \<le> length (bench_frame 16)" by code_simp
  have "take (frame_payload_len (bench_frame 16)) (drop (34 + 8) (bench_frame 16)) = replicate 8 0" by code_simp
  with payload_read_in_frame [OF v o l] o show ?thesis by simp
qed

text \<open>
  \<open>payload_len()\<close> is not bounded by the frame. There is a 64-byte frame, with nothing else
  mapped, for which \<open>payload()\<close> is non-null, \<open>payload_len()\<close> is 65527, and reading the first 64
  payload bytes, as the receive loop does, leaves the frame: undefined behaviour.
\<close>

theorem payload_len_exceeds_frame:
  "\<exists>m p bs. views m p bs \<and> length bs = 64 \<and> pkt_payload m p = Some (pkt_data p + 42) \<and>
     pkt_payload_len m p = Some 65527 \<and> load_bytes m (pkt_data p + 42) 64 = None"
proof -
  let ?bs = "bench_frame 65535" and ?p = "\<lparr>pkt_data = 0x1000, pkt_len = 64\<rparr>"
  let ?m = "mem_of 0x1000 ?bs"
  have len: "length ?bs = 64" by code_simp
  have v: "views ?m ?p ?bs" by (simp add: views_def len) (simp add: mem_of_def len)
  have o: "frame_udp_off ?bs = Some 34" and "be16_at ?bs 38 = 65535" by code_simp+
  then have n: "frame_payload_len ?bs = 65527" by (simp add: frame_payload_len_def)
  have "?m (pkt_data ?p + 42 + of_nat 22) = None" by (simp add: mem_of_def len)
  then have "load_bytes ?m (pkt_data ?p + 42) 64 = None" by (rule load_bytes_unmapped) simp
  with v len show ?thesis using pkt_payload_views [OF v] pkt_payload_len_views [OF v] o n
    by (intro exI [of _ ?m] exI [of _ ?p] exI [of _ ?bs]) simp
qed

end
