(* ===== verification/Feed_Event.thy ===== *)
theory Feed_Event
  imports Feed_Prelude
begin

text \<open>
  \<open>FeedEvent\<close> of \<open>include/ultrafast/feed_event.hpp\<close>: the owned snapshot of a received datagram.
  The two array members are byte lists whose lengths are part of \<open>event_ok\<close>.
\<close>

definition kMaxPayload :: u64 where
  "kMaxPayload = 64"

record FeedEvent =
  inject_ns :: u64
  receive_ns :: u64
  src_ip :: u32
  src_port :: u16
  dst_port :: u16
  payload_len :: u16
  ev_pad :: bytes
  payload :: bytes

text \<open>The default member initialisers, i.e. \<open>FeedEvent ev{}\<close>.\<close>

definition FeedEvent_new :: FeedEvent where
  "FeedEvent_new =
     \<lparr>inject_ns = 0, receive_ns = 0, src_ip = 0, src_port = 0, dst_port = 0, payload_len = 0,
      ev_pad = replicate 6 0, payload = replicate (unat kMaxPayload) 0\<rparr>"

definition event_ok :: "FeedEvent \<Rightarrow> bool" where
  "event_ok ev \<longleftrightarrow> length (ev_pad ev) = 6 \<and> length (payload ev) = unat kMaxPayload"

text \<open>\<open>memcpy\<close> into the front of a fixed-size array.\<close>

definition overwrite :: "bytes \<Rightarrow> bytes \<Rightarrow> bytes" where
  "overwrite dst src = src @ drop (length src) dst"

lemma unat_kMaxPayload [simp]: "unat kMaxPayload = 64"
  by (simp add: kMaxPayload_def)

lemma event_ok_new [simp]: "event_ok FeedEvent_new"
  by (simp add: event_ok_def FeedEvent_new_def)

lemma length_overwrite [simp]: "length src \<le> length dst \<Longrightarrow> length (overwrite dst src) = length dst"
  by (simp add: overwrite_def)

lemma take_overwrite [simp]: "take (length src) (overwrite dst src) = src"
  by (simp add: overwrite_def)

end
