(* ===== verification/Clock.thy ===== *)
theory Clock
  imports Feed_Prelude
begin

text \<open>
  \<open>CLOCK_MONOTONIC\<close>, \<open>nanosleep\<close> and \<open>usleep\<close>. The kernel's answers are a parameter: a function from the history of
  clock readings and sleeps (newest first) to the \<open>timespec\<close> that \<open>clock_gettime\<close> stores.
\<close>

datatype time_event = Clock_read u64 | Nanosleep u64 u64 | Usleep u32

type_synonym clock = "time_event list \<Rightarrow> u64 \<times> u64"

text \<open>\<open>clock_ns\<close> on the \<open>timespec\<close> that \<open>clock_gettime\<close> filled in (both members 64-bit).\<close>

definition clock_ns :: "u64 \<Rightarrow> u64 \<Rightarrow> u64" where
  "clock_ns tv_sec tv_nsec = tv_sec * 1000000000 + tv_nsec"

definition now_ns :: "clock \<Rightarrow> time_event list \<Rightarrow> u64" where
  "now_ns clk tr = (let (s, n) = clk tr in clock_ns s n)"

text \<open>A history whose readings are what the clock returned.\<close>

fun genuine :: "clock \<Rightarrow> time_event list \<Rightarrow> bool" where
  "genuine clk [] = True"
| "genuine clk (Clock_read t # tr) = (t = now_ns clk tr \<and> genuine clk tr)"
| "genuine clk (Nanosleep s n # tr) = genuine clk tr"
| "genuine clk (Usleep us # tr) = genuine clk tr"

text \<open>The clock readings of a history, oldest first.\<close>

fun readings :: "time_event list \<Rightarrow> u64 list" where
  "readings [] = []"
| "readings (Clock_read t # tr) = readings tr @ [t]"
| "readings (Nanosleep s n # tr) = readings tr"
| "readings (Usleep us # tr) = readings tr"

lemma readings_set: "t \<in> set (readings tr) \<longleftrightarrow> Clock_read t \<in> set tr"
  by (induction tr rule: readings.induct) auto

text \<open>
  What the manual pages promise: the clock does not go back, and a sleep that is not interrupted by a signal lasts at least
  as long as requested.
\<close>

definition clock_monotone :: "clock \<Rightarrow> bool" where
  "clock_monotone clk \<longleftrightarrow> (\<forall>tr t. genuine clk tr \<and> Clock_read t \<in> set tr \<longrightarrow> t \<le> now_ns clk tr)"

definition sleeps_fully :: "clock \<Rightarrow> bool" where
  "sleeps_fully clk \<longleftrightarrow> (\<forall>tr s n. genuine clk tr \<longrightarrow>
     (let t = now_ns clk tr; e = unat t + unat s * 1000000000 + unat n
      in e < 2 ^ 64 \<longrightarrow> e \<le> unat (now_ns clk (Nanosleep s n # Clock_read t # tr))))"

lemma sleeps_fullyD:
  assumes "sleeps_fully clk" "genuine clk tr" "unat (now_ns clk tr) + unat s * 1000000000 + unat n < 2 ^ 64"
  shows "unat (now_ns clk tr) + unat s * 1000000000 + unat n \<le> unat (now_ns clk (Nanosleep s n # Clock_read (now_ns clk tr) # tr))"
  using assms unfolding sleeps_fully_def Let_def by blast

text \<open>On a clock that does not go back, the readings of a genuine history do not decrease.\<close>

lemma readings_sorted: "clock_monotone clk \<Longrightarrow> genuine clk tr \<Longrightarrow> sorted (readings tr)"
  by (induction tr rule: readings.induct) (auto simp: sorted_append readings_set clock_monotone_def)

text \<open>A clock that only advances by sleeping.\<close>

fun sleep_time :: "time_event list \<Rightarrow> nat" where
  "sleep_time [] = 0"
| "sleep_time (Clock_read t # tr) = max (unat t) (sleep_time tr)"
| "sleep_time (Nanosleep s n # tr) = min (sleep_time tr + unat s * 1000000000 + unat n) (2 ^ 64 - 1)"
| "sleep_time (Usleep us # tr) = min (sleep_time tr + unat us * 1000) (2 ^ 64 - 1)"

definition sleep_clock :: clock where
  "sleep_clock tr = (0, of_nat (sleep_time tr))"

lemma sleep_time_bound: "sleep_time tr < 2 ^ 64"
proof (induction tr rule: sleep_time.induct)
  case (2 t tr)
  have "unat t < 2 ^ LENGTH(64)" by (rule unsigned_less)
  then show ?case using 2 by simp
qed simp_all

lemma now_ns_sleep_clock [simp]: "unat (now_ns sleep_clock tr) = sleep_time tr"
  using sleep_time_bound [of tr]
  by (simp add: now_ns_def sleep_clock_def clock_ns_def unat_of_nat take_bit_nat_eq_self)

lemma sleep_clock_monotone [simp]: "clock_monotone sleep_clock"
proof -
  have "unat t \<le> sleep_time tr" if "Clock_read t \<in> set tr" for t tr
    using that
  proof (induction tr rule: sleep_time.induct)
    case (3 s n tr)
    then have "unat t \<le> sleep_time tr" by simp
    moreover have "unat t < 2 ^ LENGTH(64)" by (rule unsigned_less)
    ultimately show ?case by simp
  next
    case (4 us tr)
    then have "unat t \<le> sleep_time tr" by simp
    moreover have "unat t < 2 ^ LENGTH(64)" by (rule unsigned_less)
    ultimately show ?case by simp
  qed auto
  then show ?thesis by (simp add: clock_monotone_def word_le_nat_alt)
qed

lemma sleep_clock_sleeps [simp]: "sleeps_fully sleep_clock"
  by (simp add: sleeps_fully_def Let_def)

text \<open>A clock that advances by one at every reading and every sleep.\<close>

definition tick_clock :: clock where
  "tick_clock tr = (0, of_nat (length tr))"

end
