(* ===== verification/Feed_Handler.thy ===== *)
theory Feed_Handler
  imports Umem_Lifecycle Xdp_Socket Packet Feed_Event Spsc_Ring Clock "HOL-Library.Sublist"
begin

text \<open>
  \<open>FeedHandler\<close> (\<open>include/ultrafast/feed_handler.hpp\<close>, \<open>src/feed_handler.cpp\<close>): construction and
  destruction of the members in order, \<open>start\<close> and \<open>stop\<close>, and the receive loop that turns frames
  into \<open>FeedEvent\<close>s on the ring. None is a read outside every object, or \<open>std::terminate\<close> where
  the text says so. The ring operations are whole steps here; \<open>Spsc_Concurrent\<close> justifies that.
\<close>

section \<open>Data\<close>

text \<open>\<open>FeedHandler::Config\<close>; its two \<open>int\<close> members are 32-bit words, read as signed.\<close>

record Config =
  c_iface :: string
  c_queue_id :: u32
  c_xdp_flags :: u32
  c_bind_flags :: u16
  c_rx_batch :: u32
  c_busy_poll :: bool

definition XDP_FLAGS_SKB_MODE :: u32 where
  "XDP_FLAGS_SKB_MODE = 2"

definition XDP_COPY :: u16 where
  "XDP_COPY = 2"

definition Config_default :: Config where
  "Config_default = \<lparr>c_iface = ''veth1'', c_queue_id = 0, c_xdp_flags = XDP_FLAGS_SKB_MODE,
     c_bind_flags = XDP_COPY, c_rx_batch = 64, c_busy_poll = False\<rparr>"

definition kRingCap :: u64 where
  "kRingCap = 65536"

record ('f, 'c, 'r, 't) FeedHandler =
  fh_cfg :: Config
  fh_umem :: "('f, 'c) Umem"
  fh_socket :: "('r, 't) XdpSocket"
  fh_ring :: "FeedEvent SpscRingBuffer"
  stop_flag :: bool
  rx_thread :: bool
  pkts_rx :: u64
  pkts_dropped :: u64

datatype handler_error = Umem_error umem_error | Socket_error socket_error

section \<open>Construction and destruction\<close>

definition make_xdp_cfg :: "Config \<Rightarrow> XdpSocketConfig" where
  "make_xdp_cfg cfg = \<lparr>iface = c_iface cfg, queue_id = c_queue_id cfg, rx_size = 2048, tx_size = 2048,
     xdp_flags = c_xdp_flags cfg, bind_flags = c_bind_flags cfg\<rparr>"

text \<open>When the socket's constructor throws, the already constructed member \<open>umem_\<close> is destroyed.\<close>

definition FeedHandler_new ::
  "('f, 'c, 'r, 't) env \<Rightarrow> 'f \<Rightarrow> 'c \<Rightarrow> 'r \<Rightarrow> 't \<Rightarrow> Config \<Rightarrow> sys_event list
   \<Rightarrow> (handler_error + ('f, 'c, 'r, 't) FeedHandler) \<times> sys_event list" where
  "FeedHandler_new env f0 c0 r0 t0 cfg tr =
     (case Umem_new env f0 c0 UmemConfig_default tr of
        (Inl e, tr1) \<Rightarrow> (Inl (Umem_error e), tr1)
      | (Inr u, tr1) \<Rightarrow>
          (case XdpSocket_new env r0 t0 0 u (make_xdp_cfg cfg) tr1 of
             (Inl e, tr2) \<Rightarrow> (Inl (Socket_error e), snd (Umem_destroy u tr2))
           | (Inr s, tr2) \<Rightarrow>
               (Inr \<lparr>fh_cfg = cfg, fh_umem = u, fh_socket = s,
                     fh_ring = SpscRingBuffer_new kRingCap FeedEvent_new, stop_flag = False,
                     rx_thread = False, pkts_rx = 0, pkts_dropped = 0\<rparr>, tr2)))"

text \<open>
  \<open>start\<close> assigns a new thread to \<open>rx_thread_\<close>: assigning to a joinable thread calls
  \<open>std::terminate\<close> (None). \<open>stop\<close> joins the thread, so it returns when the receive loop has
  ended; the loop itself is \<open>rx_loop\<close> below.
\<close>

definition start :: "('f, u64) prod_api \<Rightarrow> ('f, 'c, 'r, 't) FeedHandler \<Rightarrow> ('f, 'c, 'r, 't) FeedHandler option" where
  "start fapi h =
     (let h1 = h\<lparr>stop_flag := False\<rparr>;
          h2 = h1\<lparr>fh_umem := populate_fill_ring fapi (fh_umem h1)\<rparr>
      in if rx_thread h2 then None else Some (h2\<lparr>rx_thread := True\<rparr>))"

definition stop :: "('f, 'c, 'r, 't) FeedHandler \<Rightarrow> ('f, 'c, 'r, 't) FeedHandler" where
  "stop h = (let h1 = h\<lparr>stop_flag := True\<rparr> in if rx_thread h1 then h1\<lparr>rx_thread := False\<rparr> else h1)"

text \<open>The destructor stops the loop; then the members are destroyed in reverse order of declaration.\<close>

definition FeedHandler_destroy ::
  "('f, 'c, 'r, 't) FeedHandler \<Rightarrow> sys_event list \<Rightarrow> ('f, 'c, 'r, 't) FeedHandler \<times> sys_event list" where
  "FeedHandler_destroy h tr =
     (let h1 = stop h;
          (s, tr1) = XdpSocket_destroy (fh_socket h1) tr;
          (u, tr2) = Umem_destroy (fh_umem h1) tr1
      in (h1\<lparr>fh_socket := s, fh_umem := u\<rparr>, tr2))"

section \<open>Consumer side and clock\<close>

definition handler_pop :: "('f, 'c, 'r, 't) FeedHandler \<Rightarrow> FeedEvent option \<times> ('f, 'c, 'r, 't) FeedHandler" where
  "handler_pop h = (let (ev, r) = pop kRingCap (fh_ring h) in (ev, h\<lparr>fh_ring := r\<rparr>))"

definition packets_received :: "('f, 'c, 'r, 't) FeedHandler \<Rightarrow> u64" where
  "packets_received h = pkts_rx h"

definition packets_dropped :: "('f, 'c, 'r, 't) FeedHandler \<Rightarrow> u64" where
  "packets_dropped h = pkts_dropped h"

section \<open>Receive loop\<close>

text \<open>The two guarded copies out of the payload.\<close>

definition read_inject :: "memory \<Rightarrow> ptr \<Rightarrow> u64 \<Rightarrow> u64 option" where
  "read_inject m pay plen =
     (if pay \<noteq> nullptr \<and> plen \<ge> 8 then map_option le_word (load_bytes m pay 8)
      else Some (inject_ns FeedEvent_new))"

definition read_body :: "memory \<Rightarrow> ptr \<Rightarrow> u16 \<Rightarrow> bytes option" where
  "read_body m pay n = (if pay \<noteq> nullptr \<and> n > 0 then load_bytes m pay (unat n) else Some [])"

text \<open>One frame: \<open>Some None\<close> when it is not UDP.\<close>

definition frame_event :: "memory \<Rightarrow> ptr \<Rightarrow> u64 \<Rightarrow> RxDesc \<Rightarrow> FeedEvent option option" where
  "frame_event m base batch_ts d =
     (let frame = base + addr d; pkt = \<lparr>pkt_data = frame, pkt_len = ucast (rx_len d)\<rparr>
      in do {
        udp \<leftarrow> pkt_is_udp m pkt;
        if \<not> udp then Some None
        else do {
          u1 \<leftarrow> pkt_udp m pkt;
          sp \<leftarrow> udp_src_port m u1;
          u2 \<leftarrow> pkt_udp m pkt;
          dp \<leftarrow> udp_dst_port m u2;
          sip \<leftarrow> ip_src_ip m (pkt_ip pkt);
          pay \<leftarrow> pkt_payload m pkt;
          plen \<leftarrow> pkt_payload_len m pkt;
          inject \<leftarrow> read_inject m pay plen;
          let n = (ucast (min plen kMaxPayload) :: u16);
          body \<leftarrow> read_body m pay n;
          Some (Some (FeedEvent_new\<lparr>receive_ns := batch_ts, src_port := ntohs sp, dst_port := ntohs dp,
            src_ip := sip, inject_ns := inject, payload_len := n,
            payload := overwrite (payload FeedEvent_new) body\<rparr>))
        }
      })"

definition push_event :: "('f, 'c, 'r, 't) FeedHandler \<Rightarrow> FeedEvent \<Rightarrow> ('f, 'c, 'r, 't) FeedHandler" where
  "push_event h ev =
     (let (ok, r) = push kRingCap (fh_ring h) ev
      in if ok then h\<lparr>fh_ring := r\<rparr> else h\<lparr>fh_ring := r, pkts_dropped := pkts_dropped h + 1\<rparr>)"

fun handle_frames ::
  "memory \<Rightarrow> u64 \<Rightarrow> RxDesc list \<Rightarrow> ('f, 'c, 'r, 't) FeedHandler \<Rightarrow> ('f, 'c, 'r, 't) FeedHandler option" where
  "handle_frames m batch_ts [] h = Some h"
| "handle_frames m batch_ts (d # ds) h =
     (case frame_event m (region (fh_umem h)) batch_ts d of
        None \<Rightarrow> None
      | Some None \<Rightarrow> handle_frames m batch_ts ds h
      | Some (Some ev) \<Rightarrow> handle_frames m batch_ts ds (push_event h ev))"

definition kMaxBatch :: nat where
  "kMaxBatch = 64"

text \<open>One pass of the loop body; with \<open>n == 0\<close> it only relaxes the CPU or polls.\<close>

definition rx_iteration ::
  "('r, xdp_desc) cons_api \<Rightarrow> ('f, u64) prod_api \<Rightarrow> memory \<Rightarrow> u64 \<Rightarrow> RxDesc list
   \<Rightarrow> ('f, 'c, 'r, 't) FeedHandler \<Rightarrow> (RxDesc list \<times> ('f, 'c, 'r, 't) FeedHandler) option" where
  "rx_iteration rapi fapi m now descs h =
     (case rx_burst rapi (fh_socket h) descs of
        None \<Rightarrow> None
      | Some (n, descs', s') \<Rightarrow>
          let h1 = h\<lparr>fh_socket := s'\<rparr>
          in if n = 0 then Some (descs', h1)
             else let batch_ts = now; h2 = h1\<lparr>pkts_rx := pkts_rx h1 + of_nat n\<rparr>
                  in case handle_frames m batch_ts (take n descs') h2 of
                       None \<Rightarrow> None
                     | Some h3 \<Rightarrow> Some (descs', h3\<lparr>fh_umem := rx_release fapi (fh_umem h3) (take n descs')\<rparr>))"

text \<open>
  What happens outside the receive thread between two passes: the kernel changes its rings, the consumer
  pops some events, another thread may store the stop flag; and what the pass then sees: the packet memory and the clock.
\<close>

record ('f, 'r) rx_input =
  in_fill :: "'f \<Rightarrow> 'f"
  in_rx :: "'r \<Rightarrow> 'r"
  in_pops :: nat
  in_stop :: bool
  in_mem :: memory
  in_now :: u64

fun pop_n :: "nat \<Rightarrow> ('f, 'c, 'r, 't) FeedHandler \<Rightarrow> FeedEvent list \<times> ('f, 'c, 'r, 't) FeedHandler" where
  "pop_n 0 h = ([], h)"
| "pop_n (Suc k) h =
     (case handler_pop h of (None, h1) \<Rightarrow> pop_n k h1 | (Some ev, h1) \<Rightarrow> let (evs, h2) = pop_n k h1 in (ev # evs, h2))"

definition outside :: "('f, 'r) rx_input \<Rightarrow> ('f, 'c, 'r, 't) FeedHandler \<Rightarrow> FeedEvent list \<times> ('f, 'c, 'r, 't) FeedHandler" where
  "outside i h =
     pop_n (in_pops i)
       (h\<lparr>fh_umem := (fh_umem h)\<lparr>fill_ring := in_fill i (fill_ring (fh_umem h))\<rparr>,
          fh_socket := (fh_socket h)\<lparr>rx_ring := in_rx i (rx_ring (fh_socket h))\<rparr>,
          stop_flag := stop_flag h \<or> in_stop i\<rparr>)"

text \<open>
  The loop over a sequence of such inputs: the popped events, whether the loop has ended (False: still
  running when the inputs end), and the handler.
\<close>

fun rx_loop ::
  "('r, xdp_desc) cons_api \<Rightarrow> ('f, u64) prod_api \<Rightarrow> ('f, 'r) rx_input list \<Rightarrow> RxDesc list
   \<Rightarrow> ('f, 'c, 'r, 't) FeedHandler \<Rightarrow> (FeedEvent list \<times> bool \<times> ('f, 'c, 'r, 't) FeedHandler) option" where
  "rx_loop rapi fapi [] descs h = Some ([], False, h)"
| "rx_loop rapi fapi (i # is) descs h =
     (let (out, h1) = outside i h
      in if stop_flag h1 then Some (out, True, h1)
         else case rx_iteration rapi fapi (in_mem i) (in_now i) descs h1 of
                None \<Rightarrow> None
              | Some (descs', h2) \<Rightarrow>
                  (case rx_loop rapi fapi is descs' h2 of
                     None \<Rightarrow> None
                   | Some (out', ended, h3) \<Rightarrow> Some (out @ out', ended, h3)))"

text \<open>
  The specification of an event, on the bytes from the start of the frame: \<open>L\<close> is the received length, and \<open>bs\<close> may be longer,
  since the copy is not limited to the frame. \<open>copy_end\<close> is the end of what is read.
\<close>

definition event_of :: "bytes \<Rightarrow> nat \<Rightarrow> u64 \<Rightarrow> FeedEvent option" where
  "event_of bs L ts =
     (case frame_udp_off (take L bs) of
        None \<Rightarrow> None
      | Some off \<Rightarrow>
          let plen = frame_payload_len (take L bs); body = take (min plen 64) (drop (off + 8) bs)
          in Some \<lparr>inject_ns = (if 8 \<le> plen then le_word (take 8 (drop (off + 8) bs)) else 0),
               receive_ns = ts, src_ip = le_word (take 4 (drop 26 bs)), src_port = be16_at bs off,
               dst_port = be16_at bs (off + 2), payload_len = of_nat (min plen 64),
               ev_pad = replicate 6 0, payload = body @ replicate (64 - length body) 0\<rparr>)"

definition copy_end :: "bytes \<Rightarrow> nat \<Rightarrow> nat" where
  "copy_end bs L = (case frame_udp_off (take L bs) of None \<Rightarrow> L
     | Some off \<Rightarrow> max L (off + 8 + min (frame_payload_len (take L bs)) 64))"

text \<open>The events of a batch: the frames that are UDP, in order.\<close>

definition frame_events :: "memory \<Rightarrow> ptr \<Rightarrow> u64 \<Rightarrow> RxDesc list \<Rightarrow> FeedEvent list option" where
  "frame_events m base ts ds = map_option (\<lambda>evs. map the (filter (\<lambda>e. e \<noteq> None) evs)) (those (map (frame_event m base ts) ds))"

text \<open>The events of all frames received over a run, in order of arrival.\<close>

fun loop_events ::
  "('r, xdp_desc) cons_api \<Rightarrow> ('f, u64) prod_api \<Rightarrow> ('f, 'r) rx_input list \<Rightarrow> RxDesc list
   \<Rightarrow> ('f, 'c, 'r, 't) FeedHandler \<Rightarrow> FeedEvent list" where
  "loop_events rapi fapi [] descs h = []"
| "loop_events rapi fapi (i # is) descs h =
     (let h1 = snd (outside i h)
      in if stop_flag h1 then []
         else case (rx_burst rapi (fh_socket h1) descs, rx_iteration rapi fapi (in_mem i) (in_now i) descs h1) of
                (Some (n, descs', s'), Some (descs'', h2)) \<Rightarrow>
                  the (frame_events (in_mem i) (region (fh_umem h1)) (in_now i) (take n descs')) @
                  loop_events rapi fapi is descs'' h2
              | _ \<Rightarrow> [])"

text \<open>
  What the totality of the loop asks of the outside, at the states the loop passes through: the kernel leaves no slot of the fill ring
  reserved or of the RX ring peeked, and the memory shown to a pass covers the frames whose descriptors are on the RX ring at that pass.
\<close>

fun inputs_ok ::
  "('r, xdp_desc) cons_api \<Rightarrow> ('f, u64) prod_api \<Rightarrow> ('f, u64) prod_view \<Rightarrow> ('r, xdp_desc) cons_view \<Rightarrow> ('f, 'r) rx_input list \<Rightarrow> RxDesc list
   \<Rightarrow> ('f, 'c, 'r, 't) FeedHandler \<Rightarrow> bool" where
  "inputs_ok rapi fapi fv rv [] descs h = True"
| "inputs_ok rapi fapi fv rv (i # is) descs h =
     (let h1 = snd (outside i h)
      in staged fv (fill_ring (fh_umem h1)) = [] \<and> peeked rv (rx_ring (fh_socket h1)) = 0 \<and>
         (\<not> stop_flag h1 \<longrightarrow>
           list_all (\<lambda>d. frame_event (in_mem i) (region (fh_umem h1)) (in_now i) (to_RxDesc d) \<noteq> None) (avail rv (rx_ring (fh_socket h1))) \<and>
           (case rx_iteration rapi fapi (in_mem i) (in_now i) descs h1 of
              None \<Rightarrow> True
            | Some (descs', h2) \<Rightarrow> inputs_ok rapi fapi fv rv is descs' h2)))"

text \<open>A small handler, a run of two passes and a pass with an idle kernel and no memory mapped, used by the witnesses.\<close>

definition demo_handler :: "u64 lring \<Rightarrow> xdp_desc lcons \<Rightarrow> (u64 lring, unit, xdp_desc lcons, unit) FeedHandler" where
  "demo_handler f r = \<lparr>fh_cfg = Config_default, fh_umem = tiny_umem f (), fh_socket = tiny_socket r (),
     fh_ring = SpscRingBuffer_new kRingCap FeedEvent_new, stop_flag = False, rx_thread = False, pkts_rx = 0, pkts_dropped = 0\<rparr>"

definition demo_inputs :: "(u64 lring, xdp_desc lcons) rx_input list" where
  "demo_inputs = [
     \<lparr>in_fill = (\<lambda>f. f), in_rx = (\<lambda>r. lcons_of 0 [demo_desc 256]), in_pops = 0, in_stop = False,
      in_mem = mem_of 4352 (bench_frame 24), in_now = 9\<rparr>,
     \<lparr>in_fill = (\<lambda>f. f), in_rx = (\<lambda>r. lcons_of 1 []), in_pops = 1, in_stop = True,
      in_mem = mem_of 4352 (bench_frame 24), in_now = 10\<rparr>]"

definition idle_input :: "(u64 lring, xdp_desc lcons) rx_input" where
  "idle_input = \<lparr>in_fill = (\<lambda>f. f), in_rx = (\<lambda>r. r), in_pops = 0, in_stop = False, in_mem = (\<lambda>_. None), in_now = 8\<rparr>"

section \<open>Lemmas and properties\<close>

lemma be16_at_take: "Suc k < L \<Longrightarrow> be16_at (take L bs) k = be16_at bs k"
  by (simp add: be16_at_def)

lemma payload_len_bound: "frame_payload_len bs < 2 ^ 16"
proof -
  have "unat (be16_at bs k) < 2 ^ 16" for k using unsigned_less [of "be16_at bs k"] by simp
  then show ?thesis by (auto simp: frame_payload_len_def split: option.split intro: le_less_trans [OF diff_le_self])
qed

lemma copied_len:
  "unat (ucast (min (of_nat (frame_payload_len bs)) kMaxPayload) :: u16) = min (frame_payload_len bs) 64"
  "(ucast (min (of_nat (frame_payload_len bs)) kMaxPayload) :: u16) = of_nat (min (frame_payload_len bs) 64)"
  "(8 :: u64) \<le> of_nat (frame_payload_len bs) \<longleftrightarrow> 8 \<le> frame_payload_len bs"
proof -
  have un: "unat (of_nat (frame_payload_len bs) :: u64) = frame_payload_len bs"
    using payload_len_bound [of bs] by (simp add: unat_of_nat take_bit_nat_eq_self)
  have "unat (min (of_nat (frame_payload_len bs)) kMaxPayload) = min (frame_payload_len bs) 64"
    by (simp add: min_def word_le_nat_alt un)
  then show c: "unat (ucast (min (of_nat (frame_payload_len bs)) kMaxPayload) :: u16) = min (frame_payload_len bs) 64"
    by (simp add: unsigned_ucast_eq take_bit_nat_eq_self)
  show "(ucast (min (of_nat (frame_payload_len bs)) kMaxPayload) :: u16) = of_nat (min (frame_payload_len bs) 64)"
    unfolding c [symmetric] by simp
  show "(8 :: u64) \<le> of_nat (frame_payload_len bs) \<longleftrightarrow> 8 \<le> frame_payload_len bs"
    by (simp add: word_le_nat_alt un)
qed

lemma frame_event_region:
  assumes st: "stored_at m (base + addr d) bs" and null: "m nullptr = None"
    and len: "unat (rx_len d) \<le> length bs" and ce: "copy_end bs (unat (rx_len d)) \<le> length bs"
  shows "frame_event m base ts d = Some (event_of bs (unat (rx_len d)) ts)"
proof -
  let ?L = "unat (rx_len d)"
  let ?fr = "take ?L bs"
  let ?p = "\<lparr>pkt_data = base + addr d, pkt_len = ucast (rx_len d)\<rparr>"
  have pl: "unat (pkt_len ?p) = ?L" by (simp add: unat_ucast_up)
  have v: "views m ?p ?fr" using stored_at_take [OF st] null len pl by (simp add: views_def)
  show ?thesis
  proof (cases "frame_udp_off ?fr")
    case None
    then show ?thesis
      by (simp add: frame_event_def pkt_is_udp_def pkt_udp_views [OF v] event_of_def)
  next
    case (Some off)
    note dd = frame_udp_offD [OF Some]
    have nn: "base + addr d + of_nat off \<noteq> nullptr" using udp_ptr_views(1) [OF v Some] by simp
    define q where "q = base + addr d + of_nat (off + 8)"
    have pay: "pkt_payload m ?p = Some q" using pkt_payload_views [OF v] Some by (simp add: q_def)
    obtain sp dp where sp: "udp_src_port m (base + addr d + of_nat off) = Some sp" "ntohs sp = be16_at bs off"
      and dp: "udp_dst_port m (base + addr d + of_nat off) = Some dp" "ntohs dp = be16_at bs (off + 2)"
      using udp_fields_views(1,2) [OF v Some] dd(2) len by (auto simp: be16_at_take)
    have ip: "ip_src_ip m (pkt_ip ?p) = Some (le_word (take 4 (drop 26 bs)))"
    proof -
      have "pkt_ip ?p = base + addr d + 14" using pkt_ip_views [OF v] dd(3) by (simp only: not_less [symmetric] if_False Packet.simps)
      moreover have "take 4 (drop 26 ?fr) = take 4 (drop 26 bs)" 
      proof -
        have "4 \<le> ?L - 26" using dd(3) by (simp; linarith)
        then show ?thesis by (simp add: drop_take min_absorb1)
      qed
      ultimately show ?thesis using ip_fields_views(3) [OF v dd(3)] by simp
    qed
    define P where "P = frame_payload_len ?fr"
    have le: "off + 8 + min P 64 \<le> length bs" using ce Some by (simp add: copy_end_def P_def)
    have ld: "load_bytes m q n = Some (take n (drop (off + 8) bs))" if "off + 8 + n \<le> length bs" for n
      using load_bytes_stored [OF st, of "off + 8" n] that by (simp add: q_def)
    have nz: "0 < P \<Longrightarrow> q \<noteq> nullptr" using stored_at_nonnull [OF st null, of "off + 8"] le by (simp add: q_def)
    note cl = copied_len [of ?fr, folded P_def]
    have inj: "read_inject m q (of_nat P) = Some (if 8 \<le> P then le_word (take 8 (drop (off + 8) bs)) else 0)"
      using ld [of 8] nz le cl(3) by (auto simp: read_inject_def FeedEvent_new_def)
    have "(0 :: u16) < of_nat (min P 64) \<longleftrightarrow> 0 < P"
      using cl(1) unfolding cl(2) by (auto simp: word_less_nat_alt)
    then have body: "read_body m q (of_nat (min P 64)) = Some (take (min P 64) (drop (off + 8) bs))"
      using ld [of "min P 64"] nz le cl(1) unfolding cl(2) by (auto simp: read_body_def)
    have bl: "length (take (min P 64) (drop (off + 8) bs)) = min P 64" using le by simp
    show ?thesis
      unfolding frame_event_def Let_def pkt_is_udp_def pkt_udp_views [OF v] Some option.case
      using nn sp dp ip pay pkt_payload_len_views [OF v, folded P_def] inj body cl bl
      by (simp add: event_of_def Some P_def [symmetric] FeedEvent_new_def overwrite_def Let_def del: length_take)
  qed
qed

text \<open>
  (C7) From frame to event. If the UDP length field of a frame fits the frame, building the event reads only the
  frame, and the event is exactly what the bytes say: ports in host order, source address as on the wire, batch
  timestamp, injection timestamp from the first 8 payload bytes (0 when the payload is shorter), the payload
  length cut to 64, the payload bytes followed by zeros. A frame that is not UDP gives no event.
\<close>

theorem frame_event_correct:
  assumes "stored_at m (base + addr d) bs" "m nullptr = None" "unat (rx_len d) = length bs"
    and "\<forall>off. frame_udp_off bs = Some off \<longrightarrow> off + unat (be16_at bs (off + 4)) \<le> length bs"
  shows "frame_event m base ts d = Some (event_of bs (length bs) ts)"
proof -
  have "copy_end bs (length bs) \<le> length bs"
  proof (cases "frame_udp_off bs")
    case (Some off)
    then have "off + unat (be16_at bs (off + 4)) \<le> length bs" "off + 8 \<le> length bs"
      using assms(4) frame_udp_offD(2) by auto
    then show ?thesis using Some by (simp add: copy_end_def frame_payload_len_def; linarith)
  qed (simp add: copy_end_def)
  then show ?thesis using frame_event_region [OF assms(1,2), of ts] assms(3) by simp
qed

theorem frame_event_correct_witness:
  "\<exists>ev. frame_event (mem_of 0x1000 (bench_frame 24)) 0x800 77 \<lparr>addr = 0x800, rx_len = 64, options = 0\<rparr> = Some (Some ev) \<and>
     src_port ev = 12345 \<and> dst_port ev = 9999 \<and> receive_ns ev = 77 \<and> payload_len ev = 16 \<and> payload ev = replicate 64 0"
proof -
  have len: "length (bench_frame 24) = 64" by code_simp
  have st: "stored_at (mem_of 0x1000 (bench_frame 24)) (0x800 + addr \<lparr>addr = 0x800, rx_len = 64, options = 0\<rparr>) (bench_frame 24)"
    "mem_of 0x1000 (bench_frame 24) nullptr = None"
    by (simp_all add: len) (simp add: mem_of_def len)
  have off: "frame_udp_off (bench_frame 24) = Some 34" "be16_at (bench_frame 24) (34 + 4) = 24" by code_simp+
  have "frame_event (mem_of 0x1000 (bench_frame 24)) 0x800 77 \<lparr>addr = 0x800, rx_len = 64, options = 0\<rparr>
      = Some (event_of (bench_frame 24) 64 77)"
    using frame_event_correct [OF st, of 77] off len by simp
  moreover have "event_of (bench_frame 24) 64 77 = Some \<lparr>inject_ns = 0, receive_ns = 77, src_ip = 0, src_port = 12345,
      dst_port = 9999, payload_len = 16, ev_pad = replicate 6 0, payload = replicate 64 0\<rparr>"
    by code_simp
  ultimately show ?thesis by simp
qed

lemma event_of_payload:
  "frame_udp_off (take L bs) = Some off \<Longrightarrow> \<exists>ev. event_of bs L ts = Some ev \<and>
    payload ev = take (min (frame_payload_len (take L bs)) 64) (drop (off + 8) bs) @
      replicate (64 - length (take (min (frame_payload_len (take L bs)) 64) (drop (off + 8) bs))) 0"
  by (simp add: event_of_def Let_def)

text \<open>
  (C34) Over-read. The UDP length field is not checked against the frame: when it exceeds the received length, building the
  event copies bytes from behind the frame (up to 64 payload bytes in all), such as the next frame's, into
  the event.
\<close>

theorem frame_event_overread:
  assumes "stored_at m (base + addr d) (bs @ rest)" "m nullptr = None" "unat (rx_len d) = length bs"
    and "frame_udp_off bs = Some off" "off + 8 + min (frame_payload_len bs) 64 = length bs + length rest"
  shows "\<exists>ev. frame_event m base ts d = Some (Some ev) \<and>
    payload ev = drop (off + 8) bs @ rest @ replicate (64 - min (frame_payload_len bs) 64) 0"
proof -
  have "copy_end (bs @ rest) (length bs) \<le> length (bs @ rest)" using assms(4,5) by (simp add: copy_end_def)
  then have fe: "frame_event m base ts d = Some (event_of (bs @ rest) (length bs) ts)"
    using frame_event_region [OF assms(1,2), of ts] assms(3) by simp
  have body: "take (min (frame_payload_len bs) 64) (drop (off + 8) (bs @ rest)) = drop (off + 8) bs @ rest"
  proof -
    have "length bs - (off + 8) \<le> min (frame_payload_len bs) 64"
      "min (frame_payload_len bs) 64 - (length bs - (off + 8)) = length rest"
      using assms(5) frame_udp_offD(2) [OF assms(4)] by linarith+
    then show ?thesis using frame_udp_offD(2) [OF assms(4)] by (simp add: take_append)
  qed
  have bl: "length (drop (off + 8) bs @ rest) = min (frame_payload_len bs) 64"
    using assms(5) frame_udp_offD(2) [OF assms(4)] by simp
  have "take (length bs) (bs @ rest) = bs" by simp
  then have "\<exists>ev. event_of (bs @ rest) (length bs) ts = Some ev \<and>
      payload ev = (drop (off + 8) bs @ rest) @ replicate (64 - min (frame_payload_len bs) 64) 0"
    using event_of_payload [of "length bs" "bs @ rest" off ts] assms(4) by (simp only: body bl)
  then show ?thesis using fe by auto
qed

theorem frame_event_overread_witness:
  "\<exists>ev. frame_event (mem_of 0x1000 (bench_frame 32 @ [222, 173])) 0 5 \<lparr>addr = 0x1000, rx_len = 64, options = 0\<rparr> = Some (Some ev) \<and>
     payload ev = drop 42 (bench_frame 32) @ [222, 173] @ replicate 40 0"
proof -
  let ?bs = "bench_frame 32" and ?d = "\<lparr>addr = 0x1000, rx_len = 64, options = 0\<rparr>"
  have len: "length ?bs = 64" by code_simp
  have st: "stored_at (mem_of 0x1000 (?bs @ [222, 173])) (0 + addr ?d) (?bs @ [222, 173])"
    "mem_of 0x1000 (?bs @ [222, 173]) nullptr = None"
    by (simp_all add: len) (simp add: mem_of_def len)
  have off: "frame_udp_off ?bs = Some 34" "frame_payload_len ?bs = 24" by code_simp+
  show ?thesis using frame_event_overread [OF st _ off(1), of 5] off(2) len by simp
qed

interpretation event_queue: initial_queue "push kRingCap" "pop kRingCap" "contents kRingCap" "ring_inv kRingCap"
  "unat kRingCap - 1" "SpscRingBuffer_new kRingCap FeedEvent_new"
proof
  have "static_ok kRingCap" by code_simp
  then show "ring_inv kRingCap (SpscRingBuffer_new kRingCap FeedEvent_new)" by (rule ring_inv_new)
  show "contents kRingCap (SpscRingBuffer_new kRingCap FeedEvent_new) = []" by (rule contents_new)
qed

lemma copied_bound: "unat (ucast (min plen kMaxPayload) :: u16) \<le> 64"
proof -
  have "unat (min plen kMaxPayload) \<le> 64" by (simp add: min_def word_le_nat_alt)
  then show ?thesis by (simp add: unsigned_ucast_eq take_bit_nat_eq_self)
qed

lemma frame_event_ok:
  assumes "frame_event m base ts d = Some (Some ev)"
  shows "event_ok ev \<and> unat (payload_len ev) \<le> 64"
proof -
  obtain pay plen body where b: "read_body m pay (ucast (min plen kMaxPayload)) = Some body"
    "payload ev = overwrite (payload FeedEvent_new) body" "payload_len ev = ucast (min plen kMaxPayload)" "ev_pad ev = ev_pad FeedEvent_new"
    using assms by (auto simp: frame_event_def Let_def split: bind_splits if_splits)
  have "length body \<le> 64" using b(1) copied_bound [of plen] by (auto simp: read_body_def dest: load_bytes_length split: if_splits)
  then show ?thesis using b(2-4) copied_bound [of plen] by (simp add: event_ok_def FeedEvent_new_def)
qed

lemma frame_events_simps [simp]:
  "frame_events m base ts [] = Some []"
  "frame_events m base ts (d # ds) = (case frame_event m base ts d of None \<Rightarrow> None
     | Some None \<Rightarrow> frame_events m base ts ds
     | Some (Some ev) \<Rightarrow> map_option (\<lambda>evs. ev # evs) (frame_events m base ts ds))"
  by (auto simp: frame_events_def option.map_comp comp_def split: option.splits)

lemma push_event_eq:
  "fh_ring (push_event h ev) = snd (push kRingCap (fh_ring h) ev)"
  "pkts_dropped (push_event h ev) = pkts_dropped h + of_bool (\<not> fst (push kRingCap (fh_ring h) ev))"
  "fh_umem (push_event h ev) = fh_umem h" "fh_socket (push_event h ev) = fh_socket h"
  "pkts_rx (push_event h ev) = pkts_rx h" "stop_flag (push_event h ev) = stop_flag h"
  by (auto simp: push_event_def split: prod.splits)

lemma handle_frames_events:
  "handle_frames m ts ds h = (case frame_events m (region (fh_umem h)) ts ds of None \<Rightarrow> None
     | Some evs \<Rightarrow> Some (foldl push_event h evs))"
  by (induction ds arbitrary: h) (auto simp: push_event_eq split: option.splits)

lemma foldl_push_event:
  "fh_ring (foldl push_event h evs) = snd (push_all (push kRingCap) (fh_ring h) evs)"
  "pkts_dropped (foldl push_event h evs) = pkts_dropped h + of_nat (fst (push_all (push kRingCap) (fh_ring h) evs))"
  "fh_umem (foldl push_event h evs) = fh_umem h" "fh_socket (foldl push_event h evs) = fh_socket h"
  "pkts_rx (foldl push_event h evs) = pkts_rx h" "stop_flag (foldl push_event h evs) = stop_flag h"
  by (induction evs arbitrary: h) (auto simp: push_event_eq case_prod_beta)

lemma frame_events_defined:
  "\<forall>d \<in> set ds. frame_event m base ts d \<noteq> None \<Longrightarrow> \<exists>evs. frame_events m base ts ds = Some evs"
  by (induction ds) (auto split: option.splits)

text \<open>
  (C12) One pass of the receive loop, when the packet memory covers the frames of all published descriptors. It takes a number n of the published descriptors (up to 64, at least one if there
  is one), counts them, turns the UDP frames among them into events in order, appends to the ring as many
  as fit and counts the rest as dropped, and gives exactly the n frames back to the fill ring if it has room.
\<close>

theorem rx_iteration_spec:
  assumes "cons_laws rapi rv" "prod_laws fapi fv" "peeked rv (rx_ring (fh_socket h)) = 0"
    "staged fv (fill_ring (fh_umem h)) = []" "length descs = kMaxBatch" "ring_inv kRingCap (fh_ring h)"
    and "\<forall>d \<in> set (avail rv (rx_ring (fh_socket h))). frame_event m (region (fh_umem h)) now (to_RxDesc d) \<noteq> None"
  shows "\<exists>n evs descs' h'. rx_iteration rapi fapi m now descs h = Some (descs', h') \<and> n \<le> kMaxBatch \<and>
    (avail rv (rx_ring (fh_socket h)) \<noteq> [] \<longrightarrow> 0 < n) \<and> n \<le> length (avail rv (rx_ring (fh_socket h))) \<and>
    frame_events m (region (fh_umem h)) now (map to_RxDesc (take n (avail rv (rx_ring (fh_socket h))))) = Some evs \<and>
    contents kRingCap (fh_ring h') = contents kRingCap (fh_ring h) @ take (65535 - length (contents kRingCap (fh_ring h))) evs \<and>
    pkts_rx h' = pkts_rx h + of_nat n \<and>
    pkts_dropped h' = pkts_dropped h + of_nat (length evs - (65535 - length (contents kRingCap (fh_ring h)))) \<and>
    avail rv (rx_ring (fh_socket h')) = drop n (avail rv (rx_ring (fh_socket h))) \<and>
    (n \<le> space fv (fill_ring (fh_umem h)) \<longrightarrow> queued fv (fill_ring (fh_umem h')) =
      queued fv (fill_ring (fh_umem h)) @ map d_addr (take n (avail rv (rx_ring (fh_socket h)))))"
proof -
  let ?av = "avail rv (rx_ring (fh_socket h))" and ?base = "region (fh_umem h)"
  have len: "length descs < 2 ^ 32" using assms(5) by (simp add: kMaxBatch_def)
  have cap: "unat kRingCap - 1 = 65535" by (simp add: kRingCap_def)
  obtain n out s' where B: "rx_burst rapi (fh_socket h) descs = Some (n, out, s')"
    using rx_burst_defined [OF assms(1,3) len] by blast
  note R = rx_burst_eq [OF assms(1,3) len B]
  have "\<forall>d \<in> set (map to_RxDesc (take n ?av)). frame_event m ?base now d \<noteq> None"
    using assms(7) by (auto dest: in_set_takeD)
  then obtain evs where E: "frame_events m ?base now (map to_RxDesc (take n ?av)) = Some evs"
    using frame_events_defined by blast
  let ?h2 = "h\<lparr>fh_socket := s', pkts_rx := pkts_rx h + of_nat n\<rparr>"
  let ?h3 = "foldl push_event ?h2 evs"
  have "descs \<noteq> []" using assms(5) by (auto simp: kMaxBatch_def)
  then have nz: "?av \<noteq> [] \<longrightarrow> 0 < n" using R(7) by blast
  have HF: "handle_frames m now (take n out) ?h2 = Some ?h3" using E R(3) by (simp add: handle_frames_events)
  let ?h' = "if n = 0 then h\<lparr>fh_socket := s'\<rparr> else ?h3\<lparr>fh_umem := rx_release fapi (fh_umem ?h3) (take n out)\<rparr>"
  have it: "rx_iteration rapi fapi m now descs h = Some (out, ?h')"
    using B HF by (simp add: rx_iteration_def Let_def)
  have e0: "n = 0 \<Longrightarrow> evs = []" using E by simp
  note Q = spsc.push_all_items [OF assms(6), of evs, unfolded cap]
  have ring: "contents kRingCap (fh_ring ?h') = contents kRingCap (fh_ring h) @ take (65535 - length (contents kRingCap (fh_ring h))) evs"
    "pkts_dropped ?h' = pkts_dropped h + of_nat (length evs - (65535 - length (contents kRingCap (fh_ring h))))"
    "pkts_rx ?h' = pkts_rx h + of_nat n" "fh_socket ?h' = s'"
    using Q e0 by (simp_all add: foldl_push_event)
  have "length (take n out) < 2 ^ 32" using R(6) len by simp
  note RQ = rx_release_queue [OF assms(2,4) this]
  have "map addr (take n out) = map d_addr (take n ?av)" unfolding R(3) by (simp add: to_RxDesc_def)
  moreover have "length (take n out) = n" using R(1,6) by simp
  ultimately have "n \<le> space fv (fill_ring (fh_umem h)) \<longrightarrow>
      queued fv (fill_ring (fh_umem ?h')) = queued fv (fill_ring (fh_umem h)) @ map d_addr (take n ?av)"
    using RQ(1) by (simp add: foldl_push_event)
  then show ?thesis using it R(1,2,4) nz E ring assms(5)
    by (intro exI [of _ n] exI [of _ evs] exI [of _ out] exI [of _ ?h']) simp
qed

lemma pop_n_run:
  "pop_n k h = (evs, h') \<Longrightarrow> run_ops (push kRingCap) (pop kRingCap) (fh_ring h) (replicate k Pop) = ([], evs, 0, fh_ring h') \<and>
    h' = h\<lparr>fh_ring := fh_ring h'\<rparr>"
proof (induction k arbitrary: h evs h')
  case (Suc k)
  obtain r q where p: "pop kRingCap (fh_ring h) = (r, q)" by fastforce
  let ?h1 = "h\<lparr>fh_ring := q\<rparr>"
  obtain evs1 h2 where n: "pop_n k ?h1 = (evs1, h2)" by fastforce
  have "evs = (case r of None \<Rightarrow> evs1 | Some x \<Rightarrow> x # evs1)" "h' = h2"
    using Suc.prems p n by (auto simp: handler_pop_def split: option.splits)
  then show ?case using Suc.IH [OF n] p by (auto split: option.splits)
qed simp

lemma rx_iteration_run:
  assumes "rx_iteration rapi fapi m now descs h = Some (descs', h')"
  obtains n out s' evs where "rx_burst rapi (fh_socket h) descs = Some (n, out, s')" "descs' = out"
    "frame_events m (region (fh_umem h)) now (take n out) = Some evs"
    "fh_ring h' = snd (push_all (push kRingCap) (fh_ring h) evs)"
    "pkts_dropped h' = pkts_dropped h + of_nat (fst (push_all (push kRingCap) (fh_ring h) evs))"
    "fh_socket h' = s'" "stop_flag h' = stop_flag h" "pkts_rx h' = pkts_rx h + of_nat n"
    "fh_umem h' = rx_release fapi (fh_umem h) (take n out)"
proof -
  obtain n out s' where B: "rx_burst rapi (fh_socket h) descs = Some (n, out, s')"
    using assms by (auto simp: rx_iteration_def split: option.splits)
  show ?thesis
  proof (cases "n = 0")
    case True
    then show ?thesis using assms B by (intro that [OF B]) (auto simp: rx_iteration_def rx_release_def Let_def)
  next
    case False
    then obtain evs where E: "frame_events m (region (fh_umem h)) now (take n out) = Some evs"
      using assms B by (auto simp: rx_iteration_def handle_frames_events Let_def split: option.splits)
    show ?thesis
      by (rule that [OF B _ E])
        (use assms False B E in \<open>auto simp: rx_iteration_def handle_frames_events foldl_push_event Let_def\<close>)
  qed
qed

lemma outside_run:
  assumes "outside i h = (out, h1)"
  shows "run_ops (push kRingCap) (pop kRingCap) (fh_ring h) (replicate (in_pops i) Pop) = ([], out, 0, fh_ring h1)"
    "pkts_dropped h1 = pkts_dropped h" "stop_flag h1 \<longleftrightarrow> stop_flag h \<or> in_stop i"
    "fh_umem h1 = (fh_umem h)\<lparr>fill_ring := in_fill i (fill_ring (fh_umem h))\<rparr>"
    "fh_socket h1 = (fh_socket h)\<lparr>rx_ring := in_rx i (rx_ring (fh_socket h))\<rparr>" "pkts_rx h1 = pkts_rx h"
proof -
  let ?x = "h\<lparr>fh_umem := (fh_umem h)\<lparr>fill_ring := in_fill i (fill_ring (fh_umem h))\<rparr>,
      fh_socket := (fh_socket h)\<lparr>rx_ring := in_rx i (rx_ring (fh_socket h))\<rparr>, stop_flag := stop_flag h \<or> in_stop i\<rparr>"
  note P = pop_n_run [OF assms [unfolded outside_def]]
  then show "run_ops (push kRingCap) (pop kRingCap) (fh_ring h) (replicate (in_pops i) Pop) = ([], out, 0, fh_ring h1)" by simp
  have h1: "h1 = ?x\<lparr>fh_ring := fh_ring h1\<rparr>" using P by blast
  show "pkts_dropped h1 = pkts_dropped h" "stop_flag h1 \<longleftrightarrow> stop_flag h \<or> in_stop i"
    "fh_umem h1 = (fh_umem h)\<lparr>fill_ring := in_fill i (fill_ring (fh_umem h))\<rparr>"
    "fh_socket h1 = (fh_socket h)\<lparr>rx_ring := in_rx i (rx_ring (fh_socket h))\<rparr>" "pkts_rx h1 = pkts_rx h"
    by (subst h1; simp)+
qed

lemma rx_loop_run:
  "rx_loop rapi fapi is descs h = Some (out, ended, h') \<Longrightarrow>
   \<exists>ops acc rej. run_ops (push kRingCap) (pop kRingCap) (fh_ring h) ops = (acc, out, rej, fh_ring h') \<and>
     pkts_dropped h' = pkts_dropped h + of_nat rej \<and> subseq acc (loop_events rapi fapi is descs h) \<and>
     length acc + rej = length (loop_events rapi fapi is descs h)"
proof (induction "is" arbitrary: descs h out)
  case (Cons i "is")
  obtain out1 h1 where o: "outside i h = (out1, h1)" by fastforce
  note O = outside_run [OF o]
  show ?case
  proof (cases "stop_flag h1")
    case True
    then have "out = out1" "h' = h1" "loop_events rapi fapi (i # is) descs h = []" using Cons.prems o by simp_all
    then show ?thesis using O(1,2) by (intro exI [of _ "replicate (in_pops i) Pop"] exI [of _ "[]"] exI [of _ 0]) simp
  next
    case False
    then obtain descs' h2 out2 where it: "rx_iteration rapi fapi (in_mem i) (in_now i) descs h1 = Some (descs', h2)"
      and lp: "rx_loop rapi fapi is descs' h2 = Some (out2, ended, h')" and out: "out = out1 @ out2"
      using Cons.prems o by (auto split: option.splits)
    from it obtain n dout s' evs where I: "rx_burst rapi (fh_socket h1) descs = Some (n, dout, s')" "descs' = dout"
      "frame_events (in_mem i) (region (fh_umem h1)) (in_now i) (take n dout) = Some evs"
      "fh_ring h2 = snd (push_all (push kRingCap) (fh_ring h1) evs)"
      "pkts_dropped h2 = pkts_dropped h1 + of_nat (fst (push_all (push kRingCap) (fh_ring h1) evs))"
      by (rule rx_iteration_run)
    have le: "loop_events rapi fapi (i # is) descs h = evs @ loop_events rapi fapi is descs' h2"
      using o False it I(1-3) by simp
    obtain acc1 where A: "run_ops (push kRingCap) (pop kRingCap) (fh_ring h1) (map Push evs) =
        (acc1, [], fst (push_all (push kRingCap) (fh_ring h1) evs), fh_ring h2)" "subseq acc1 evs"
      "length acc1 + fst (push_all (push kRingCap) (fh_ring h1) evs) = length evs"
      using run_ops_pushes [of "push kRingCap" "pop kRingCap" "fh_ring h1" evs] unfolding I(4) by blast
    obtain ops acc rej where L: "run_ops (push kRingCap) (pop kRingCap) (fh_ring h2) ops = (acc, out2, rej, fh_ring h')"
      "pkts_dropped h' = pkts_dropped h2 + of_nat rej" "subseq acc (loop_events rapi fapi is descs' h2)"
      "length acc + rej = length (loop_events rapi fapi is descs' h2)" using Cons.IH [OF lp] by blast
    have "run_ops (push kRingCap) (pop kRingCap) (fh_ring h) (replicate (in_pops i) Pop @ map Push evs @ ops) =
        (acc1 @ acc, out, fst (push_all (push kRingCap) (fh_ring h1) evs) + rej, fh_ring h')"
      using O(1) A(1) L(1) out by (simp add: run_ops_append)
    moreover have "subseq (acc1 @ acc) (evs @ loop_events rapi fapi is descs' h2)"
      using A(2) L(3) by (rule list_emb_append_mono)
    ultimately show ?thesis using O(2) I(5) L(2,4) A(3) le by fastforce
  qed
qed (auto intro!: exI [of _ "[]"])

text \<open>
  (C3) End to end. Whatever the kernel, the consumer and the stopping thread do between the passes of the receive
  loop, the events the consumer has popped followed by those still in the ring are exactly the accepted events
  in order; the accepted events are a subsequence of the events of all received UDP frames in order
  of arrival, every other one is counted in packets_dropped, and the ring never holds more than 65535.
\<close>

theorem handler_fifo:
  assumes "fh_ring h = SpscRingBuffer_new kRingCap FeedEvent_new" "pkts_dropped h = 0"
    and "rx_loop rapi fapi is descs h = Some (out, ended, h')"
  shows "\<exists>acc. out @ contents kRingCap (fh_ring h') = acc \<and> subseq acc (loop_events rapi fapi is descs h) \<and>
    pkts_dropped h' = of_nat (length (loop_events rapi fapi is descs h) - length acc) \<and>
    length (contents kRingCap (fh_ring h')) \<le> 65535"
proof -
  obtain ops acc rej where R: "run_ops (push kRingCap) (pop kRingCap) (fh_ring h) ops = (acc, out, rej, fh_ring h')"
    "pkts_dropped h' = pkts_dropped h + of_nat rej" "subseq acc (loop_events rapi fapi is descs h)"
    "length acc + rej = length (loop_events rapi fapi is descs h)"
    using rx_loop_run [OF assms(3)] by blast
  have "acc = out @ contents kRingCap (fh_ring h') \<and> length (contents kRingCap (fh_ring h')) \<le> 65535"
    using event_queue.fresh_run_fifo [OF R(1) [unfolded assms(1)]] by (simp add: kRingCap_def)
  moreover have "rej = length (loop_events rapi fapi is descs h) - length acc" using R(4) by simp
  ultimately show ?thesis using R(2,3) assms(2) by simp
qed

lemma rx_release_region: "region (rx_release api u ds) = region u"
  by (simp add: rx_release_def split: prod.split)

text \<open>A pass that finds the frames it needs is defined and leaves the rings ready for the next one.\<close>

lemma rx_pass:
  assumes "cons_laws rapi rv" "prod_laws fapi fv" "peeked rv (rx_ring (fh_socket h)) = 0"
    "staged fv (fill_ring (fh_umem h)) = []" "length descs = kMaxBatch"
    "list_all (\<lambda>d. frame_event m (region (fh_umem h)) now (to_RxDesc d) \<noteq> None) (avail rv (rx_ring (fh_socket h)))"
  obtains descs' h' where "rx_iteration rapi fapi m now descs h = Some (descs', h')" "length descs' = kMaxBatch"
    "peeked rv (rx_ring (fh_socket h')) = 0" "staged fv (fill_ring (fh_umem h')) = []" "stop_flag h' = stop_flag h"
    "region (fh_umem h') = region (fh_umem h)"
proof -
  have len: "length descs < 2 ^ 32" using assms(5) by (simp add: kMaxBatch_def)
  obtain n out s' where B: "rx_burst rapi (fh_socket h) descs = Some (n, out, s')"
    using rx_burst_defined [OF assms(1,3) len] by blast
  note R = rx_burst_eq [OF assms(1,3) len B]
  have "\<forall>d \<in> set (take n out). frame_event m (region (fh_umem h)) now d \<noteq> None"
    unfolding R(3) using assms(6) by (auto simp: list_all_iff dest: in_set_takeD)
  then obtain evs where "frame_events m (region (fh_umem h)) now (take n out) = Some evs"
    using frame_events_defined by blast
  then have "rx_iteration rapi fapi m now descs h \<noteq> None"
    using B by (simp add: rx_iteration_def handle_frames_events Let_def)
  then obtain descs' h' where it: "rx_iteration rapi fapi m now descs h = Some (descs', h')" by auto
  from it obtain n' out' s'' evs' where I: "rx_burst rapi (fh_socket h) descs = Some (n', out', s'')" "descs' = out'"
    "fh_socket h' = s''" "stop_flag h' = stop_flag h" "fh_umem h' = rx_release fapi (fh_umem h) (take n' out')"
    by (rule rx_iteration_run)
  then have I': "descs' = out" "fh_socket h' = s'" "fh_umem h' = rx_release fapi (fh_umem h) (take n out)" using B by simp_all
  have "length (take n out) < 2 ^ 32" using R(6) len by simp
  note Q = rx_release_queue [OF assms(2,4) this]
  show thesis by (rule that [OF it]) (use I' I(4) R(5,6) Q(2) assms(5) in \<open>simp_all add: rx_release_region\<close>)
qed

lemma rx_loop_defined:
  assumes "cons_laws rapi rv" "prod_laws fapi fv" "length descs = kMaxBatch" "\<not> stop_flag h" "inputs_ok rapi fapi fv rv is descs h"
  shows "\<exists>out ended h'. rx_loop rapi fapi is descs h = Some (out, ended, h') \<and> (ended \<longleftrightarrow> (\<exists>i \<in> set is. in_stop i))"
  using assms(3-)
proof (induction "is" arbitrary: descs h)
  case (Cons i "is")
  obtain out1 h1 where o: "outside i h = (out1, h1)" by fastforce
  note O = outside_run [OF o]
  show ?case
  proof (cases "in_stop i")
    case True
    then show ?thesis using o O(3) by auto
  next
    case False
    then have go: "\<not> stop_flag h1" using O(3) Cons.prems(2) by simp
    then have ok: "peeked rv (rx_ring (fh_socket h1)) = 0" "staged fv (fill_ring (fh_umem h1)) = []"
      "list_all (\<lambda>d. frame_event (in_mem i) (region (fh_umem h1)) (in_now i) (to_RxDesc d) \<noteq> None) (avail rv (rx_ring (fh_socket h1)))"
      using Cons.prems(3) o by (simp_all add: Let_def)
    obtain descs' h2 where it: "rx_iteration rapi fapi (in_mem i) (in_now i) descs h1 = Some (descs', h2)" "length descs' = kMaxBatch"
      "stop_flag h2 = stop_flag h1" by (rule rx_pass [OF assms(1,2) ok(1,2) Cons.prems(1) ok(3)])
    have "inputs_ok rapi fapi fv rv is descs' h2" using Cons.prems(3) o go it(1) by (simp add: Let_def)
    then have "\<exists>out ended h'. rx_loop rapi fapi is descs' h2 = Some (out, ended, h') \<and> (ended \<longleftrightarrow> (\<exists>i \<in> set is. in_stop i))"
      using it(2,3) go by (intro Cons.IH) simp_all
    then show ?thesis using o it(1) go False by auto
  qed
qed auto

lemma inputs_ok_step:
  fixes h :: "('f, 'c, 'r, 't) FeedHandler"
  assumes "cons_laws rapi rv" "prod_laws fapi fv" "length descs = kMaxBatch" "\<not> stop_flag h"
    "peeked rv (in_rx i (rx_ring (fh_socket h))) = 0" "staged fv (in_fill i (fill_ring (fh_umem h))) = []"
    "list_all (\<lambda>d. frame_event (in_mem i) (region (fh_umem h)) (in_now i) (to_RxDesc d) \<noteq> None) (avail rv (in_rx i (rx_ring (fh_socket h))))"
    and rest: "\<And>descs' (h2 :: ('f, 'c, 'r, 't) FeedHandler). length descs' = kMaxBatch \<Longrightarrow> \<not> stop_flag h2 \<Longrightarrow> peeked rv (rx_ring (fh_socket h2)) = 0 \<Longrightarrow>
      staged fv (fill_ring (fh_umem h2)) = [] \<Longrightarrow> region (fh_umem h2) = region (fh_umem h) \<Longrightarrow> inputs_ok rapi fapi fv rv is descs' h2"
  shows "inputs_ok rapi fapi fv rv (i # is) descs h"
proof -
  obtain out1 h1 where o: "outside i h = (out1, h1)" by fastforce
  note O = outside_run [OF o]
  have ok: "peeked rv (rx_ring (fh_socket h1)) = 0" "staged fv (fill_ring (fh_umem h1)) = []" "region (fh_umem h1) = region (fh_umem h)"
    "list_all (\<lambda>d. frame_event (in_mem i) (region (fh_umem h1)) (in_now i) (to_RxDesc d) \<noteq> None) (avail rv (rx_ring (fh_socket h1)))"
    using assms(5-7) by (simp_all add: O(4,5))
  obtain descs' h2 where "rx_iteration rapi fapi (in_mem i) (in_now i) descs h1 = Some (descs', h2)" "length descs' = kMaxBatch"
    "peeked rv (rx_ring (fh_socket h2)) = 0" "staged fv (fill_ring (fh_umem h2)) = []" "stop_flag h2 = stop_flag h1"
    "region (fh_umem h2) = region (fh_umem h1)" by (rule rx_pass [OF assms(1,2) ok(1,2) assms(3) ok(4)])
  moreover from this have "\<not> stop_flag h1 \<longrightarrow> inputs_ok rapi fapi fv rv is descs' h2" using ok(3) by (auto intro!: rest)
  ultimately show ?thesis using o ok by (simp add: Let_def)
qed

text \<open>
  (C13) The receive loop does not get stuck and obeys stop(). Assume that at each pass the kernel has left no ring slot half claimed, and the
  packet memory covers the frames whose descriptors are then on the RX ring; a pass with an empty RX ring needs no memory. Then every
  pass is defined, and the loop ends exactly when the stop flag is stored: it is then left at the next
  check, after at most one more pass, so the join in stop() returns.
\<close>

theorem rx_loop_total:
  assumes "cons_laws rapi rv" "prod_laws fapi fv" "length descs = kMaxBatch" "\<not> stop_flag h"
    and "inputs_ok rapi fapi fv rv is descs h"
  shows "\<exists>out ended h'. rx_loop rapi fapi is descs h = Some (out, ended, h') \<and> (ended \<longleftrightarrow> (\<exists>i \<in> set is. in_stop i))"
  by (rule rx_loop_defined [OF assms])

lemma demo_handler_sel [simp]:
  "fh_umem (demo_handler f r) = tiny_umem f ()" "fh_socket (demo_handler f r) = tiny_socket r ()"
  "fh_ring (demo_handler f r) = SpscRingBuffer_new kRingCap FeedEvent_new" "pkts_dropped (demo_handler f r) = 0"
  "stop_flag (demo_handler f r) = False" "rx_thread (demo_handler f r) = False" "region (tiny_umem f c) = 4096"
  by (simp_all add: demo_handler_def tiny_umem_def)

lemma demo_frame: "frame_event (mem_of 4352 (bench_frame 24)) 4096 9 (to_RxDesc (demo_desc 256)) \<noteq> None"
  by code_simp

lemma demo_batch: "length (replicate kMaxBatch blank_rx) = kMaxBatch" by simp

lemma demo_inputs_ok:
  fixes h :: "(u64 lring, 'c, xdp_desc lcons, 't) FeedHandler"
  assumes "length descs = kMaxBatch" "\<not> stop_flag h" "staged lring_prod_view (fill_ring (fh_umem h)) = []" "region (fh_umem h) = 4096"
  shows "inputs_ok lring_cons (lring_prod 0) lring_prod_view lring_cons_view demo_inputs descs h"
proof -
  have last: "inputs_ok lring_cons (lring_prod 0) lring_prod_view lring_cons_view (tl demo_inputs) descs' h2"
    if "staged lring_prod_view (fill_ring (fh_umem h2)) = []" for descs' and h2 :: "(u64 lring, 'c, xdp_desc lcons, 't) FeedHandler"
  proof -
    obtain out1 h1 where o: "outside (demo_inputs ! 1) h2 = (out1, h1)" by fastforce
    show ?thesis using o outside_run(3-5) [OF o] that by (simp add: demo_inputs_def)
  qed
  have "inputs_ok lring_cons (lring_prod 0) lring_prod_view lring_cons_view (demo_inputs ! 0 # tl demo_inputs) descs h"
    by (rule inputs_ok_step [OF lring_cons_laws lring_prod_laws assms(1,2)])
      (use assms(3,4) demo_frame last in \<open>simp_all add: demo_inputs_def\<close>)
  then show ?thesis by (simp add: demo_inputs_def)
qed

lemma idle_demo_inputs_ok:
  "inputs_ok lring_cons (lring_prod 0) lring_prod_view lring_cons_view (idle_input # demo_inputs) (replicate kMaxBatch blank_rx)
     (demo_handler (empty_lring 7 2) (lcons_of 0 []))"
  by (rule inputs_ok_step [OF lring_cons_laws lring_prod_laws demo_batch]) (simp_all add: idle_input_def demo_inputs_ok)

theorem rx_loop_total_witness:
  "\<exists>out h'. rx_loop lring_cons (lring_prod 0) (idle_input # demo_inputs) (replicate kMaxBatch blank_rx) (demo_handler (empty_lring 7 2) (lcons_of 0 []))
     = Some (out, True, h')"
  using rx_loop_total [OF lring_cons_laws lring_prod_laws demo_batch _ idle_demo_inputs_ok] by (auto simp: demo_inputs_def)

theorem handler_fifo_witness:
  "\<exists>out h'. rx_loop lring_cons (lring_prod 0) demo_inputs (replicate kMaxBatch blank_rx) (demo_handler (empty_lring 7 2) (lcons_of 0 []))
     = Some (out, True, h') \<and>
   subseq (out @ contents kRingCap (fh_ring h'))
     (loop_events lring_cons (lring_prod 0) demo_inputs (replicate kMaxBatch blank_rx) (demo_handler (empty_lring 7 2) (lcons_of 0 [])))"
proof -
  let ?h = "demo_handler (empty_lring 7 2) (lcons_of 0 [])"
  have ok: "inputs_ok lring_cons (lring_prod 0) lring_prod_view lring_cons_view demo_inputs (replicate kMaxBatch blank_rx) ?h"
    by (rule demo_inputs_ok) simp_all
  obtain out h' where L: "rx_loop lring_cons (lring_prod 0) demo_inputs (replicate kMaxBatch blank_rx) ?h = Some (out, True, h')"
    using rx_loop_defined [OF lring_cons_laws lring_prod_laws demo_batch _ ok] by (auto simp: demo_inputs_def)
  from handler_fifo [OF _ _ L] L show ?thesis by auto
qed

theorem rx_iteration_spec_witness:
  "\<exists>n descs' h'. rx_iteration lring_cons (lring_prod 0) (mem_of 4352 (bench_frame 24)) 9 (replicate kMaxBatch blank_rx)
      (demo_handler (empty_lring 7 2) (lcons_of 0 [demo_desc 256])) = Some (descs', h') \<and> n = 1 \<and>
    avail lring_cons_view (rx_ring (fh_socket h')) = [] \<and> queued lring_prod_view (fill_ring (fh_umem h')) = [256]"
proof -
  let ?h = "demo_handler (empty_lring 7 2) (lcons_of 0 [demo_desc 256])"
  have inv: "ring_inv kRingCap (fh_ring ?h)" using event_queue.invar_fresh by simp
  obtain n descs' h' where "rx_iteration lring_cons (lring_prod 0) (mem_of 4352 (bench_frame 24)) 9 (replicate kMaxBatch blank_rx) ?h
      = Some (descs', h')" "0 < n" "n \<le> 1" "avail lring_cons_view (rx_ring (fh_socket h')) = drop n [demo_desc 256]"
    "n \<le> 2 \<longrightarrow> queued lring_prod_view (fill_ring (fh_umem h')) = map d_addr (take n [demo_desc 256])"
    using rx_iteration_spec [OF lring_cons_laws lring_prod_laws _ _ demo_batch inv, of "mem_of 4352 (bench_frame 24)" 9 0] demo_frame
    by auto
  moreover from this have "n = 1" by simp
  ultimately show ?thesis by (auto simp: demo_desc_def)
qed

end
