(* ===== verification/Synthetic_Sender.thy ===== *)
theory Synthetic_Sender
  imports Feed_Prelude Clock "HOL-Library.Monad_Syntax"
begin

text \<open>
  \<open>SyntheticSender\<close> of \<open>include/ultrafast/synthetic_sender.hpp\<close>. The system calls it makes act on a small model of a thread's
  file descriptors and network namespace; whether a call fails comes from a plan, a function of the number of calls made
  so far. Closing a descriptor that is not open is an error the code must not make: the model returns None.
\<close>

section \<open>System calls\<close>

datatype descr = Ns_fd nat | Sock nat "bytes option"

record datagram =
  dg_ns :: nat
  dg_addr :: bytes
  dg_port :: u16
  dg_data :: bytes

record net =
  fds :: "int \<Rightarrow> descr option"
  next_fd :: int
  cur_ns :: nat
  netns :: "string \<Rightarrow> nat option"
  net_calls :: nat
  sent :: "datagram list"

record net_plan =
  open_fails :: "nat \<Rightarrow> bool"
  setns_fails :: "nat \<Rightarrow> bool"
  socket_fails :: "nat \<Rightarrow> bool"
  bind_fails :: "nat \<Rightarrow> bool"
  send_fails :: "nat \<Rightarrow> bool"
  errno_at :: "nat \<Rightarrow> int"

definition count_call :: "net \<Rightarrow> net" where
  "count_call n = n\<lparr>net_calls := Suc (net_calls n)\<rparr>"

definition new_fd :: "descr \<Rightarrow> net \<Rightarrow> int \<times> net" where
  "new_fd d n = (next_fd n, n\<lparr>fds := (fds n)(next_fd n \<mapsto> d), next_fd := next_fd n + 1\<rparr>)"

text \<open>The two paths the sender opens: its own namespace and a named one.\<close>

definition sys_open_self_ns :: "net_plan \<Rightarrow> net \<Rightarrow> int \<times> net" where
  "sys_open_self_ns plan n =
     (if open_fails plan (net_calls n) then (- 1, count_call n) else new_fd (Ns_fd (cur_ns n)) (count_call n))"

definition sys_open_netns :: "net_plan \<Rightarrow> string \<Rightarrow> net \<Rightarrow> int \<times> net" where
  "sys_open_netns plan name n =
     (case netns n name of
        None \<Rightarrow> (- 1, count_call n)
      | Some k \<Rightarrow> if open_fails plan (net_calls n) then (- 1, count_call n) else new_fd (Ns_fd k) (count_call n))"

definition sys_setns :: "net_plan \<Rightarrow> int \<Rightarrow> net \<Rightarrow> bool \<times> net" where
  "sys_setns plan fd n =
     (case fds n fd of
        Some (Ns_fd k) \<Rightarrow> if setns_fails plan (net_calls n) then (False, count_call n) else (True, (count_call n)\<lparr>cur_ns := k\<rparr>)
      | _ \<Rightarrow> (False, count_call n))"

definition sys_close :: "int \<Rightarrow> net \<Rightarrow> net option" where
  "sys_close fd n = (case fds n fd of None \<Rightarrow> None | Some d \<Rightarrow> Some (n\<lparr>fds := (fds n)(fd := None)\<rparr>))"

definition sys_socket :: "net_plan \<Rightarrow> net \<Rightarrow> int \<times> net" where
  "sys_socket plan n =
     (if socket_fails plan (net_calls n) then (- 1, count_call n) else new_fd (Sock (cur_ns n) None) (count_call n))"

definition sys_bind :: "net_plan \<Rightarrow> int \<Rightarrow> bytes \<Rightarrow> net \<Rightarrow> bool \<times> net" where
  "sys_bind plan fd a n =
     (case fds n fd of
        Some (Sock k _) \<Rightarrow> if bind_fails plan (net_calls n) then (False, count_call n)
                         else (True, (count_call n)\<lparr>fds := (fds n)(fd \<mapsto> Sock k (Some a))\<rparr>)
      | _ \<Rightarrow> (False, count_call n))"

definition sys_sendto :: "net_plan \<Rightarrow> int \<Rightarrow> bytes \<Rightarrow> u16 \<Rightarrow> bytes \<Rightarrow> net \<Rightarrow> bool \<times> net" where
  "sys_sendto plan fd a p buf n =
     (case fds n fd of
        Some (Sock k _) \<Rightarrow> if send_fails plan (net_calls n) then (False, count_call n)
          else (True, (count_call n)\<lparr>sent := sent n @ [\<lparr>dg_ns = k, dg_addr = a, dg_port = p, dg_data = buf\<rparr>]\<rparr>)
      | _ \<Rightarrow> (False, count_call n))"

section \<open>Address text\<close>

text \<open>\<open>inet_pton(AF_INET, ...)\<close>: four decimal numbers up to 255 without leading zeros, separated by dots.\<close>

fun octet_value :: "nat \<Rightarrow> string \<Rightarrow> nat option" where
  "octet_value acc [] = Some acc"
| "octet_value acc (c # cs) = (case digit c of None \<Rightarrow> None | Some d \<Rightarrow> octet_value (10 * acc + d) cs)"

definition octet :: "string \<Rightarrow> u8 option" where
  "octet cs =
     (if cs = [] \<or> length cs > 3 \<or> length cs > 1 \<and> hd cs = CHR ''0'' then None
      else case octet_value 0 cs of None \<Rightarrow> None | Some v \<Rightarrow> if v \<le> 255 then Some (of_nat v) else None)"

fun split_dots :: "string \<Rightarrow> string list" where
  "split_dots [] = [[]]"
| "split_dots (c # cs) = (if c = CHR ''.'' then [] # split_dots cs
     else case split_dots cs of [] \<Rightarrow> [[c]] | p # ps \<Rightarrow> (c # p) # ps)"

definition inet_pton :: "string \<Rightarrow> bytes option" where
  "inet_pton s = (let ps = split_dots s in if length ps = 4 then those (map octet ps) else None)"

section \<open>The sender\<close>

record SyntheticSender =
  sock_fd :: int
  dst_addr :: bytes
  dst_sin_port :: u16

datatype sender_error =
    Open_self_ns_failed
  | Open_ns_failed string
  | Setns_failed string int
  | Socket_failed
  | Invalid_src_ip string
  | Bind_failed string
  | Invalid_dst_ip string
  | Sendto_failed int

text \<open>Entering the namespace; the result is \<open>saved_ns_fd\<close>.\<close>

definition enter_ns :: "net_plan \<Rightarrow> string \<Rightarrow> net \<Rightarrow> ((sender_error + int) \<times> net) option" where
  "enter_ns plan ns_name n =
     (if ns_name = [] then Some (Inr (- 1), n)
      else let (saved_ns_fd, n1) = sys_open_self_ns plan n
      in if saved_ns_fd < 0 then Some (Inl Open_self_ns_failed, n1)
      else let (ns_fd, n2) = sys_open_netns plan ns_name n1
      in if ns_fd < 0 then do { n3 \<leftarrow> sys_close saved_ns_fd n2; Some (Inl (Open_ns_failed ns_name), n3) }
      else let (ok, n3) = sys_setns plan ns_fd n2
      in if \<not> ok then do { n4 \<leftarrow> sys_close ns_fd n3; n5 \<leftarrow> sys_close saved_ns_fd n4;
                          Some (Inl (Setns_failed ns_name (errno_at plan (net_calls n2))), n5) }
      else do { n4 \<leftarrow> sys_close ns_fd n3; Some (Inr saved_ns_fd, n4) })"

definition leave_ns :: "net_plan \<Rightarrow> int \<Rightarrow> net \<Rightarrow> net option" where
  "leave_ns plan saved_ns_fd n =
     (if saved_ns_fd \<ge> 0 then let (_, n1) = sys_setns plan saved_ns_fd n in sys_close saved_ns_fd n1 else Some n)"

definition SyntheticSender_new ::
  "net_plan \<Rightarrow> string \<Rightarrow> string \<Rightarrow> u16 \<Rightarrow> string \<Rightarrow> net \<Rightarrow> ((sender_error + SyntheticSender) \<times> net) option" where
  "SyntheticSender_new plan src_ip dst_ip dst_port ns_name n =
     do {
       (entered, n1) \<leftarrow> enter_ns plan ns_name n;
       (case entered of
          Inl e \<Rightarrow> Some (Inl e, n1)
        | Inr saved_ns_fd \<Rightarrow>
            let (fd, n2) = sys_socket plan n1
            in if fd < 0 then do { n3 \<leftarrow> leave_ns plan saved_ns_fd n2; Some (Inl Socket_failed, n3) }
            else case inet_pton src_ip of
              None \<Rightarrow> do { n3 \<leftarrow> sys_close fd n2; n4 \<leftarrow> leave_ns plan saved_ns_fd n3; Some (Inl (Invalid_src_ip src_ip), n4) }
            | Some src \<Rightarrow>
                let (ok, n3) = sys_bind plan fd src n2
                in if \<not> ok then do { n4 \<leftarrow> sys_close fd n3; n5 \<leftarrow> leave_ns plan saved_ns_fd n4; Some (Inl (Bind_failed src_ip), n5) }
                else case inet_pton dst_ip of
                  None \<Rightarrow> do { n4 \<leftarrow> sys_close fd n3; n5 \<leftarrow> leave_ns plan saved_ns_fd n4; Some (Inl (Invalid_dst_ip dst_ip), n5) }
                | Some dst \<Rightarrow> do { n4 \<leftarrow> leave_ns plan saved_ns_fd n3;
                    Some (Inr \<lparr>sock_fd = fd, dst_addr = dst, dst_sin_port = ntohs dst_port\<rparr>, n4) })
     }"

definition SyntheticSender_destroy :: "SyntheticSender \<Rightarrow> net \<Rightarrow> net option" where
  "SyntheticSender_destroy s n = (if sock_fd s \<ge> 0 then sys_close (sock_fd s) n else Some n)"

definition SyntheticSender_clock_ns :: "clock \<Rightarrow> time_event list \<Rightarrow> u64" where
  "SyntheticSender_clock_ns clk tr = (let (tv_sec, tv_nsec) = clk tr in tv_sec * 1000000000 + tv_nsec)"

definition send_one ::
  "net_plan \<Rightarrow> clock \<Rightarrow> SyntheticSender \<Rightarrow> net \<times> time_event list \<Rightarrow> (sender_error + u64) \<times> net \<times> time_event list" where
  "send_one plan clk s st =
     (let (n, tr) = st;
          ts = SyntheticSender_clock_ns clk tr;
          buf = le_bytes 8 ts @ replicate (64 - 8) 0xAB;
          (ok, n1) = sys_sendto plan (sock_fd s) (dst_addr s) (dst_sin_port s) buf n
      in (if ok then Inr ts else Inl (Sendto_failed (errno_at plan (net_calls n))), n1, Clock_read ts # tr))"

text \<open>\<open>send_burst\<close> with \<open>count - i\<close> iterations left; an exception ends the loop.\<close>

fun send_loop ::
  "net_plan \<Rightarrow> clock \<Rightarrow> SyntheticSender \<Rightarrow> int \<Rightarrow> nat \<Rightarrow> net \<times> time_event list
   \<Rightarrow> sender_error option \<times> net \<times> time_event list" where
  "send_loop plan clk s inter_us 0 st = (None, st)"
| "send_loop plan clk s inter_us (Suc k) st =
     (case send_one plan clk s st of
        (Inl e, st1) \<Rightarrow> (Some e, st1)
      | (Inr ts, n1, tr1) \<Rightarrow>
          send_loop plan clk s inter_us k (n1, if inter_us > 0 then Usleep (of_int inter_us) # tr1 else tr1))"

definition send_burst ::
  "net_plan \<Rightarrow> clock \<Rightarrow> SyntheticSender \<Rightarrow> int \<Rightarrow> int \<Rightarrow> net \<times> time_event list \<Rightarrow> sender_error option \<times> net \<times> time_event list" where
  "send_burst plan clk s count inter_us st = send_loop plan clk s inter_us (nat count) st"

section \<open>Specification\<close>

definition net_ok :: "net \<Rightarrow> bool" where
  "net_ok n \<longleftrightarrow> 0 \<le> next_fd n \<and> (\<forall>fd \<in> dom (fds n). 0 \<le> fd \<and> fd < next_fd n)"

definition payload_of :: "u64 \<Rightarrow> bytes" where
  "payload_of ts = le_bytes 8 ts @ replicate 56 0xAB"

definition datagram_of :: "SyntheticSender \<Rightarrow> nat \<Rightarrow> u64 \<Rightarrow> datagram" where
  "datagram_of s k ts = \<lparr>dg_ns = k, dg_addr = dst_addr s, dg_port = dst_sin_port s, dg_data = payload_of ts\<rparr>"

text \<open>What holds after \<open>enter_ns\<close>.\<close>

definition entered :: "string \<Rightarrow> net \<Rightarrow> sender_error + int \<Rightarrow> net \<Rightarrow> bool" where
  "entered ns n r n1 \<longleftrightarrow> net_ok n1 \<and> sent n1 = sent n \<and>
    (case r of Inl e \<Rightarrow> fds n1 = fds n \<and> cur_ns n1 = cur_ns n
     | Inr saved \<Rightarrow> if ns = [] then saved = - 1 \<and> n1 = n
         else 0 \<le> saved \<and> fds n saved = None \<and> fds n1 = (fds n)(saved \<mapsto> Ns_fd (cur_ns n)) \<and> netns n ns = Some (cur_ns n1) \<and>
           net_calls n1 = net_calls n + 3)"

text \<open>The namespace the socket belongs to.\<close>

definition target_ns :: "string \<Rightarrow> net \<Rightarrow> nat" where
  "target_ns ns n = (if ns = [] then cur_ns n else the (netns n ns))"

definition sender_made :: "net_plan \<Rightarrow> string \<Rightarrow> string \<Rightarrow> net \<Rightarrow> sender_error + SyntheticSender \<Rightarrow> net \<Rightarrow> bool" where
  "sender_made plan src_ip ns n res n' \<longleftrightarrow> sent n' = sent n \<and>
     (case res of Inl e \<Rightarrow> fds n' = fds n
      | Inr s \<Rightarrow> 0 \<le> sock_fd s \<and> fds n (sock_fd s) = None \<and> inet_pton src_ip \<noteq> None \<and>
          fds n' = (fds n)(sock_fd s \<mapsto> Sock (target_ns ns n) (inet_pton src_ip))) \<and>
     ((\<forall>k > net_calls n + 2. \<not> setns_fails plan k) \<longrightarrow> cur_ns n' = cur_ns n)"

text \<open>The timestamps \<open>ts\<close> are those of the datagrams a run adds to what was sent.\<close>

definition sent_at :: "SyntheticSender \<Rightarrow> nat \<Rightarrow> u64 list \<Rightarrow> net \<Rightarrow> net \<Rightarrow> bool" where
  "sent_at s k ts n n' \<longleftrightarrow> fds n' = fds n \<and> next_fd n' = next_fd n \<and> netns n' = netns n \<and> cur_ns n' = cur_ns n \<and>
     sent n' = sent n @ map (datagram_of s k) ts"

text \<open>A network on which no call fails, with the namespace in place.\<close>

definition quiet_net :: "net_plan \<Rightarrow> string \<Rightarrow> net \<Rightarrow> bool" where
  "quiet_net plan ns n \<longleftrightarrow> netns n ns \<noteq> None \<and>
     (\<forall>c. \<not> open_fails plan c \<and> \<not> setns_fails plan c \<and> \<not> socket_fails plan c \<and> \<not> bind_fails plan c \<and> \<not> send_fails plan c)"

text \<open>The addresses, port and namespace that the tools and the benchmark use.\<close>

definition demo_net :: net where
  "demo_net = \<lparr>fds = (\<lambda>_. None), next_fd = 3, cur_ns = 0, netns = [''sender_ns'' \<mapsto> 1], net_calls = 0, sent = []\<rparr>"

definition demo_plan :: "nat \<Rightarrow> net_plan" where
  "demo_plan k = \<lparr>open_fails = (\<lambda>_. False), setns_fails = (\<lambda>_. False), socket_fails = (\<lambda>_. False),
     bind_fails = (\<lambda>_. False), send_fails = (\<lambda>c. c = k), errno_at = (\<lambda>_. 101)\<rparr>"

lemmas sys_defs = sys_open_self_ns_def sys_open_netns_def sys_setns_def sys_close_def sys_socket_def sys_bind_def new_fd_def count_call_def

lemma net_ok_fresh:
  assumes "net_ok n" "next_fd n \<le> fd"
  shows "fds n fd = None"
proof (rule ccontr)
  assume "fds n fd \<noteq> None"
  then have "fd \<in> dom (fds n)" by (simp add: domIff)
  then have "fd < next_fd n" using assms(1) by (simp add: net_ok_def)
  then show False using assms(2) by simp
qed

lemma net_ok_next: "net_ok n \<Longrightarrow> 0 \<le> next_fd n"
  by (simp add: net_ok_def)

lemma net_ok_keep:
  assumes "net_ok n" "next_fd n \<le> next_fd n'" "dom (fds n') \<subseteq> insert fd (dom (fds n))" "0 \<le> fd" "fd < next_fd n'"
  shows "net_ok n'"
  unfolding net_ok_def
proof (intro conjI ballI)
  show "0 \<le> next_fd n'" using assms(4,5) by simp
  fix x assume "x \<in> dom (fds n')"
  then have "x = fd \<or> x \<in> dom (fds n)" using assms(3) by (simp add: subset_eq)
  then have "0 \<le> x \<and> x < next_fd n'"
  proof
    assume "x \<in> dom (fds n)"
    then have "0 \<le> x \<and> x < next_fd n" using assms(1) by (simp add: net_ok_def)
    then show ?thesis using assms(2) by simp
  qed (use assms(4,5) in simp)
  then show "0 \<le> x" "x < next_fd n'" by simp_all
qed

lemma net_ok_same:
  assumes "net_ok n" "next_fd n \<le> next_fd n'" "dom (fds n') \<subseteq> dom (fds n)"
  shows "net_ok n'"
  unfolding net_ok_def
proof (intro conjI ballI)
  show "0 \<le> next_fd n'" using net_ok_next [OF assms(1)] assms(2) by simp
  fix x assume "x \<in> dom (fds n')"
  then have "x \<in> dom (fds n)" using assms(3) by (rule subsetD [rotated])
  then have "0 \<le> x \<and> x < next_fd n" using assms(1) by (simp add: net_ok_def)
  then show "0 \<le> x" "x < next_fd n'" using assms(2) by simp_all
qed

lemma enter_ns_spec:
  assumes "net_ok n"
  obtains r n1 where "enter_ns plan ns n = Some (r, n1)" "entered ns n r n1"
proof -
  let ?a = "next_fd n" and ?c = "net_calls n"
  have f: "fds n ?a = None" "fds n (?a + 1) = None" "0 \<le> ?a" using assms net_ok_fresh net_ok_next by simp_all
  have u: "(fds n)(?a \<mapsto> x, ?a + 1 := None) = (fds n)(?a \<mapsto> x)" "(fds n)(?a + 1 := None, ?a := None) = fds n" for x
    using f by (auto simp: fun_eq_iff)
  consider (none) "ns = []" | (self) "ns \<noteq> []" "open_fails plan ?c"
    | (noopen) "ns \<noteq> []" "\<not> open_fails plan ?c" "netns n ns = None \<or> open_fails plan (Suc ?c)"
    | (noset) k where "ns \<noteq> []" "\<not> open_fails plan ?c" "netns n ns = Some k" "\<not> open_fails plan (Suc ?c)" "setns_fails plan (Suc (Suc ?c))"
    | (ok) k where "ns \<noteq> []" "\<not> open_fails plan ?c" "netns n ns = Some k" "\<not> open_fails plan (Suc ?c)" "\<not> setns_fails plan (Suc (Suc ?c))"
    by (cases "netns n ns") auto
  then show thesis
  proof cases
    case none
    then show thesis using assms by (intro that [of "Inr (- 1)" n]) (simp_all add: enter_ns_def entered_def)
  next
    case self
    let ?n = "n\<lparr>net_calls := Suc ?c\<rparr>"
    have "enter_ns plan ns n = Some (Inl Open_self_ns_failed, ?n)" using self by (simp add: enter_ns_def sys_defs)
    moreover have "net_ok ?n" by (rule net_ok_same [OF assms]) simp_all
    then have "entered ns n (Inl Open_self_ns_failed) ?n" by (simp add: entered_def)
    ultimately show thesis by (rule that)
  next
    case noopen
    let ?n = "n\<lparr>next_fd := ?a + 1, net_calls := Suc (Suc ?c)\<rparr>"
    have "enter_ns plan ns n = Some (Inl (Open_ns_failed ns), ?n)"
      using noopen f by (cases "netns n ns") (auto simp: enter_ns_def sys_defs fun_upd_idem)
    moreover have "net_ok ?n" by (rule net_ok_same [OF assms]) simp_all
    then have "entered ns n (Inl (Open_ns_failed ns)) ?n" by (simp add: entered_def)
    ultimately show thesis by (rule that)
  next
    case noset
    let ?n = "n\<lparr>next_fd := ?a + 1 + 1, net_calls := Suc (Suc (Suc ?c))\<rparr>"
    have "enter_ns plan ns n = Some (Inl (Setns_failed ns (errno_at plan (Suc (Suc ?c)))), ?n)"
      using noset f by (simp add: enter_ns_def sys_defs u fun_upd_idem)
    moreover have "net_ok ?n" by (rule net_ok_same [OF assms]) simp_all
    then have "entered ns n (Inl (Setns_failed ns (errno_at plan (Suc (Suc ?c))))) ?n" by (simp add: entered_def)
    ultimately show thesis by (rule that)
  next
    case ok
    let ?n = "n\<lparr>fds := (fds n)(?a \<mapsto> Ns_fd (cur_ns n)), next_fd := ?a + 1 + 1, cur_ns := k, net_calls := Suc (Suc (Suc ?c))\<rparr>"
    have "enter_ns plan ns n = Some (Inr ?a, ?n)"
      using ok f by (simp add: enter_ns_def sys_defs u)
    moreover have "net_ok ?n" using f(3) by (intro net_ok_keep [OF assms, of _ ?a]) auto
    then have "entered ns n (Inr ?a) ?n" using ok f by (simp add: entered_def)
    ultimately show thesis by (rule that)
  qed
qed

text \<open>Leaving the namespace closes the saved descriptor and goes back, unless that \<open>setns\<close> fails.\<close>

lemma leave_ns_spec:
  assumes "if ns = [] then saved = - 1 else 0 \<le> saved \<and> fds n saved = Some (Ns_fd k)"
  obtains n1 where "leave_ns plan saved n = Some n1" "sent n1 = sent n" "next_fd n1 = next_fd n"
    "fds n1 = (if ns = [] then fds n else (fds n)(saved := None))"
    "cur_ns n1 = (if ns = [] \<or> setns_fails plan (net_calls n) then cur_ns n else k)"
proof (cases "ns = []")
  case True
  then show thesis using assms by (intro that [of n]) (simp_all add: leave_ns_def)
next
  case False
  let ?n = "n\<lparr>fds := (fds n)(saved := None), cur_ns := (if setns_fails plan (net_calls n) then cur_ns n else k), net_calls := Suc (net_calls n)\<rparr>"
  have "leave_ns plan saved n = Some ?n" using assms False by (simp add: leave_ns_def sys_defs)
  then show thesis using False by (intro that [of ?n]) simp_all
qed

lemma leave_made:
  assumes "entered ns n (Inr saved) n1" "net_calls n1 \<le> net_calls n2" "cur_ns n2 = cur_ns n1" "sent n2 = sent n1"
    "fds n2 = (fds n1)(fd := d)" "fds n1 fd = None"
  obtains n3 where "leave_ns plan saved n2 = Some n3" "fds n3 = (fds n)(fd := d)" "sent n3 = sent n"
    "(\<forall>k > net_calls n + 2. \<not> setns_fails plan k) \<longrightarrow> cur_ns n3 = cur_ns n"
proof -
  have e: "sent n1 = sent n" "if ns = [] then saved = - 1 \<and> n1 = n
         else 0 \<le> saved \<and> fds n saved = None \<and> fds n1 = (fds n)(saved \<mapsto> Ns_fd (cur_ns n)) \<and> netns n ns = Some (cur_ns n1) \<and>
           net_calls n1 = net_calls n + 3" using assms(1) by (simp_all add: entered_def)
  have "if ns = [] then saved = - 1 else 0 \<le> saved \<and> fds n2 saved = Some (Ns_fd (cur_ns n))"
    using e(2) assms(5,6) by (auto split: if_splits)
  then obtain n3 where 3: "leave_ns plan saved n2 = Some n3" "sent n3 = sent n2"
    "fds n3 = (if ns = [] then fds n2 else (fds n2)(saved := None))"
    "cur_ns n3 = (if ns = [] \<or> setns_fails plan (net_calls n2) then cur_ns n2 else cur_ns n)" by (rule leave_ns_spec)
  have "fds n3 = (fds n)(fd := d)"
  proof (cases "ns = []")
    case True
    then show ?thesis using 3(3) e(2) assms(5) by simp
  next
    case False
    then have "fds n3 = ((fds n)(saved \<mapsto> Ns_fd (cur_ns n)))(fd := d, saved := None)" "fds n saved = None" "fd \<noteq> saved"
      using 3(3) e(2) assms(5,6) by auto
    then show ?thesis by (auto simp: fun_eq_iff)
  qed
  moreover have "(\<forall>k > net_calls n + 2. \<not> setns_fails plan k) \<longrightarrow> cur_ns n3 = cur_ns n"
  proof (cases "ns = []")
    case True
    then show ?thesis using 3(4) e(2) assms(3) by simp
  next
    case False
    then have "net_calls n + 2 < net_calls n2" using e(2) assms(2) by simp
    then show ?thesis using 3(4) False by simp
  qed
  ultimately show thesis using 3(1,2) e(1) assms(4) by (intro that [of n3]) simp_all
qed

lemma error_made:
  assumes "entered ns n (Inr saved) n1" "net_calls n1 \<le> net_calls n2" "cur_ns n2 = cur_ns n1" "sent n2 = sent n1" "fds n2 = fds n1"
  shows "\<exists>n3. leave_ns plan saved n2 = Some n3 \<and> sender_made plan src_ip ns n (Inl e) n3"
proof -
  have ok: "net_ok n1" using assms(1) by (simp add: entered_def)
  let ?fd = "next_fd n1"
  have fd: "fds n1 ?fd = None" by (rule net_ok_fresh [OF ok order_refl])
  have "fds n ?fd = None" using assms(1) fd by (auto simp: entered_def split: if_splits)
  moreover have "fds n2 = (fds n1)(?fd := None)" using fd assms(5) by (simp add: fun_upd_idem)
  then obtain n3 where "leave_ns plan saved n2 = Some n3" "fds n3 = (fds n)(?fd := None)" "sent n3 = sent n"
    "(\<forall>k > net_calls n + 2. \<not> setns_fails plan k) \<longrightarrow> cur_ns n3 = cur_ns n" using fd by (rule leave_made [OF assms(1-4)])
  ultimately show ?thesis by (simp add: sender_made_def fun_upd_idem)
qed

lemma sender_success:
  assumes "entered ns n (Inr saved) n1" "net_calls n1 \<le> net_calls n2" "cur_ns n2 = cur_ns n1" "sent n2 = sent n1"
    "fds n2 = (fds n1)(fd \<mapsto> Sock (cur_ns n1) (Some src))" "fds n1 fd = None" "0 \<le> fd" "inet_pton src_ip = Some src"
  shows "\<exists>n3. leave_ns plan saved n2 = Some n3 \<and> (\<forall>a p. let s = \<lparr>sock_fd = fd, dst_addr = a, dst_sin_port = p\<rparr>
    in sender_made plan src_ip ns n (Inr s) n3 \<and> (\<exists>n4. SyntheticSender_destroy s n3 = Some n4 \<and> fds n4 = fds n))"
proof -
  have tg: "cur_ns n1 = target_ns ns n" using assms(1) by (auto simp: entered_def target_ns_def split: if_splits)
  have fd: "fds n fd = None" using assms(1,6) by (auto simp: entered_def split: if_splits)
  obtain n3 where "leave_ns plan saved n2 = Some n3" "fds n3 = (fds n)(fd \<mapsto> Sock (cur_ns n1) (Some src))" "sent n3 = sent n"
    "(\<forall>k > net_calls n + 2. \<not> setns_fails plan k) \<longrightarrow> cur_ns n3 = cur_ns n" using assms(1-6) by (rule leave_made)
  then show ?thesis using assms(7,8) tg fd
    by (simp add: sender_made_def SyntheticSender_destroy_def sys_close_def fun_upd_idem)
qed

lemma sender_after_enter:
  assumes "enter_ns plan ns n = Some (Inr saved, n1)" "entered ns n (Inr saved) n1"
  shows "\<exists>res n'. SyntheticSender_new plan src_ip dst_ip dst_port ns n = Some (res, n') \<and> sender_made plan src_ip ns n res n' \<and>
    (\<forall>s. res = Inr s \<longrightarrow> (\<exists>n''. SyntheticSender_destroy s n' = Some n'' \<and> fds n'' = fds n))"
proof -
  note en = assms(2)
  have ok1: "net_ok n1" using en by (simp add: entered_def)
  let ?fd = "next_fd n1" and ?c = "net_calls n1"
  have fd: "fds n1 ?fd = None" "0 \<le> ?fd" using ok1 net_ok_fresh net_ok_next by simp_all
  have err: ?thesis if "SyntheticSender_new plan src_ip dst_ip dst_port ns n = do { n3 \<leftarrow> leave_ns plan saved n2; Some (Inl e, n3) }"
    "?c \<le> net_calls n2" "cur_ns n2 = cur_ns n1" "sent n2 = sent n1" "fds n2 = fds n1" for n2 e
    using error_made [OF en that(2-5), of plan src_ip e] that(1) by auto
  let ?n2 = "snd (sys_socket plan n1)" and ?n3 = "\<lambda>src. snd (sys_bind plan (next_fd n1) src (snd (sys_socket plan n1)))"
  note new = SyntheticSender_new_def assms(1) sys_defs
  show ?thesis
  proof (cases "socket_fails plan ?c")
    case True
    show ?thesis by (rule err [of "count_call n1" Socket_failed]) (simp_all add: new True)
  next
    case sock: False
    show ?thesis
    proof (cases "inet_pton src_ip")
      case None
      show ?thesis by (rule err [of "the (sys_close ?fd ?n2)" "Invalid_src_ip src_ip"]) (use fd sock None in \<open>simp_all add: new fun_upd_idem\<close>)
    next
      case src: (Some src)
      show ?thesis
      proof (cases "bind_fails plan (Suc ?c)")
        case True
        show ?thesis by (rule err [of "the (sys_close ?fd (?n3 src))" "Bind_failed src_ip"])
            (use fd sock src True in \<open>simp_all add: new fun_upd_idem\<close>)
      next
        case bound: False
        show ?thesis
        proof (cases "inet_pton dst_ip")
          case None
          show ?thesis by (rule err [of "the (sys_close ?fd (?n3 src))" "Invalid_dst_ip dst_ip"])
              (use fd sock src bound None in \<open>simp_all add: new fun_upd_idem\<close>)
        next
          case (Some dst)
          have made: "SyntheticSender_new plan src_ip dst_ip dst_port ns n = do { n4 \<leftarrow> leave_ns plan saved (?n3 src);
              Some (Inr \<lparr>sock_fd = ?fd, dst_addr = dst, dst_sin_port = ntohs dst_port\<rparr>, n4) }"
            using fd sock src bound Some by (simp add: new)
          have "?c \<le> net_calls (?n3 src)" "cur_ns (?n3 src) = cur_ns n1" "sent (?n3 src) = sent n1"
            "fds (?n3 src) = (fds n1)(?fd \<mapsto> Sock (cur_ns n1) (Some src))" using sock bound by (simp_all add: sys_defs)
          from sender_success [OF en this fd src, of plan] show ?thesis unfolding made by (auto simp: Let_def)
        qed
      qed
    qed
  qed
qed

lemma sender_constructed:
  assumes "net_ok n"
  shows "\<exists>res n'. SyntheticSender_new plan src_ip dst_ip dst_port ns n = Some (res, n') \<and> sender_made plan src_ip ns n res n' \<and>
    (\<forall>s. res = Inr s \<longrightarrow> (\<exists>n''. SyntheticSender_destroy s n' = Some n'' \<and> fds n'' = fds n))"
proof -
  obtain r n1 where 1: "enter_ns plan ns n = Some (r, n1)" "entered ns n r n1" using assms by (rule enter_ns_spec)
  show ?thesis
  proof (cases r)
    case (Inl e)
    then show ?thesis using 1 by (simp add: SyntheticSender_new_def sender_made_def entered_def)
  next
    case (Inr saved)
    then show ?thesis using 1 sender_after_enter by simp
  qed
qed

text \<open>Descriptor numbers only grow.\<close>

lemma sys_next_fd:
  "sys_setns plan fd n = (ok, n') \<Longrightarrow> next_fd n' = next_fd n" "sys_close fd n = Some n' \<Longrightarrow> next_fd n' = next_fd n"
  "sys_bind plan fd a n = (ok, n') \<Longrightarrow> next_fd n' = next_fd n" "sys_socket plan n = (fd', n') \<Longrightarrow> next_fd n \<le> next_fd n'"
  "sys_open_self_ns plan n = (fd', n') \<Longrightarrow> next_fd n \<le> next_fd n'" "sys_open_netns plan ns n = (fd', n') \<Longrightarrow> next_fd n \<le> next_fd n'"
  by (auto simp: sys_defs split: option.splits descr.splits if_splits)

lemma ns_next_fd:
  "enter_ns plan ns n = Some (r, n') \<Longrightarrow> next_fd n \<le> next_fd n'" "leave_ns plan saved n = Some n' \<Longrightarrow> next_fd n' = next_fd n"
  unfolding enter_ns_def leave_ns_def Let_def
  by (auto split: if_splits prod.splits bind_splits dest!: sys_next_fd)

lemma sender_next_fd:
  assumes "SyntheticSender_new plan ip dst port ns n = Some (Inr s, n')"
  shows "next_fd n \<le> next_fd n'"
  using assms unfolding SyntheticSender_new_def Let_def
  by (auto split: bind_splits sum.splits option.splits prod.splits if_splits dest!: sys_next_fd ns_next_fd)

lemma sys_netns:
  "sys_setns plan fd n = (ok, n') \<Longrightarrow> netns n' = netns n" "sys_close fd n = Some n' \<Longrightarrow> netns n' = netns n"
  "sys_bind plan fd a n = (ok, n') \<Longrightarrow> netns n' = netns n" "sys_socket plan n = (fd', n') \<Longrightarrow> netns n' = netns n"
  "sys_open_self_ns plan n = (fd', n') \<Longrightarrow> netns n' = netns n" "sys_open_netns plan ns n = (fd', n') \<Longrightarrow> netns n' = netns n"
  by (auto simp: sys_defs split: option.splits descr.splits if_splits)

lemma ns_netns:
  "enter_ns plan ns n = Some (r, n') \<Longrightarrow> netns n' = netns n" "leave_ns plan saved n = Some n' \<Longrightarrow> netns n' = netns n"
  unfolding enter_ns_def leave_ns_def Let_def
  by (auto split: if_splits prod.splits bind_splits dest!: sys_netns)

lemma sender_netns:
  assumes "SyntheticSender_new plan ip dst port ns n = Some (Inr s, n')"
  shows "netns n' = netns n"
  using assms unfolding SyntheticSender_new_def Let_def
  by (auto split: bind_splits sum.splits option.splits prod.splits if_splits dest!: sys_netns ns_netns)

lemma sender_quiet:
  assumes "net_ok n" "quiet_net plan ns n" "inet_pton ip \<noteq> None" "inet_pton dst \<noteq> None"
    "SyntheticSender_new plan ip dst port ns n = Some (res, n')"
  shows "\<exists>s. res = Inr s"
proof -
  have e: "fds n (next_fd n) = None" using assms(1) by (auto simp: net_ok_def dom_def)
  have f: "\<not> open_fails plan c" "\<not> setns_fails plan c" "\<not> socket_fails plan c" "\<not> bind_fails plan c" for c using assms(2) by (simp_all add: quiet_net_def)
  obtain k where k: "netns n ns = Some k" using assms(2) by (auto simp: quiet_net_def)
  have z: "0 \<le> next_fd n" using assms(1) by (simp add: net_ok_def)
  obtain a b where "inet_pton ip = Some a" "inet_pton dst = Some b" using assms(3,4) by blast
  then show ?thesis using assms(5) e f k z
    by (auto simp: SyntheticSender_new_def enter_ns_def Let_def sys_defs split: bind_splits option.splits descr.splits if_splits prod.splits)
qed

lemma sender_destination:
  assumes "SyntheticSender_new plan src_ip dst_ip dst_port ns n = Some (Inr s, n')"
  shows "inet_pton dst_ip = Some (dst_addr s)" "dst_sin_port s = ntohs dst_port"
  using assms by (auto simp: SyntheticSender_new_def Let_def split: bind_splits sum.splits option.splits prod.splits if_splits)

text \<open>
  (C17) Construction of a \<open>SyntheticSender\<close>, whatever calls fail and whatever the address strings are. The constructor never closes a
  descriptor that is not open. If it throws, it has left no descriptor open; if it succeeds, the only new descriptor is the socket,
  created in the requested network namespace and bound to the source address, and the destination is the parsed address and the
  port in network byte order. The calling thread is back in its namespace, provided
  the \<open>setns\<close> calls after the first succeed (the code ignores their result). Destroying the sender closes the socket.
\<close>

theorem sender_constructor:
  assumes "net_ok n"
  shows "\<exists>res n'. SyntheticSender_new plan src_ip dst_ip dst_port ns n = Some (res, n') \<and> sender_made plan src_ip ns n res n' \<and>
    (\<forall>s. res = Inr s \<longrightarrow> inet_pton dst_ip = Some (dst_addr s) \<and> dst_sin_port s = ntohs dst_port \<and>
      (\<exists>n''. SyntheticSender_destroy s n' = Some n'' \<and> fds n'' = fds n))"
  using sender_constructed [OF assms, of plan src_ip dst_ip dst_port ns] sender_destination [of plan src_ip dst_ip dst_port ns n] by blast

section \<open>Sending\<close>

lemma send_one_cases:
  assumes "fds n (sock_fd s) = Some (Sock k a)"
  shows "send_one plan clk s (n, tr) =
    (if send_fails plan (net_calls n) then (Inl (Sendto_failed (errno_at plan (net_calls n))), count_call n, Clock_read (now_ns clk tr) # tr)
     else (Inr (now_ns clk tr), (count_call n)\<lparr>sent := sent n @ [datagram_of s k (now_ns clk tr)]\<rparr>, Clock_read (now_ns clk tr) # tr))"
  using assms by (simp add: send_one_def sys_sendto_def SyntheticSender_clock_ns_def now_ns_def clock_ns_def datagram_of_def payload_of_def Let_def
      split: prod.split)

lemma count_call_sel [simp]:
  "fds (count_call n) = fds n" "next_fd (count_call n) = next_fd n" "netns (count_call n) = netns n" "sent (count_call n) = sent n" "cur_ns (count_call n) = cur_ns n" "net_calls (count_call n) = Suc (net_calls n)"
  by (simp_all add: count_call_def)

text \<open>
  What a burst adds: the datagrams carry the readings that the clock returned during the burst, in order. After a failing
  \<open>sendto\<close> the last reading is that of the datagram that was not sent.
\<close>

lemma send_loop_spec:
  assumes "fds n (sock_fd s) = Some (Sock k a)" "genuine clk tr"
  obtains res n' tr' ts where "send_loop plan clk s inter_us cnt (n, tr) = (res, n', tr')" "sent_at s k ts n n'" "genuine clk tr'"
    "case res of None \<Rightarrow> length ts = cnt \<and> readings tr' = readings tr @ ts
     | Some e \<Rightarrow> length ts < cnt \<and> (\<exists>c t. send_fails plan c \<and> e = Sendto_failed (errno_at plan c) \<and> readings tr' = readings tr @ ts @ [t])"
  using assms
proof (induction cnt arbitrary: n tr thesis)
  case 0
  show ?case by (rule "0.prems"(1) [of None n tr "[]"]) (simp_all add: sent_at_def "0.prems"(3))
next
  case (Suc cnt)
  let ?t = "now_ns clk tr"
  note o = send_one_cases [OF Suc.prems(2), of plan clk tr]
  show ?case
  proof (cases "send_fails plan (net_calls n)")
    case True
    then show ?thesis
      by (intro Suc.prems(1) [of "Some (Sendto_failed (errno_at plan (net_calls n)))" "count_call n" "Clock_read ?t # tr" "[]"])
        (auto simp: o sent_at_def Suc.prems(3))
  next
    case False
    let ?n = "(count_call n)\<lparr>sent := sent n @ [datagram_of s k ?t]\<rparr>"
    let ?tr = "if inter_us > 0 then Usleep (of_int inter_us) # Clock_read ?t # tr else Clock_read ?t # tr"
    have "fds ?n (sock_fd s) = Some (Sock k a)" "genuine clk ?tr" using Suc.prems(2,3) by simp_all
    then obtain res n' tr' ts where r: "send_loop plan clk s inter_us cnt (?n, ?tr) = (res, n', tr')" "sent_at s k ts ?n n'" "genuine clk tr'"
      "case res of None \<Rightarrow> length ts = cnt \<and> readings tr' = readings ?tr @ ts
       | Some e \<Rightarrow> length ts < cnt \<and> (\<exists>c t. send_fails plan c \<and> e = Sendto_failed (errno_at plan c) \<and> readings tr' = readings ?tr @ ts @ [t])"
      by (rule Suc.IH [rotated])
    have "readings ?tr = readings tr @ [?t]" by simp
    then have "case res of None \<Rightarrow> length (?t # ts) = Suc cnt \<and> readings tr' = readings tr @ (?t # ts)
      | Some e \<Rightarrow> length (?t # ts) < Suc cnt \<and>
          (\<exists>c t. send_fails plan c \<and> e = Sendto_failed (errno_at plan c) \<and> readings tr' = readings tr @ (?t # ts) @ [t])"
      using r(4) by (cases res) simp_all
    moreover have "send_loop plan clk s inter_us (Suc cnt) (n, tr) = (res, n', tr')" using False r(1) by (simp add: o)
    moreover have "sent_at s k (?t # ts) n n'" using r(2) by (simp add: sent_at_def)
    ultimately show ?thesis using r(3) by (intro Suc.prems(1))
  qed
qed

text \<open>
  (C18) \<open>send_burst(count)\<close> on a constructed sender, started at any point of a history of clock readings and sleeps. It sends a list of
  64-byte datagrams to the destination. The first 8 bytes of each are the reading of the clock that \<open>send_one\<close> made for it, little-endian,
  followed by 56 bytes 0xAB: the stamps are exactly the readings that the burst adds to the history, in order, and each of them is what
  the clock returned at that point. It sends \<open>count\<close> of them (none for a negative count), or fewer if a \<open>sendto\<close> fails;
  then the exception carries that call's \<open>errno\<close>, and the last reading belongs to the datagram that was not sent. On a clock
  that does not go back the stamps do not decrease.
\<close>

theorem send_burst_spec:
  assumes "net_ok n" "SyntheticSender_new plan src_ip dst_ip dst_port ns n = Some (Inr s, n1)" "genuine clk tr"
  shows "\<exists>res n2 tr' ts. send_burst plan clk s count inter_us (n1, tr) = (res, n2, tr') \<and> genuine clk tr' \<and>
    sent n2 = sent n @ map (datagram_of s (target_ns ns n)) ts \<and> (clock_monotone clk \<longrightarrow> sorted ts) \<and>
    (\<forall>t \<in> set ts. length (payload_of t) = 64 \<and> le_word (take 8 (payload_of t)) = t) \<and>
    (case res of None \<Rightarrow> length ts = nat count \<and> readings tr' = readings tr @ ts
     | Some e \<Rightarrow> length ts < nat count \<and>
         (\<exists>c t. send_fails plan c \<and> e = Sendto_failed (errno_at plan c) \<and> readings tr' = readings tr @ ts @ [t]))"
proof -
  have "sender_made plan src_ip ns n (Inr s) n1" using sender_constructed [OF assms(1), of plan src_ip dst_ip dst_port ns] assms(2) by auto
  then have f: "fds n1 (sock_fd s) = Some (Sock (target_ns ns n) (inet_pton src_ip))" "sent n1 = sent n"
    by (simp_all add: sender_made_def)
  obtain res n2 tr' ts where r: "send_loop plan clk s inter_us (nat count) (n1, tr) = (res, n2, tr')" "sent_at s (target_ns ns n) ts n1 n2" "genuine clk tr'"
    "case res of None \<Rightarrow> length ts = nat count \<and> readings tr' = readings tr @ ts
     | Some e \<Rightarrow> length ts < nat count \<and>
         (\<exists>c t. send_fails plan c \<and> e = Sendto_failed (errno_at plan c) \<and> readings tr' = readings tr @ ts @ [t])"
    using f(1) assms(3) by (rule send_loop_spec)
  have "clock_monotone clk \<longrightarrow> sorted ts" using readings_sorted [of clk tr'] r(3,4) by (cases res) (auto simp: sorted_append)
  then show ?thesis using f(2) r
    by (intro exI [of _ res] exI [of _ n2] exI [of _ tr'] exI [of _ ts]) (simp add: send_burst_def sent_at_def payload_of_def)
qed

lemma demo_net_ok [simp]: "net_ok demo_net"
  by (simp add: net_ok_def demo_net_def)

theorem sender_constructor_witness:
  "net_ok demo_net \<and> inet_pton ''10.11.0.1'' = Some [10, 11, 0, 1] \<and>
   (\<exists>s n'. SyntheticSender_new (demo_plan 0) ''10.11.0.1'' ''10.11.0.2'' 9999 ''sender_ns'' demo_net = Some (Inr s, n') \<and>
     fds n' = [sock_fd s \<mapsto> Sock 1 (Some [10, 11, 0, 1])] \<and> cur_ns n' = 0)"
proof -
  have p: "inet_pton ''10.11.0.1'' = Some [10, 11, 0, 1]" by code_simp
  have r: "map_option (isl \<circ> fst) (SyntheticSender_new (demo_plan 0) ''10.11.0.1'' ''10.11.0.2'' 9999 ''sender_ns'' demo_net) = Some False"
    by code_simp
  obtain res n' where c: "SyntheticSender_new (demo_plan 0) ''10.11.0.1'' ''10.11.0.2'' 9999 ''sender_ns'' demo_net = Some (res, n')"
    "sender_made (demo_plan 0) ''10.11.0.1'' ''sender_ns'' demo_net res n'"
    using sender_constructor [OF demo_net_ok, of "demo_plan 0" "''10.11.0.1''" "''10.11.0.2''" 9999 "''sender_ns''"] by blast
  then obtain s where s: "res = Inr s" using r by (cases res) simp_all
  have "fds n' = [sock_fd s \<mapsto> Sock 1 (Some [10, 11, 0, 1])] \<and> cur_ns n' = 0"
    using c(2) p unfolding s by (simp add: sender_made_def demo_net_def demo_plan_def target_ns_def)
  then show ?thesis using c(1) p demo_net_ok unfolding s by blast
qed

theorem send_burst_spec_witness:
  "\<exists>s n1 n2 tr'. SyntheticSender_new (demo_plan 99) ''10.11.0.1'' ''10.11.0.2'' 9999 ''sender_ns'' demo_net = Some (Inr s, n1) \<and>
    genuine tick_clock [Usleep 5] \<and> send_burst (demo_plan 99) tick_clock s 3 500 (n1, [Usleep 5]) = (None, n2, tr') \<and>
    readings tr' = [1, 3, 5] \<and> sent n2 = map (datagram_of s 1) [1, 3, 5]"
proof -
  let ?new = "SyntheticSender_new (demo_plan 99) ''10.11.0.1'' ''10.11.0.2'' 9999 ''sender_ns'' demo_net"
  let ?burst = "\<lambda>s n1. send_burst (demo_plan 99) tick_clock s 3 500 (n1, [Usleep 5])"
  have e: "case ?new of Some (Inr s, n1) \<Rightarrow> (case ?burst s n1 of (res, n2, tr') \<Rightarrow> res = None \<and> readings tr' = [1, 3, 5]) | _ \<Rightarrow> False"
    by code_simp
  then obtain s n1 where n: "?new = Some (Inr s, n1)" by (auto split: option.splits prod.splits sum.splits)
  obtain n2 tr' where b: "?burst s n1 = (None, n2, tr')" "readings tr' = [1, 3, 5]"
    using e unfolding n by (auto split: prod.splits)
  have g: "genuine tick_clock [Usleep 5]" by simp
  have "sent n2 = sent demo_net @ map (datagram_of s (target_ns ''sender_ns'' demo_net)) (readings tr')"
    using send_burst_spec [OF demo_net_ok n g, of 3 500] b(1) by auto
  moreover have "sent demo_net = []" "target_ns ''sender_ns'' demo_net = 1" by (simp_all add: demo_net_def target_ns_def)
  ultimately show ?thesis using n b g by (intro exI conjI) simp_all
qed

end
