(* ===== verification/Feed_Path.thy ===== *)
theory Feed_Path
  imports Feed_Handler Synthetic_Sender
begin

text \<open>
  The path of a datagram from \<open>SyntheticSender\<close> to the consumer of \<open>FeedHandler\<close>: what the sender puts on the wire is what the
  receive loop reads out of the frame. The network between them is not part of the sources; \<open>received\<close> says what it
  has to do: deliver each datagram as an Ethernet frame with an IPv4 header without options and a UDP header.
\<close>

section \<open>Frames on the wire\<close>

definition carries :: "bytes \<Rightarrow> datagram \<Rightarrow> bool" where
  "carries bs dg \<longleftrightarrow> length bs = 42 + length (dg_data dg) \<and> bs ! 14 = 0x45 \<and> bs ! 23 = 17 \<and>
     take 4 (drop 30 bs) = dg_addr dg \<and> take 2 (drop 36 bs) = le_bytes 2 (dg_port dg) \<and>
     be16_at bs 38 = of_nat (8 + length (dg_data dg)) \<and> drop 42 bs = dg_data dg"

definition received :: "memory \<Rightarrow> ptr \<Rightarrow> RxDesc list \<Rightarrow> datagram list \<Rightarrow> bool" where
  "received m base ds dgs \<longleftrightarrow>
     list_all2 (\<lambda>d dg. \<exists>bs. stored_at m (base + addr d) bs \<and> unat (rx_len d) = length bs \<and> carries bs dg) ds dgs"

text \<open>
  The datagrams arrive over the passes of the receive loop: the frames that a pass takes off the RX ring, at most 64 of them, carry the next ones,
  and when the inputs end or the loop is stopped none is left.
\<close>

fun delivers ::
  "('r, xdp_desc) cons_api \<Rightarrow> ('f, u64) prod_api \<Rightarrow> ('f, 'r) rx_input list \<Rightarrow> RxDesc list \<Rightarrow> ('f, 'c, 'r, 't) FeedHandler \<Rightarrow> datagram list \<Rightarrow> bool" where
  "delivers rapi fapi [] descs h dgs \<longleftrightarrow> dgs = []"
| "delivers rapi fapi (i # is) descs h dgs \<longleftrightarrow>
     (let h1 = snd (outside i h)
      in if stop_flag h1 then dgs = []
         else case rx_burst rapi (fh_socket h1) descs of
                None \<Rightarrow> False
              | Some (n, descs', _) \<Rightarrow>
                  in_mem i nullptr = None \<and> received (in_mem i) (region (fh_umem h1)) (take n descs') (take n dgs) \<and>
                  (case rx_iteration rapi fapi (in_mem i) (in_now i) descs h1 of
                     None \<Rightarrow> True
                   | Some (descs'', h2) \<Rightarrow> delivers rapi fapi is descs'' h2 (drop n dgs)))"

text \<open>The event the consumer should get for a datagram stamped \<open>t\<close>, received at \<open>now\<close>.\<close>

definition event_for :: "u16 \<Rightarrow> u64 \<Rightarrow> u64 \<Rightarrow> FeedEvent \<Rightarrow> bool" where
  "event_for port now t ev \<longleftrightarrow> inject_ns ev = t \<and> payload ev = payload_of t \<and> payload_len ev = 64 \<and> dst_port ev = port \<and> receive_ns ev = now"

text \<open>Every pass reads the clock at a time after the history \<open>tr\<close>.\<close>

definition reads_after :: "clock \<Rightarrow> time_event list \<Rightarrow> ('f, 'r) rx_input list \<Rightarrow> bool" where
  "reads_after clk tr is \<longleftrightarrow> (\<forall>i \<in> set is. \<exists>tr'. genuine clk tr' \<and> set tr \<subseteq> set tr' \<and> in_now i = now_ns clk tr')"

text \<open>A frame for a given datagram, with zero MAC addresses and the addresses of the test network.\<close>

definition demo_wire :: "datagram \<Rightarrow> bytes" where
  "demo_wire dg = replicate 12 0 @ [8, 0] @ [0x45, 0, 0, 92, 0, 0, 0, 0, 64, 17, 0, 0, 10, 11, 0, 1] @ dg_addr dg @
     [0x30, 0x39] @ le_bytes 2 (dg_port dg) @ [0, 72, 0, 0] @ dg_data dg"

section \<open>One datagram\<close>

lemma length_payload_of [simp]: "length (payload_of t) = 64"
  by (simp add: payload_of_def)

lemma be16_at_drop:
  assumes "take 2 (drop k bs) = le_bytes 2 (ntohs p)"
  shows "be16_at bs k = p"
proof -
  have "length (take 2 (drop k bs)) = 2" by (simp add: assms)
  then have "take 2 (drop k bs) = [bs ! k, bs ! Suc k]" by (intro nth_equalityI) (auto simp: less_2_cases_iff)
  then have "be16_at bs k = ntohs (le_word (take 2 (drop k bs)))" by (simp only: be16_at_def ntohs_le_word)
  then show ?thesis by (simp add: assms)
qed

lemma carries_event:
  assumes "carries bs (datagram_of s k t)" "dst_sin_port s = ntohs port"
  obtains ev where "event_of bs (length bs) now = Some ev" "event_for port now t ev" "copy_end bs (length bs) \<le> length bs"
proof -
  note c = assms(1)[unfolded carries_def datagram_of_def datagram.simps length_payload_of]
  have l: "length bs = 106" using c by simp
  have h: "frame_hlen bs = 20" using c by (simp add: frame_hlen_def)
  have o: "frame_udp_off bs = Some 34" using c l h by (simp add: frame_udp_off_def)
  have p: "frame_payload_len bs = 64" using c by (simp add: frame_payload_len_def o)
  have d: "drop 42 bs = payload_of t" using c by simp
  have ts: "le_word (take 8 (payload_of t)) = t" by (simp add: payload_of_def)
  have port: "be16_at bs 36 = port" using c assms(2) by (intro be16_at_drop) simp
  let ?ev = "\<lparr>inject_ns = t, receive_ns = now, src_ip = le_word (take 4 (drop 26 bs)), src_port = be16_at bs 34,
    dst_port = port, payload_len = 64, ev_pad = replicate 6 0, payload = payload_of t\<rparr>"
  have "event_of bs (length bs) now = Some ?ev" by (simp add: event_of_def o p d ts port)
  then show thesis by (rule that) (simp_all add: event_for_def copy_end_def o p l)
qed

lemma received_events:
  assumes "received m base ds (map (datagram_of s k) ts)" "dst_sin_port s = ntohs port" "m nullptr = None"
  obtains evs where "frame_events m base now ds = Some evs" "list_all2 (event_for port now) ts evs"
  using assms(1)
proof (induction ts arbitrary: ds thesis)
  case Nil
  then show ?case by (simp add: received_def)
next
  case (Cons t ts)
  obtain d ds' bs where d: "ds = d # ds'" "stored_at m (base + addr d) bs" "unat (rx_len d) = length bs" "carries bs (datagram_of s k t)"
    "received m base ds' (map (datagram_of s k) ts)"
    using Cons.prems(2) by (auto simp: received_def list_all2_Cons2)
  obtain ev where ev: "event_of bs (length bs) now = Some ev" "event_for port now t ev" "copy_end bs (length bs) \<le> length bs"
    using d(4) assms(2) by (rule carries_event)
  have "frame_event m base now d = Some (Some ev)"
    using frame_event_region [OF d(2) assms(3), of now] d(3) ev(1,3) by simp
  moreover obtain evs where "frame_events m base now ds' = Some evs" "list_all2 (event_for port now) ts evs"
    by (rule Cons.IH [OF _ d(5)])
  ultimately show ?case using ev(2) by (intro Cons.prems(1) [of "ev # evs"]) (simp_all add: d(1))
qed

section \<open>From the sender to the consumer\<close>

lemma delivers_events:
  assumes "delivers rapi fapi is descs h (map (datagram_of s k) ts)" "dst_sin_port s = ntohs port"
  shows "\<exists>out ended h'. rx_loop rapi fapi is descs h = Some (out, ended, h') \<and>
    list_all2 (\<lambda>t ev. \<exists>i \<in> set is. event_for port (in_now i) t ev) ts (loop_events rapi fapi is descs h)"
  using assms(1)
proof (induction "is" arbitrary: descs h ts)
  case (Cons i "is")
  obtain out1 h1 where o: "outside i h = (out1, h1)" by fastforce
  show ?case
  proof (cases "stop_flag h1")
    case True
    then show ?thesis using Cons.prems o by auto
  next
    case False
    obtain n dout s' where B: "rx_burst rapi (fh_socket h1) descs = Some (n, dout, s')"
      using Cons.prems o False by (auto simp: Let_def split: option.splits)
    have d: "in_mem i nullptr = None" "received (in_mem i) (region (fh_umem h1)) (take n dout) (map (datagram_of s k) (take n ts))"
      using Cons.prems o False B by (simp_all add: Let_def take_map)
    obtain evs where E: "frame_events (in_mem i) (region (fh_umem h1)) (in_now i) (take n dout) = Some evs"
      "list_all2 (event_for port (in_now i)) (take n ts) evs" using d(2) assms(2) d(1) by (rule received_events)
    have "rx_iteration rapi fapi (in_mem i) (in_now i) descs h1 \<noteq> None"
      using B E(1) by (simp add: rx_iteration_def handle_frames_events Let_def)
    then obtain descs' h2 where it: "rx_iteration rapi fapi (in_mem i) (in_now i) descs h1 = Some (descs', h2)" by auto
    have "delivers rapi fapi is descs' h2 (map (datagram_of s k) (drop n ts))" using Cons.prems o False B it by (simp add: Let_def drop_map)
    then obtain out2 ended h' where L: "rx_loop rapi fapi is descs' h2 = Some (out2, ended, h')"
      "list_all2 (\<lambda>t ev. \<exists>i \<in> set is. event_for port (in_now i) t ev) (drop n ts) (loop_events rapi fapi is descs' h2)"
      using Cons.IH by blast
    have le: "loop_events rapi fapi (i # is) descs h = evs @ loop_events rapi fapi is descs' h2" using o False it B E(1) by simp
    have "list_all2 (\<lambda>t ev. \<exists>j \<in> set (i # is). event_for port (in_now j) t ev) (take n ts @ drop n ts) (evs @ loop_events rapi fapi is descs' h2)"
      by (rule list_all2_appendI; rule list_all2_mono [OF E(2)] list_all2_mono [OF L(2)]) auto
    then show ?thesis unfolding le append_take_drop_id using o False it L(1) by auto
  qed
qed (auto intro: exI [of _ False])

lemma pop_n_take:
  assumes "ring_inv kRingCap (fh_ring h)"
  shows "fst (pop_n k h) = take k (contents kRingCap (fh_ring h))"
  using assms
proof (induction k arbitrary: h)
  case (Suc k)
  note inv = spsc.invar_pp [OF Suc.prems]
  show ?case
  proof (cases "contents kRingCap (fh_ring h)")
    case Nil
    then show ?thesis using spsc.pp_empty [OF Suc.prems] Suc by (simp add: handler_pop_def)
  next
    case (Cons ev evs)
    obtain r where "pop kRingCap (fh_ring h) = (Some ev, r)" "contents kRingCap r = evs"
      using spsc.pp_item [OF Suc.prems Cons] by (cases "pop kRingCap (fh_ring h)") auto
    then show ?thesis using Cons Suc.IH [of "h\<lparr>fh_ring := r\<rparr>"] inv by (simp add: handler_pop_def case_prod_beta)
  qed
qed simp

text \<open>With room for all events, a run of the receive loop drops none, and the consumer gets them all in order.\<close>

lemma loop_events_arrive:
  assumes "rx_loop rapi fapi is descs h = Some (out, ended, h')" "ring_inv kRingCap (fh_ring h)" "contents kRingCap (fh_ring h) = []"
    "length (loop_events rapi fapi is descs h) \<le> 65535"
  shows "pkts_dropped h' = pkts_dropped h \<and> out @ fst (pop_n 65535 h') = loop_events rapi fapi is descs h"
proof -
  let ?evs = "loop_events rapi fapi is descs h"
  obtain ops acc rej where R: "run_ops (push kRingCap) (pop kRingCap) (fh_ring h) ops = (acc, out, rej, fh_ring h')"
    "pkts_dropped h' = pkts_dropped h + of_nat rej" "subseq acc ?evs" "length acc + rej = length ?evs" using rx_loop_run [OF assms(1)] by blast
  have "length (contents kRingCap (fh_ring h)) + length acc + rej \<le> unat kRingCap - 1" using R(4) assms(3,4) by (simp add: kRingCap_def)
  then have z: "rej = 0" by (rule spsc.run_ops_no_reject [OF assms(2) R(1)])
  have acc: "acc = ?evs" using R(3,4) z subseq_same_length by auto
  note F = spsc.run_ops_fifo [OF assms(2) R(1)]
  have "length (contents kRingCap (fh_ring h')) \<le> 65535" using spsc.invar_bound [OF F(1)] by (simp add: kRingCap_def)
  then show ?thesis using F(2) R(2) z assms(3) acc pop_n_take [OF F(1), of 65535] by simp
qed


lemma carries_demo_wire:
  assumes "length (dg_addr dg) = 4" "length (dg_data dg) = 64"
  shows "carries (demo_wire dg) dg"
proof -
  have "demo_wire dg ! 38 = 0" "demo_wire dg ! Suc 38 = 72" "demo_wire dg ! 14 = 0x45" "demo_wire dg ! 23 = 17"
    using assms(1) by (simp_all add: demo_wire_def nth_append)
  moreover have "be_word [0, 72] = (72 :: u16)" by code_simp
  ultimately show ?thesis using assms by (simp add: carries_def be16_at_def) (simp add: demo_wire_def)
qed

text \<open>One frame per pass, for the witness.\<close>

definition demo_delivery :: "SyntheticSender \<Rightarrow> u64 \<Rightarrow> u64 \<Rightarrow> (u64 lring, xdp_desc lcons) rx_input" where
  "demo_delivery s t now = \<lparr>in_fill = (\<lambda>f. f), in_rx = (\<lambda>_. lcons_of 0 [\<lparr>d_addr = 256, d_len = 106, d_options = 0\<rparr>]), in_pops = 1, in_stop = False,
     in_mem = mem_of 4352 (demo_wire (datagram_of s 1 t)), in_now = now\<rparr>"

lemma demo_delivery_received:
  assumes "dst_addr s = [10, 11, 0, 2]"
  shows "received (in_mem (demo_delivery s t now)) 4096 [\<lparr>addr = 256, rx_len = 106, options = 0\<rparr>] [datagram_of s 1 t]"
    "in_mem (demo_delivery s t now) nullptr = None"
proof -
  let ?bs = "demo_wire (datagram_of s 1 t)"
  have c: "carries ?bs (datagram_of s 1 t)" by (rule carries_demo_wire) (simp_all add: datagram_of_def assms)
  have l: "length ?bs = 106" using c by (simp add: carries_def datagram_of_def)
  have "stored_at (mem_of 4352 ?bs) 4352 ?bs" by (rule stored_at_mem_of) (simp add: l [unfolded One_nat_def])
  then show "received (in_mem (demo_delivery s t now)) 4096 [\<lparr>addr = 256, rx_len = 106, options = 0\<rparr>] [datagram_of s 1 t]"
    using c l unfolding One_nat_def by (auto simp del: stored_at_mem_of simp: received_def demo_delivery_def)
  show "in_mem (demo_delivery s t now) nullptr = None" by (simp add: demo_delivery_def mem_of_def l [unfolded One_nat_def])
qed

lemma demo_delivery_step:
  fixes h :: "(u64 lring, 'c, xdp_desc lcons, 't) FeedHandler"
  assumes "dst_addr s = [10, 11, 0, 2]" "length descs = kMaxBatch" "\<not> stop_flag h" "region (fh_umem h) = 4096"
    and rest: "\<And>descs' (h2 :: (u64 lring, 'c, xdp_desc lcons, 't) FeedHandler).
      length descs' = kMaxBatch \<Longrightarrow> \<not> stop_flag h2 \<Longrightarrow> region (fh_umem h2) = 4096 \<Longrightarrow> delivers lring_cons fapi is descs' h2 dgs"
  shows "delivers lring_cons fapi (demo_delivery s t now # is) descs h (datagram_of s 1 t # dgs)"
proof -
  let ?i = "demo_delivery s t now" and ?d = "\<lparr>d_addr = 256, d_len = 106, d_options = 0\<rparr>"
  obtain out1 h1 where o: "outside ?i h = (out1, h1)" by fastforce
  note O = outside_run [OF o]
  have h1: "rx_ring (fh_socket h1) = lcons_of 0 [?d]" "region (fh_umem h1) = 4096" "\<not> stop_flag h1"
    using assms(3,4) by (simp_all add: O(3-5)) (simp_all add: demo_delivery_def)
  have p: "peeked lring_cons_view (rx_ring (fh_socket h1)) = 0" "avail lring_cons_view (rx_ring (fh_socket h1)) = [?d]" using h1 by simp_all
  have len: "length descs < 2 ^ 32" "descs \<noteq> []" using assms(2) by (auto simp: kMaxBatch_def)
  obtain n out s' where B: "rx_burst lring_cons (fh_socket h1) descs = Some (n, out, s')" using rx_burst_defined [OF lring_cons_laws p(1) len(1)] by blast
  note R = rx_burst_eq [OF lring_cons_laws p(1) len(1) B]
  have n: "n = 1" using R(2,7) len(2) p(2) by (cases n) auto
  then have t: "take n out = [\<lparr>addr = 256, rx_len = 106, options = 0\<rparr>]" using R(3) p(2) by (simp add: to_RxDesc_def)
  have "delivers lring_cons fapi is descs' h2 dgs" if it: "rx_iteration lring_cons fapi (in_mem ?i) (in_now ?i) descs h1 = Some (descs', h2)" for descs' h2
    using it by (rule rx_iteration_run) (use B R(6) assms(2) h1 in \<open>auto intro!: rest simp: rx_release_region\<close>)
  then show ?thesis using o h1 B n t demo_delivery_received [OF assms(1), of t now] by (auto simp: Let_def split: option.splits)
qed


end
