(* ===== verification/Stdio.thy ===== *)
theory Stdio
  imports Feed_Prelude "HOL-Library.Monad_Syntax"
begin

text \<open>
  The C standard I/O streams that the capture writer and reader use: \<open>fopen\<close> in modes "wb" and "rb",
  \<open>fwrite\<close> and \<open>fread\<close> of one item, \<open>fseek\<close> with \<open>SEEK_SET\<close>, \<open>fflush\<close> and \<open>fclose\<close>.

  The state holds the file contents by path and the open streams by \<open>FILE*\<close> value (0 is \<open>nullptr\<close>,
  values are not reused). A stream has the file position of its first unwritten byte and the
  bytes that are still in its buffer; they reach the file at the next \<open>fseek\<close>, \<open>fflush\<close> or \<open>fclose\<close>.
  Every call takes its outcome from a plan of faults, a function of the number of calls made so far:
  an \<open>fopen\<close> that fails, an \<open>fwrite\<close> or \<open>fread\<close> that stops after some bytes, a flush that
  writes only some of the buffered bytes and drops the rest, an \<open>fseek\<close> that fails.

  Every operation returns None when it is given a pointer that is not an open stream, which is
  undefined behaviour in C.
\<close>

section \<open>State\<close>

type_synonym FILE = nat

record stream =
  st_path :: string
  st_pos :: nat
  st_pend :: bytes

record stdio =
  files :: "string \<Rightarrow> bytes option"
  streams :: "FILE \<Rightarrow> stream option"
  next_file :: FILE
  calls :: nat

record io_plan =
  fopen_fails :: "nat \<Rightarrow> bool"
  short_io :: "nat \<Rightarrow> nat option"
  short_flush :: "nat \<Rightarrow> nat option"
  fseek_fails :: "nat \<Rightarrow> bool"

named_theorems stdio_simps \<open>effect of a call on an open stream\<close>

definition no_faults :: io_plan where
  "no_faults = \<lparr>fopen_fails = \<lambda>_. False, short_io = \<lambda>_. None, short_flush = \<lambda>_. None, fseek_fails = \<lambda>_. False\<rparr>"

definition stdio_ok :: "stdio \<Rightarrow> bool" where
  "stdio_ok w \<longleftrightarrow> 0 < next_file w \<and> (\<forall>f \<in> dom (streams w). 0 < f \<and> f < next_file w)"

definition content :: "stdio \<Rightarrow> string \<Rightarrow> bytes" where
  "content w p = (case files w p of None \<Rightarrow> [] | Some c \<Rightarrow> c)"

definition write_at :: "bytes \<Rightarrow> nat \<Rightarrow> bytes \<Rightarrow> bytes" where
  "write_at c pos bs =
     (if bs = [] then c
      else take pos c @ replicate (pos - length c) 0 @ bs @ drop (pos + length bs) c)"

definition tick :: "stdio \<Rightarrow> stdio" where
  "tick w = w\<lparr>calls := Suc (calls w)\<rparr>"

definition limit :: "nat option \<Rightarrow> bytes \<Rightarrow> bytes" where
  "limit k bs = (case k of None \<Rightarrow> bs | Some n \<Rightarrow> take n bs)"

definition flush_works :: "io_plan \<Rightarrow> bool" where
  "flush_works plan \<longleftrightarrow> short_flush plan = (\<lambda>_. None) \<and> fseek_fails plan = (\<lambda>_. False)"

text \<open>The files after all buffered bytes of a stream have been written.\<close>

definition committed :: "stdio \<Rightarrow> stream \<Rightarrow> string \<Rightarrow> bytes option" where
  "committed w s =
     (if st_pend s = [] then files w
      else (files w)(st_path s \<mapsto> write_at (content w (st_path s)) (st_pos s) (st_pend s)))"

section \<open>Operations\<close>

definition open_stream :: "stdio \<Rightarrow> string \<Rightarrow> FILE \<times> stdio" where
  "open_stream w p =
     (next_file w, w\<lparr>streams := (streams w)(next_file w \<mapsto> \<lparr>st_path = p, st_pos = 0, st_pend = []\<rparr>),
                     next_file := Suc (next_file w)\<rparr>)"

definition fopen_wb :: "io_plan \<Rightarrow> stdio \<Rightarrow> string \<Rightarrow> FILE \<times> stdio" where
  "fopen_wb plan w p =
     (if fopen_fails plan (calls w) then (0, tick w)
      else open_stream (tick (w\<lparr>files := (files w)(p \<mapsto> [])\<rparr>)) p)"

definition fopen_rb :: "io_plan \<Rightarrow> stdio \<Rightarrow> string \<Rightarrow> FILE \<times> stdio" where
  "fopen_rb plan w p =
     (if fopen_fails plan (calls w) \<or> files w p = None then (0, tick w) else open_stream (tick w) p)"

text \<open>\<open>fwrite(bs, length bs, 1, f) == 1\<close>.\<close>

definition fwrite :: "io_plan \<Rightarrow> stdio \<Rightarrow> FILE \<Rightarrow> bytes \<Rightarrow> (bool \<times> stdio) option" where
  "fwrite plan w f bs =
     (case streams w f of
        None \<Rightarrow> None
      | Some s \<Rightarrow>
          let got = limit (short_io plan (calls w)) bs
          in Some (length got = length bs,
                   tick (w\<lparr>streams := (streams w)(f \<mapsto> s\<lparr>st_pend := st_pend s @ got\<rparr>)\<rparr>)))"

text \<open>\<open>fread(buf, n, 1, f)\<close>: the bytes of the item if all of it was read.\<close>

definition fread :: "io_plan \<Rightarrow> stdio \<Rightarrow> FILE \<Rightarrow> nat \<Rightarrow> (bytes option \<times> stdio) option" where
  "fread plan w f n =
     (case streams w f of
        None \<Rightarrow> None
      | Some s \<Rightarrow>
          let got = limit (short_io plan (calls w)) (take n (drop (st_pos s) (content w (st_path s))))
          in Some (if length got = n then Some got else None,
                   tick (w\<lparr>streams := (streams w)(f \<mapsto> s\<lparr>st_pos := st_pos s + length got\<rparr>)\<rparr>)))"

text \<open>The buffered bytes go to the file; what the plan cuts off is lost.\<close>

definition flush :: "io_plan \<Rightarrow> stdio \<Rightarrow> FILE \<Rightarrow> stream \<Rightarrow> bool \<times> stdio" where
  "flush plan w f s =
     (let got = limit (short_flush plan (calls w)) (st_pend s)
      in (length got = length (st_pend s),
          w\<lparr>files := (if got = [] then files w
                      else (files w)(st_path s \<mapsto> write_at (content w (st_path s)) (st_pos s) got)),
            streams := (streams w)(f \<mapsto> s\<lparr>st_pos := st_pos s + length got, st_pend := []\<rparr>)\<rparr>))"

definition fseek :: "io_plan \<Rightarrow> stdio \<Rightarrow> FILE \<Rightarrow> nat \<Rightarrow> (bool \<times> stdio) option" where
  "fseek plan w f pos =
     (case streams w f of
        None \<Rightarrow> None
      | Some s \<Rightarrow>
          let (ok, w1) = flush plan w f s
          in if ok \<and> \<not> fseek_fails plan (calls w)
             then Some (True, tick (w1\<lparr>streams := (streams w1)(f \<mapsto> s\<lparr>st_pos := pos, st_pend := []\<rparr>)\<rparr>))
             else Some (False, tick w1))"

definition fflush :: "io_plan \<Rightarrow> stdio \<Rightarrow> FILE \<Rightarrow> (bool \<times> stdio) option" where
  "fflush plan w f =
     (case streams w f of
        None \<Rightarrow> None
      | Some s \<Rightarrow> let (ok, w1) = flush plan w f s in Some (ok, tick w1))"

definition fclose :: "io_plan \<Rightarrow> stdio \<Rightarrow> FILE \<Rightarrow> (bool \<times> stdio) option" where
  "fclose plan w f =
     (case streams w f of
        None \<Rightarrow> None
      | Some s \<Rightarrow> let (ok, w1) = flush plan w f s in Some (ok, tick (w1\<lparr>streams := (streams w1)(f := None)\<rparr>)))"

section \<open>Basic facts\<close>

lemma limit_None [simp]: "limit None bs = bs"
  and limit_Some [simp]: "limit (Some n) bs = take n bs"
  by (simp_all add: limit_def)

lemma length_limit: "length (limit k bs) \<le> length bs"
  by (cases k) simp_all

lemma limit_prefix: "limit k bs = take (length (limit k bs)) bs"
  by (cases k) (simp_all add: min_def)

lemma tick_sel [simp]:
  "files (tick w) = files w" "streams (tick w) = streams w" "next_file (tick w) = next_file w"
  "calls (tick w) = Suc (calls w)" "content (tick w) = content w"
  by (auto simp: tick_def content_def)

lemma no_faults_sel [simp]:
  "fopen_fails no_faults n = False" "short_io no_faults n = None" "short_flush no_faults n = None"
  "fseek_fails no_faults n = False"
  by (simp_all add: no_faults_def)

lemma write_at_end [simp]: "write_at c (length c) bs = c @ bs"
  by (simp add: write_at_def)

lemma write_at_Nil [simp]: "write_at c pos [] = c"
  by (simp add: write_at_def)

lemma write_at_inside: "write_at (a @ b @ c) (length a) b' = a @ b' @ c" if "length b' = length b"
  using that by (auto simp: write_at_def)

lemma stdio_ok_fresh: "stdio_ok w \<Longrightarrow> streams w (next_file w) = None"
  by (auto simp: stdio_ok_def)

lemma stdio_ok_open: "stdio_ok w \<Longrightarrow> streams w f = Some s \<Longrightarrow> 0 < f \<and> f < next_file w"
  by (auto simp: stdio_ok_def)

section \<open>Calls without a flush fault\<close>

lemma fwrite_Some [stdio_simps]:
  "streams w f = Some s \<Longrightarrow> fwrite plan w f bs =
     Some (length (limit (short_io plan (calls w)) bs) = length bs,
       w\<lparr>streams := (streams w)(f \<mapsto> s\<lparr>st_pend := st_pend s @ limit (short_io plan (calls w)) bs\<rparr>), calls := Suc (calls w)\<rparr>)"
  by (simp add: fwrite_def Let_def tick_def)

lemma flush_works_flush:
  "flush_works plan \<Longrightarrow> flush plan w f s =
     (True, w\<lparr>files := committed w s,
              streams := (streams w)(f \<mapsto> s\<lparr>st_pos := st_pos s + length (st_pend s), st_pend := []\<rparr>)\<rparr>)"
  by (simp add: flush_def flush_works_def committed_def Let_def)

lemma fseek_Some [stdio_simps]:
  "flush_works plan \<Longrightarrow> streams w f = Some s \<Longrightarrow> fseek plan w f pos =
     Some (True, w\<lparr>files := committed w s, streams := (streams w)(f \<mapsto> s\<lparr>st_pos := pos, st_pend := []\<rparr>), calls := Suc (calls w)\<rparr>)"
  by (simp add: fseek_def flush_works_flush tick_def) (simp add: flush_works_def)

lemma fflush_Some [stdio_simps]:
  "flush_works plan \<Longrightarrow> streams w f = Some s \<Longrightarrow> fflush plan w f =
     Some (True, w\<lparr>files := committed w s,
       streams := (streams w)(f \<mapsto> s\<lparr>st_pos := st_pos s + length (st_pend s), st_pend := []\<rparr>), calls := Suc (calls w)\<rparr>)"
  by (simp add: fflush_def flush_works_flush tick_def)

lemma fclose_Some [stdio_simps]:
  "flush_works plan \<Longrightarrow> streams w f = Some s \<Longrightarrow> fclose plan w f =
     Some (True, w\<lparr>files := committed w s, streams := (streams w)(f := None), calls := Suc (calls w)\<rparr>)"
  by (simp add: fclose_def flush_works_flush tick_def)

lemma committed_Nil [simp]: "st_pend s = [] \<Longrightarrow> committed w s = files w"
  by (simp add: committed_def)

lemma flush_works_no_faults [simp]: "flush_works no_faults"
  by (simp add: flush_works_def no_faults_def)

section \<open>Which streams are open\<close>

text \<open>
  What a call does to the set of open streams, under any plan of faults: only \<open>fopen\<close> adds one and only
  \<open>fclose\<close> removes one. A call on an open stream is never undefined.
\<close>

lemma streams_update_ok:
  "f \<in> dom (streams w) \<Longrightarrow> stdio_ok w \<Longrightarrow> streams w' = (streams w)(f \<mapsto> s) \<Longrightarrow> next_file w' = next_file w \<Longrightarrow>
   stdio_ok w' \<and> dom (streams w') = dom (streams w)"
  by (auto simp: stdio_ok_def)

lemma fwrite_open:
  assumes "f \<in> dom (streams w)" "stdio_ok w"
  obtains ok w' where "fwrite plan w f bs = Some (ok, w')" "stdio_ok w'" "dom (streams w') = dom (streams w)"
    "next_file w' = next_file w"
proof -
  obtain s where s: "streams w f = Some s" using assms(1) by blast
  obtain ok w' where e: "fwrite plan w f bs = Some (ok, w')" by (simp add: fwrite_def s Let_def)
  obtain s' where u: "streams w' = (streams w)(f \<mapsto> s')" "next_file w' = next_file w"
    using e by (auto simp: fwrite_def s Let_def)
  show thesis using streams_update_ok [OF assms u] u(2) that [OF e] by simp
qed

lemma fread_open:
  assumes "f \<in> dom (streams w)" "stdio_ok w"
  obtains r w' where "fread plan w f n = Some (r, w')" "stdio_ok w'" "dom (streams w') = dom (streams w)"
    "next_file w' = next_file w"
proof -
  obtain s where s: "streams w f = Some s" using assms(1) by blast
  obtain ok w' where e: "fread plan w f n = Some (ok, w')" by (simp add: fread_def s Let_def)
  obtain s' where u: "streams w' = (streams w)(f \<mapsto> s')" "next_file w' = next_file w"
    using e by (auto simp: fread_def s Let_def)
  show thesis using streams_update_ok [OF assms u] u(2) that [OF e] by simp
qed

lemma flush_streams:
  assumes "flush plan w f s = (ok, w')"
  obtains s' where "streams w' = (streams w)(f \<mapsto> s')" "next_file w' = next_file w"
proof -
  have "streams w' = (streams w)(f \<mapsto> s\<lparr>st_pos := st_pos s + length (limit (short_flush plan (calls w)) (st_pend s)), st_pend := []\<rparr>)"
    "next_file w' = next_file w"
    using assms by (auto simp: flush_def Let_def)
  then show thesis by (rule that)
qed

lemma fseek_open:
  assumes "f \<in> dom (streams w)" "stdio_ok w"
  obtains ok w' where "fseek plan w f pos = Some (ok, w')" "stdio_ok w'" "dom (streams w') = dom (streams w)"
    "next_file w' = next_file w"
proof -
  obtain s where s: "streams w f = Some s" using assms(1) by blast
  obtain ok0 w1 where fl: "flush plan w f s = (ok0, w1)" by (meson surj_pair)
  obtain s1 where s1: "streams w1 = (streams w)(f \<mapsto> s1)" "next_file w1 = next_file w" using fl by (rule flush_streams)
  obtain ok w' where e: "fseek plan w f pos = Some (ok, w')"
    by (cases "ok0 \<and> \<not> fseek_fails plan (calls w)") (auto simp: fseek_def s fl)
  obtain s' where u: "streams w' = (streams w)(f \<mapsto> s')" "next_file w' = next_file w"
    using e s1 by (auto simp: fseek_def s fl Let_def split: if_splits)
  show thesis using streams_update_ok [OF assms u] u(2) that [OF e] by simp
qed

lemma fflush_open:
  assumes "f \<in> dom (streams w)" "stdio_ok w"
  obtains ok w' where "fflush plan w f = Some (ok, w')" "stdio_ok w'" "dom (streams w') = dom (streams w)"
    "next_file w' = next_file w"
proof -
  obtain s where s: "streams w f = Some s" using assms(1) by blast
  obtain ok0 w1 where fl: "flush plan w f s = (ok0, w1)" by (meson surj_pair)
  obtain s1 where "streams w1 = (streams w)(f \<mapsto> s1)" "next_file w1 = next_file w" using fl by (rule flush_streams)
  then have s1: "streams (tick w1) = (streams w)(f \<mapsto> s1)" "next_file (tick w1) = next_file w" by simp_all
  have e: "fflush plan w f = Some (ok0, tick w1)" by (simp add: fflush_def s fl)
  show thesis using streams_update_ok [OF assms s1] s1(2) that [OF e] by simp
qed

lemma fclose_open:
  assumes "f \<in> dom (streams w)" "stdio_ok w"
  obtains ok w' where "fclose plan w f = Some (ok, w')" "stdio_ok w'" "dom (streams w') = dom (streams w) - {f}"
    "next_file w' = next_file w"
proof -
  obtain s where s: "streams w f = Some s" using assms(1) by blast
  obtain ok0 w1 where fl: "flush plan w f s = (ok0, w1)" by (meson surj_pair)
  obtain s1 where s1: "streams w1 = (streams w)(f \<mapsto> s1)" "next_file w1 = next_file w" using fl by (rule flush_streams)
  define w' where "w' = tick (w1\<lparr>streams := (streams w1)(f := None)\<rparr>)"
  have e: "fclose plan w f = Some (ok0, w')" by (simp add: fclose_def s fl w'_def)
  have d: "dom (streams w') = dom (streams w) - {f}" and n: "next_file w' = next_file w"
    by (auto simp: w'_def s1)
  have "stdio_ok w'" using assms(2) unfolding stdio_ok_def d n by auto
  then show thesis using that [OF e] d n by simp
qed

lemma open_stream_open:
  assumes "open_stream w p = (f, w')" "stdio_ok w"
  shows "stdio_ok w'" "dom (streams w') = insert f (dom (streams w))" "f \<notin> dom (streams w)" "0 < f"
proof -
  have f: "f = next_file w" and d: "dom (streams w') = insert f (dom (streams w))" and n: "next_file w' = Suc (next_file w)"
    using assms(1) by (auto simp: open_stream_def)
  show "dom (streams w') = insert f (dom (streams w))" by (rule d)
  show "0 < f" using assms(2) by (simp add: stdio_ok_def f)
  show "f \<notin> dom (streams w)" using stdio_ok_fresh [OF assms(2)] by (simp add: f domIff)
  show "stdio_ok w'" using assms(2) unfolding stdio_ok_def d n f by (auto simp: less_Suc_eq)
qed

text \<open>\<open>fopen\<close> either fails and opens nothing or opens one new stream.\<close>

lemma stdio_ok_tick [simp]: "stdio_ok (tick w) = stdio_ok w"
  by (simp add: stdio_ok_def)

lemma stdio_ok_files [simp]: "stdio_ok (w\<lparr>files := fs\<rparr>) = stdio_ok w"
  by (simp add: stdio_ok_def)

lemma fopen_wb_open:
  assumes "fopen_wb plan w p = (f, w')" "stdio_ok w"
  shows "stdio_ok w' \<and> (f = 0 \<and> streams w' = streams w \<or>
     0 < f \<and> f \<notin> dom (streams w) \<and> dom (streams w') = insert f (dom (streams w)))"
proof (cases "fopen_fails plan (calls w)")
  case True
  then show ?thesis using assms by (auto simp: fopen_wb_def)
next
  case False
  then have o: "open_stream (tick (w\<lparr>files := (files w)(p \<mapsto> [])\<rparr>)) p = (f, w')" using assms(1) by (simp add: fopen_wb_def)
  have "stdio_ok (tick (w\<lparr>files := (files w)(p \<mapsto> [])\<rparr>))" using assms(2) by simp
  from open_stream_open [OF o this] show ?thesis by simp
qed

lemma fopen_rb_open:
  assumes "fopen_rb plan w p = (f, w')" "stdio_ok w"
  shows "stdio_ok w' \<and> (f = 0 \<and> streams w' = streams w \<or>
     0 < f \<and> f \<notin> dom (streams w) \<and> dom (streams w') = insert f (dom (streams w)))"
proof (cases "fopen_fails plan (calls w) \<or> files w p = None")
  case True
  then show ?thesis using assms by (auto simp: fopen_rb_def)
next
  case False
  then have o: "open_stream (tick w) p = (f, w')" using assms(1) by (auto simp: fopen_rb_def)
  have "stdio_ok (tick w)" using assms(2) by simp
  from open_stream_open [OF o this] show ?thesis by simp
qed

end
