(* ===== verification/Pcap_Writer.thy ===== *)
theory Pcap_Writer
  imports Feed_Event Stdio
begin

text \<open>
  \<open>PcapWriter\<close> of \<open>include/ultrafast/pcap_writer.hpp\<close> over the streams of \<open>Stdio\<close>. The results the code
  ignores (the header writes and everything in \<open>close\<close>) are ignored here as well.
\<close>

section \<open>Constants and state\<close>

definition kMagic :: u64 where
  "kMagic = 0x5546415354464545"

definition kVersion :: u32 where
  "kVersion = 1"

definition kCountOffset :: nat where
  "kCountOffset = 16"

definition kRecordSize :: nat where
  "kRecordSize = 88"

record PcapWriter =
  pw_file :: FILE
  pw_count :: u64

section \<open>Operations\<close>

definition write_header :: "io_plan \<Rightarrow> FILE \<Rightarrow> stdio \<Rightarrow> stdio option" where
  "write_header plan f w =
     do {
       (_, w1) \<leftarrow> fwrite plan w f (le_bytes 8 kMagic);
       (_, w2) \<leftarrow> fwrite plan w1 f (le_bytes 4 kVersion);
       (_, w3) \<leftarrow> fwrite plan w2 f (le_bytes 4 (0 :: u32));
       (_, w4) \<leftarrow> fwrite plan w3 f (le_bytes 8 (0 :: u64));
       Some w4
     }"

definition PcapWriter_new :: "io_plan \<Rightarrow> string \<Rightarrow> stdio \<Rightarrow> (PcapWriter \<times> stdio) option" where
  "PcapWriter_new plan path w =
     (let (f, w1) = fopen_wb plan w path; wr = \<lparr>pw_file = f, pw_count = 0\<rparr>
      in if f \<noteq> 0 then do { w2 \<leftarrow> write_header plan f w1; Some (wr, w2) } else Some (wr, w1))"

definition pw_is_open :: "PcapWriter \<Rightarrow> bool" where
  "pw_is_open wr \<longleftrightarrow> pw_file wr \<noteq> 0"

definition events_written :: "PcapWriter \<Rightarrow> u64" where
  "events_written wr = pw_count wr"

text \<open>A sequence of \<open>if (fwrite(...) != 1) return false\<close>.\<close>

fun write_items :: "io_plan \<Rightarrow> FILE \<Rightarrow> bytes list \<Rightarrow> stdio \<Rightarrow> (bool \<times> stdio) option" where
  "write_items plan f [] w = Some (True, w)"
| "write_items plan f (bs # rest) w =
     do {
       (ok, w1) \<leftarrow> fwrite plan w f bs;
       if ok then write_items plan f rest w1 else Some (False, w1)
     }"

definition write_event :: "io_plan \<Rightarrow> PcapWriter \<Rightarrow> FeedEvent \<Rightarrow> stdio \<Rightarrow> (bool \<times> PcapWriter \<times> stdio) option" where
  "write_event plan wr ev w =
     (if pw_file wr = 0 then Some (False, wr, w)
      else do {
        (ok, w1) \<leftarrow> write_items plan (pw_file wr)
          [le_bytes 8 (inject_ns ev), le_bytes 8 (receive_ns ev), le_bytes 2 (payload_len ev),
           replicate 6 0, payload ev] w;
        if ok then Some (True, wr\<lparr>pw_count := pw_count wr + 1\<rparr>, w1) else Some (False, wr, w1)
      })"

definition pw_close :: "io_plan \<Rightarrow> PcapWriter \<Rightarrow> stdio \<Rightarrow> (PcapWriter \<times> stdio) option" where
  "pw_close plan wr w =
     (if pw_file wr = 0 then Some (wr, w)
      else do {
        (_, w1) \<leftarrow> fseek plan w (pw_file wr) kCountOffset;
        (_, w2) \<leftarrow> fwrite plan w1 (pw_file wr) (le_bytes 8 (pw_count wr));
        (_, w3) \<leftarrow> fflush plan w2 (pw_file wr);
        (_, w4) \<leftarrow> fclose plan w3 (pw_file wr);
        Some (wr\<lparr>pw_file := 0\<rparr>, w4)
      })"

definition PcapWriter_destroy :: "io_plan \<Rightarrow> PcapWriter \<Rightarrow> stdio \<Rightarrow> stdio option" where
  "PcapWriter_destroy plan wr w = map_option snd (pw_close plan wr w)"

section \<open>File format\<close>

definition header_bytes :: "u64 \<Rightarrow> bytes" where
  "header_bytes n = le_bytes 8 kMagic @ le_bytes 4 kVersion @ replicate 4 0 @ le_bytes 8 n"

definition record_bytes :: "FeedEvent \<Rightarrow> bytes" where
  "record_bytes ev = le_bytes 8 (inject_ns ev) @ le_bytes 8 (receive_ns ev) @ le_bytes 2 (payload_len ev)
     @ replicate 6 0 @ payload ev"

definition capture_bytes :: "FeedEvent list \<Rightarrow> bytes" where
  "capture_bytes evs = header_bytes (of_nat (length evs)) @ concat (map record_bytes evs)"

text \<open>A client that writes a list of events, whatever \<open>write_event\<close> answers.\<close>

fun write_events :: "io_plan \<Rightarrow> PcapWriter \<Rightarrow> FeedEvent list \<Rightarrow> stdio \<Rightarrow> (bool list \<times> PcapWriter \<times> stdio) option" where
  "write_events plan wr [] w = Some ([], wr, w)"
| "write_events plan wr (ev # evs) w =
     do {
       (ok, wr1, w1) \<leftarrow> write_event plan wr ev w;
       (oks, wr2, w2) \<leftarrow> write_events plan wr1 evs w1;
       Some (ok # oks, wr2, w2)
     }"

text \<open>The life of a writer: construct, write, destroy.\<close>

definition write_capture :: "io_plan \<Rightarrow> string \<Rightarrow> FeedEvent list \<Rightarrow> stdio \<Rightarrow> (bool list \<times> stdio) option" where
  "write_capture plan path evs w =
     do {
       (wr0, w0) \<leftarrow> PcapWriter_new plan path w;
       (oks, wr1, w1) \<leftarrow> write_events plan wr0 evs w0;
       w2 \<leftarrow> PcapWriter_destroy plan wr1 w1;
       Some (oks, w2)
     }"

text \<open>The stream \<open>f\<close> has taken the bytes \<open>bs\<close> into its buffer and nothing else has changed.\<close>

definition buffered :: "FILE \<Rightarrow> bytes \<Rightarrow> stdio \<Rightarrow> stdio \<Rightarrow> bool" where
  "buffered f bs w w' \<longleftrightarrow>
     (\<exists>s. streams w f = Some s \<and> streams w' = (streams w)(f \<mapsto> s\<lparr>st_pend := st_pend s @ bs\<rparr>)) \<and>
     files w' = files w \<and> next_file w' = next_file w"

text \<open>The writer after \<open>k\<close> bytes of an event's record were taken, and the outcome of a list of events.\<close>

definition after_write :: "FeedEvent \<Rightarrow> nat \<Rightarrow> PcapWriter \<Rightarrow> PcapWriter" where
  "after_write ev k wr = (if k = length (record_bytes ev) then wr\<lparr>pw_count := pw_count wr + 1\<rparr> else wr)"

definition cut_records :: "FeedEvent list \<Rightarrow> nat list \<Rightarrow> bytes" where
  "cut_records evs ks = concat (map2 (\<lambda>ev k. take k (record_bytes ev)) evs ks)"

definition taken :: "FeedEvent list \<Rightarrow> nat list \<Rightarrow> bool list" where
  "taken evs ks = map2 (\<lambda>ev k. k = length (record_bytes ev)) evs ks"

text \<open>What a client may do with a writer between construction and destruction.\<close>

datatype writer_op = Write FeedEvent | Close_writer

fun writer_run :: "io_plan \<Rightarrow> PcapWriter \<Rightarrow> writer_op list \<Rightarrow> stdio \<Rightarrow> (bool list \<times> PcapWriter \<times> stdio) option" where
  "writer_run plan wr [] w = Some ([], wr, w)"
| "writer_run plan wr (Write ev # ops) w =
     do {
       (ok, wr1, w1) \<leftarrow> write_event plan wr ev w;
       (oks, wr2, w2) \<leftarrow> writer_run plan wr1 ops w1;
       Some (ok # oks, wr2, w2)
     }"
| "writer_run plan wr (Close_writer # ops) w =
     do {
       (wr1, w1) \<leftarrow> pw_close plan wr w;
       writer_run plan wr1 ops w1
     }"

text \<open>The writer is closed, or its stream is open and is the only one besides \<open>F\<close>.\<close>

definition writer_inv :: "FILE set \<Rightarrow> PcapWriter \<Rightarrow> stdio \<Rightarrow> bool" where
  "writer_inv F wr w \<longleftrightarrow> stdio_ok w \<and> 0 \<notin> F \<and> pw_file wr \<notin> F \<and>
     dom (streams w) = (if pw_file wr = 0 then F else insert (pw_file wr) F)"

definition empty_stdio :: stdio where
  "empty_stdio = \<lparr>files = (\<lambda>_. None), streams = (\<lambda>_. None), next_file = 1, calls = 0\<rparr>"

text \<open>The write of the first event's \<open>payload_len\<close>, call 7, stops after one byte.\<close>

definition short_plan :: io_plan where
  "short_plan = no_faults\<lparr>short_io := (\<lambda>n. if n = 7 then Some 1 else None)\<rparr>"

section \<open>Buffered writes\<close>

lemma length_header_bytes [simp]: "length (header_bytes n) = 24"
  by (simp add: header_bytes_def)

lemma header_bytes_not_Nil [simp]: "header_bytes n \<noteq> []"
  by (simp flip: length_0_conv)

lemma le_bytes_not_Nil [simp]: "0 < n \<Longrightarrow> le_bytes n w \<noteq> []"
  by (simp flip: length_0_conv)

lemma length_record_bytes [simp]: "event_ok ev \<Longrightarrow> length (record_bytes ev) = kRecordSize"
  by (simp add: record_bytes_def event_ok_def kRecordSize_def)

lemma le_bytes_zero [simp]: "le_bytes n (0 :: 'a::len word) = replicate n 0"
  by (induction n) simp_all

lemma buffered_trans: "buffered f a w w1 \<Longrightarrow> buffered f b w1 w2 \<Longrightarrow> buffered f (a @ b) w w2"
  unfolding buffered_def by auto

lemma buffered_refl: "f \<in> dom (streams w) \<Longrightarrow> buffered f [] w w"
  unfolding buffered_def by (auto simp: fun_upd_idem)

lemma buffered_dom: "buffered f bs w w' \<Longrightarrow> f \<in> dom (streams w')"
  unfolding buffered_def by auto

lemma buffered_ok: "buffered f bs w w' \<Longrightarrow> stdio_ok w \<Longrightarrow> stdio_ok w' \<and> dom (streams w') = dom (streams w)"
  unfolding buffered_def using streams_update_ok [of f w w'] by blast

lemma fwrite_buffered:
  assumes "f \<in> dom (streams w)"
  obtains w' k where "fwrite plan w f bs = Some (k = length bs, w')" "k \<le> length bs"
    "short_io plan (calls w) = None \<longrightarrow> k = length bs" "buffered f (take k bs) w w'" "calls w' = Suc (calls w)"
proof -
  obtain s where s: "streams w f = Some s" using assms by blast
  let ?k = "length (limit (short_io plan (calls w)) bs)"
  let ?w = "tick (w\<lparr>streams := (streams w)(f \<mapsto> s\<lparr>st_pend := st_pend s @ limit (short_io plan (calls w)) bs\<rparr>)\<rparr>)"
  have 1: "fwrite plan w f bs = Some (?k = length bs, ?w)" by (simp add: fwrite_def s Let_def)
  have 2: "buffered f (take ?k bs) w ?w"
    unfolding buffered_def limit_prefix [symmetric] by (simp add: s)
  have 3: "calls ?w = Suc (calls w)" by simp
  have 4: "short_io plan (calls w) = None \<longrightarrow> ?k = length bs" by simp
  show thesis by (rule that [OF 1 length_limit 4 2 3])
qed

lemma fwrite_full:
  assumes "f \<in> dom (streams w)" "short_io plan (calls w) = None"
  obtains w' where "fwrite plan w f bs = Some (True, w')" "buffered f bs w w'" "calls w' = Suc (calls w)"
proof -
  obtain w' k where "fwrite plan w f bs = Some (k = length bs, w')" "k \<le> length bs"
    "short_io plan (calls w) = None \<longrightarrow> k = length bs" "buffered f (take k bs) w w'" "calls w' = Suc (calls w)"
    by (rule fwrite_buffered [OF assms(1)])
  with assms(2) have "fwrite plan w f bs = Some (True, w')" "buffered f bs w w'" "calls w' = Suc (calls w)" by simp_all
  then show thesis by (rule that)
qed

lemma write_items_buffered:
  assumes "f \<in> dom (streams w)"
  obtains w' k where "write_items plan f items w = Some (k = length (concat items), w')" "k \<le> length (concat items)"
    "short_io plan = (\<lambda>_. None) \<longrightarrow> k = length (concat items)" "buffered f (take k (concat items)) w w'"
  using assms
proof (induction items arbitrary: w thesis)
  case Nil
  then show ?case by (simp add: buffered_refl)
next
  case (Cons bs rest)
  obtain w1 k1 where f1: "fwrite plan w f bs = Some (k1 = length bs, w1)" "k1 \<le> length bs"
    "short_io plan (calls w) = None \<longrightarrow> k1 = length bs" "buffered f (take k1 bs) w w1"
    by (rule fwrite_buffered [OF Cons.prems(2)])
  show ?case
  proof (cases "k1 = length bs")
    case True
    obtain w2 k where r: "write_items plan f rest w1 = Some (k = length (concat rest), w2)" "k \<le> length (concat rest)"
      "short_io plan = (\<lambda>_. None) \<longrightarrow> k = length (concat rest)" "buffered f (take k (concat rest)) w1 w2"
      by (rule Cons.IH [OF _ buffered_dom [OF f1(4)]])
    have "buffered f (take (length bs + k) (concat (bs # rest))) w w2"
      using buffered_trans [OF f1(4) r(4)] True by simp
    then show ?thesis using f1(1) r(1-3) True by (intro Cons.prems(1) [of "length bs + k" w2]) simp_all
  next
    case False
    then have "short_io plan \<noteq> (\<lambda>_. None)" using f1(3) by auto
    then show ?thesis using f1 False by (intro Cons.prems(1) [of k1 w1]) simp_all
  qed
qed

lemma write_event_buffered:
  assumes "pw_file wr \<in> dom (streams w)" "pw_file wr \<noteq> 0"
  obtains w' k where "write_event plan wr ev w = Some (k = length (record_bytes ev), after_write ev k wr, w')"
    "k \<le> length (record_bytes ev)" "short_io plan = (\<lambda>_. None) \<longrightarrow> k = length (record_bytes ev)"
    "buffered (pw_file wr) (take k (record_bytes ev)) w w'"
proof -
  let ?items = "[le_bytes 8 (inject_ns ev), le_bytes 8 (receive_ns ev), le_bytes 2 (payload_len ev), replicate 6 0, payload ev]"
  have c: "concat ?items = record_bytes ev" by (simp add: record_bytes_def)
  obtain w' k where w': "write_items plan (pw_file wr) ?items w = Some (k = length (record_bytes ev), w')"
    "k \<le> length (record_bytes ev)" "short_io plan = (\<lambda>_. None) \<longrightarrow> k = length (record_bytes ev)"
    "buffered (pw_file wr) (take k (record_bytes ev)) w w'"
    using write_items_buffered [OF assms(1), of plan ?items] unfolding c by metis
  have "write_event plan wr ev w = Some (k = length (record_bytes ev), after_write ev k wr, w')"
    unfolding write_event_def w'(1) after_write_def using assms(2) by simp
  then show thesis using w'(2-) by (rule that)
qed

lemma write_events_buffered:
  assumes "pw_file wr \<in> dom (streams w)" "pw_file wr \<noteq> 0"
  obtains w' ks where "length ks = length evs"
    "write_events plan wr evs w
       = Some (taken evs ks, wr\<lparr>pw_count := pw_count wr + of_nat (length (filter (\<lambda>ok. ok) (taken evs ks)))\<rparr>, w')"
    "short_io plan = (\<lambda>_. None) \<longrightarrow> ks = map (length \<circ> record_bytes) evs"
    "buffered (pw_file wr) (cut_records evs ks) w w'"
  using assms
proof (induction evs arbitrary: wr w thesis)
  case Nil
  then show ?case by (simp add: buffered_refl taken_def cut_records_def)
next
  case (Cons ev evs)
  obtain w1 k where 1: "write_event plan wr ev w = Some (k = length (record_bytes ev), after_write ev k wr, w1)"
    "k \<le> length (record_bytes ev)" "short_io plan = (\<lambda>_. None) \<longrightarrow> k = length (record_bytes ev)"
    "buffered (pw_file wr) (take k (record_bytes ev)) w w1"
    by (rule write_event_buffered [OF Cons.prems(2,3)])
  have f: "pw_file (after_write ev k wr) = pw_file wr" by (simp add: after_write_def)
  obtain w2 ks where 2: "length ks = length evs"
    "write_events plan (after_write ev k wr) evs w1 = Some (taken evs ks,
       (after_write ev k wr)\<lparr>pw_count := pw_count (after_write ev k wr) + of_nat (length (filter (\<lambda>ok. ok) (taken evs ks)))\<rparr>, w2)"
    "short_io plan = (\<lambda>_. None) \<longrightarrow> ks = map (length \<circ> record_bytes) evs"
    "buffered (pw_file wr) (cut_records evs ks) w1 w2"
    using Cons.IH [of "after_write ev k wr" w1] buffered_dom [OF 1(4)] Cons.prems(3) unfolding f by metis
  have "buffered (pw_file wr) (cut_records (ev # evs) (k # ks)) w w2"
    using buffered_trans [OF 1(4) 2(4)] by (simp add: cut_records_def)
  moreover have "write_events plan wr (ev # evs) w = Some (taken (ev # evs) (k # ks),
      wr\<lparr>pw_count := pw_count wr + of_nat (length (filter (\<lambda>ok. ok) (taken (ev # evs) (k # ks))))\<rparr>, w2)"
    using 2(2) by (simp add: 1(1) taken_def after_write_def)
  ultimately show ?case using 1(3) 2(1,3) by (intro Cons.prems(1) [of "k # ks" w2]) (simp_all del: write_events.simps)
qed

section \<open>Header and close\<close>

lemma PcapWriter_new_opened:
  assumes "PcapWriter_new plan path w = Some (wr, w')" "stdio_ok w" "pw_is_open wr"
    "\<forall>i \<in> {1..4}. short_io plan (calls w + i) = None"
  shows "pw_count wr = 0" "pw_file wr \<notin> dom (streams w)" "files w' = (files w)(path \<mapsto> [])"
    "streams w' = (streams w)(pw_file wr \<mapsto> \<lparr>st_path = path, st_pos = 0, st_pend = header_bytes 0\<rparr>)"
    "stdio_ok w'"
proof -
  have ok: "\<not> fopen_fails plan (calls w)"
    using assms(1,3) by (auto simp: PcapWriter_new_def fopen_wb_def pw_is_open_def)
  define f where "f = next_file w"
  have f: "f \<noteq> 0" "f \<notin> dom (streams w)" using assms(2) stdio_ok_fresh [OF assms(2)]
    by (auto simp: f_def stdio_ok_def)
  obtain w0 where w0: "fopen_wb plan w path = (f, w0)" "calls w0 = Suc (calls w)" "files w0 = (files w)(path \<mapsto> [])"
    "streams w0 = (streams w)(f \<mapsto> \<lparr>st_path = path, st_pos = 0, st_pend = []\<rparr>)"
    by (simp add: fopen_wb_def ok open_stream_def f_def)
  have q: "short_io plan (Suc (calls w)) = None" "short_io plan (Suc (Suc (calls w))) = None"
    "short_io plan (Suc (Suc (Suc (calls w)))) = None" "short_io plan (Suc (Suc (Suc (Suc (calls w))))) = None"
    using bspec [OF assms(4), of 1] bspec [OF assms(4), of 2] bspec [OF assms(4), of 3] bspec [OF assms(4), of 4]
    by (simp_all add: numeral_eq_Suc)
  obtain w4 where w4: "write_header plan f w0 = Some w4" "buffered f (header_bytes 0) w0 w4"
    by (simp add: write_header_def stdio_simps w0 q buffered_def header_bytes_def)
  have wr: "wr = \<lparr>pw_file = f, pw_count = 0\<rparr>" "w' = w4"
    using assms(1) f(1) by (simp_all add: PcapWriter_new_def Let_def w0(1) w4(1))
  show "pw_count wr = 0" "pw_file wr \<notin> dom (streams w)" using f by (simp_all add: wr)
  show "files w' = (files w)(path \<mapsto> [])"
    "streams w' = (streams w)(pw_file wr \<mapsto> \<lparr>st_path = path, st_pos = 0, st_pend = header_bytes 0\<rparr>)"
    using w4(2) by (auto simp: buffered_def wr w0)
  show "stdio_ok w'" using fopen_wb_open [OF w0(1) assms(2)] buffered_ok [OF w4(2)] by (simp add: wr(2))
qed

lemma pw_close_image:
  assumes "pw_close plan wr w = Some (wr', w')" "pw_file wr \<noteq> 0" "flush_works plan"
    "short_io plan (Suc (calls w)) = None" "files w path = Some []"
    "streams w (pw_file wr) = Some \<lparr>st_path = path, st_pos = 0, st_pend = header_bytes 0 @ body\<rparr>"
  shows "pw_file wr' = 0" "pw_count wr' = pw_count wr"
    "files w' = (files w)(path \<mapsto> header_bytes (pw_count wr) @ body)"
    "streams w' = (streams w)(pw_file wr := None)"
proof -
  have c: "content w path = []" by (simp add: content_def assms(5))
  have h: "header_bytes n @ body = (le_bytes 8 kMagic @ le_bytes 4 kVersion @ replicate 4 0) @ le_bytes 8 n @ body" for n
    by (simp add: header_bytes_def)
  have "write_at (header_bytes 0 @ body) 16 (le_bytes 8 (pw_count wr)) = header_bytes (pw_count wr) @ body"
    unfolding h using write_at_inside [of "le_bytes 8 (pw_count wr)" "le_bytes 8 (0 :: u64)" "le_bytes 8 kMagic @ le_bytes 4 kVersion @ replicate 4 0" body]
    by simp
  then show "pw_file wr' = 0" "pw_count wr' = pw_count wr"
    "files w' = (files w)(path \<mapsto> header_bytes (pw_count wr) @ body)"
    "streams w' = (streams w)(pw_file wr := None)"
    using assms(1) write_at_end [of "[]"]
    by (auto simp: pw_close_def stdio_simps assms committed_def content_def kCountOffset_def)
qed

section \<open>Properties\<close>

lemma write_header_buffered:
  assumes "f \<in> dom (streams w)"
  obtains w' bs where "write_header plan f w = Some w'" "buffered f bs w w'"
proof -
  obtain w1 k1 where 1: "fwrite plan w f (le_bytes 8 kMagic) = Some (k1 = length (le_bytes 8 kMagic), w1)"
    "buffered f (take k1 (le_bytes 8 kMagic)) w w1" by (rule fwrite_buffered [OF assms])
  obtain w2 k2 where 2: "fwrite plan w1 f (le_bytes 4 kVersion) = Some (k2 = length (le_bytes 4 kVersion), w2)"
    "buffered f (take k2 (le_bytes 4 kVersion)) w1 w2" by (rule fwrite_buffered [OF buffered_dom [OF 1(2)]])
  obtain w3 k3 where 3: "fwrite plan w2 f (le_bytes 4 (0 :: u32)) = Some (k3 = length (le_bytes 4 (0 :: u32)), w3)"
    "buffered f (take k3 (le_bytes 4 (0 :: u32))) w2 w3" by (rule fwrite_buffered [OF buffered_dom [OF 2(2)]])
  obtain w4 k4 where 4: "fwrite plan w3 f (le_bytes 8 (0 :: u64)) = Some (k4 = length (le_bytes 8 (0 :: u64)), w4)"
    "buffered f (take k4 (le_bytes 8 (0 :: u64))) w3 w4" by (rule fwrite_buffered [OF buffered_dom [OF 3(2)]])
  have "write_header plan f w = Some w4" unfolding write_header_def 1(1) using 2(1) 3(1) 4(1) by simp
  moreover note buffered_trans [OF 1(2) buffered_trans [OF 2(2) buffered_trans [OF 3(2) 4(2)]]]
  ultimately show thesis by (rule that)
qed

lemma writer_inv_new:
  assumes "stdio_ok w"
  obtains wr w' where "PcapWriter_new plan path w = Some (wr, w')" "writer_inv (dom (streams w)) wr w'" "pw_count wr = 0"
proof -
  obtain f w1 where o: "fopen_wb plan w path = (f, w1)" by (meson surj_pair)
  have z: "0 \<notin> dom (streams w)" using assms by (auto simp: stdio_ok_def)
  note c = fopen_wb_open [OF o assms]
  show thesis
  proof (cases "f = 0")
    case True
    then have "PcapWriter_new plan path w = Some (\<lparr>pw_file = 0, pw_count = 0\<rparr>, w1)" by (simp add: PcapWriter_new_def o)
    moreover have "writer_inv (dom (streams w)) \<lparr>pw_file = 0, pw_count = 0\<rparr> w1" using c True z by (auto simp: writer_inv_def)
    ultimately show thesis using that by simp
  next
    case False
    then have d: "f \<in> dom (streams w1)" "f \<notin> dom (streams w)" "dom (streams w1) = insert f (dom (streams w))" "stdio_ok w1"
      using c by auto
    obtain w2 bs where h: "write_header plan f w1 = Some w2" "buffered f bs w1 w2" using d(1) by (rule write_header_buffered)
    have "PcapWriter_new plan path w = Some (\<lparr>pw_file = f, pw_count = 0\<rparr>, w2)" using False by (simp add: PcapWriter_new_def o h(1))
    moreover have "writer_inv (dom (streams w)) \<lparr>pw_file = f, pw_count = 0\<rparr> w2"
      using buffered_ok [OF h(2) d(4)] d z False by (simp add: writer_inv_def)
    ultimately show thesis using that by simp
  qed
qed

lemma writer_inv_write:
  assumes "writer_inv F wr w"
  obtains ok wr' w' where "write_event plan wr ev w = Some (ok, wr', w')" "writer_inv F wr' w'"
    "pw_count wr' = pw_count wr + (if ok then 1 else 0)"
proof (cases "pw_file wr = 0")
  case True
  then show thesis using that [of False wr w] assms by (simp add: write_event_def)
next
  case False
  then have "pw_file wr \<in> dom (streams w)" using assms by (auto simp: writer_inv_def)
  then obtain w' k where e: "write_event plan wr ev w = Some (k = length (record_bytes ev), after_write ev k wr, w')"
    "buffered (pw_file wr) (take k (record_bytes ev)) w w'" using False by (rule write_event_buffered)
  have "writer_inv F (after_write ev k wr) w'"
    using assms buffered_ok [OF e(2)] by (simp add: writer_inv_def after_write_def)
  then show thesis using that [OF e(1)] by (simp add: after_write_def)
qed

lemma writer_inv_close:
  assumes "writer_inv F wr w"
  obtains wr' w' where "pw_close plan wr w = Some (wr', w')" "writer_inv F wr' w'" "pw_file wr' = 0" "pw_count wr' = pw_count wr"
proof (cases "pw_file wr = 0")
  case True
  then show thesis using that [of wr w] assms by (simp add: pw_close_def)
next
  case False
  let ?f = "pw_file wr"
  have w: "stdio_ok w" "?f \<in> dom (streams w)" "dom (streams w) = insert ?f F" "?f \<notin> F" "0 \<notin> F"
    using assms False by (auto simp: writer_inv_def)
  obtain ok1 w1 where 1: "fseek plan w ?f kCountOffset = Some (ok1, w1)" "stdio_ok w1" "dom (streams w1) = dom (streams w)"
    by (rule fseek_open [OF w(2,1)])
  obtain ok2 w2 where 2: "fwrite plan w1 ?f (le_bytes 8 (pw_count wr)) = Some (ok2, w2)" "stdio_ok w2" "dom (streams w2) = dom (streams w1)"
    using w(2) 1(2,3) by (metis fwrite_open)
  obtain ok3 w3 where 3: "fflush plan w2 ?f = Some (ok3, w3)" "stdio_ok w3" "dom (streams w3) = dom (streams w2)"
    using w(2) 1(3) 2(2,3) by (metis fflush_open)
  obtain ok4 w4 where 4: "fclose plan w3 ?f = Some (ok4, w4)" "stdio_ok w4" "dom (streams w4) = dom (streams w3) - {?f}"
    using w(2) 1(3) 2(3) 3(2,3) by (metis fclose_open)
  have "pw_close plan wr w = Some (wr\<lparr>pw_file := 0\<rparr>, w4)" using False by (simp add: pw_close_def 1(1) 2(1) 3(1) 4(1))
  moreover have "writer_inv F (wr\<lparr>pw_file := 0\<rparr>) w4" using w 1(3) 2(3) 3(3) 4 by (auto simp: writer_inv_def)
  ultimately show thesis using that by simp
qed

lemma writer_run_inv:
  assumes "writer_inv F wr w"
  obtains oks wr' w' where "writer_run plan wr ops w = Some (oks, wr', w')" "writer_inv F wr' w'"
    "pw_count wr' = pw_count wr + of_nat (length (filter (\<lambda>ok. ok) oks))"
  using assms
proof (induction ops arbitrary: wr w thesis)
  case Nil
  then show ?case by simp
next
  case (Cons a ops)
  show ?case
  proof (cases a)
    case (Write ev)
    obtain ok wr1 w1 where 1: "write_event plan wr ev w = Some (ok, wr1, w1)" "writer_inv F wr1 w1"
      "pw_count wr1 = pw_count wr + (if ok then 1 else 0)" using Cons.prems(2) by (rule writer_inv_write)
    obtain oks wr2 w2 where 2: "writer_run plan wr1 ops w1 = Some (oks, wr2, w2)" "writer_inv F wr2 w2"
      "pw_count wr2 = pw_count wr1 + of_nat (length (filter (\<lambda>ok. ok) oks))" by (rule Cons.IH [OF _ 1(2)])
    show ?thesis using Cons.prems(1) [of "ok # oks" wr2 w2] 2 by (simp add: Write 1(1,3))
  next
    case Close_writer
    obtain wr1 w1 where 1: "pw_close plan wr w = Some (wr1, w1)" "writer_inv F wr1 w1" "pw_count wr1 = pw_count wr"
      using Cons.prems(2) by (rule writer_inv_close)
    obtain oks wr2 w2 where 2: "writer_run plan wr1 ops w1 = Some (oks, wr2, w2)" "writer_inv F wr2 w2"
      "pw_count wr2 = pw_count wr1 + of_nat (length (filter (\<lambda>ok. ok) oks))" by (rule Cons.IH [OF _ 1(2)])
    show ?thesis using Cons.prems(1) [of oks wr2 w2] 2 by (simp add: Close_writer 1(1,3))
  qed
qed

text \<open>
  (C27) Whatever faults occur, a client that constructs a \<open>PcapWriter\<close>, calls \<open>write_event\<close> and \<open>close\<close> in any
  order and lets it be destroyed never passes a closed or null stream to the C library, leaves exactly the streams open
  that were open before, and \<open>events_written\<close> is the number of calls that returned true.
\<close>

theorem pcap_writer_safe:
  assumes "stdio_ok w"
  shows "\<exists>wr0 w0 oks wr1 w1 w2. PcapWriter_new plan path w = Some (wr0, w0) \<and>
    writer_run plan wr0 ops w0 = Some (oks, wr1, w1) \<and> PcapWriter_destroy plan wr1 w1 = Some w2 \<and>
    dom (streams w2) = dom (streams w) \<and> events_written wr1 = of_nat (length (filter (\<lambda>ok. ok) oks))"
proof -
  obtain wr0 w0 where 0: "PcapWriter_new plan path w = Some (wr0, w0)" "writer_inv (dom (streams w)) wr0 w0" "pw_count wr0 = 0"
    using assms by (rule writer_inv_new)
  obtain oks wr1 w1 where 1: "writer_run plan wr0 ops w0 = Some (oks, wr1, w1)" "writer_inv (dom (streams w)) wr1 w1"
    "pw_count wr1 = pw_count wr0 + of_nat (length (filter (\<lambda>ok. ok) oks))" using 0(2) by (rule writer_run_inv)
  obtain wr2 w2 where 2: "pw_close plan wr1 w1 = Some (wr2, w2)" "writer_inv (dom (streams w)) wr2 w2" "pw_file wr2 = 0"
    using 1(2) by (rule writer_inv_close)
  then show ?thesis using 0 1 by (auto simp: PcapWriter_destroy_def writer_inv_def events_written_def)
qed

lemma writer_outcome:
  assumes "stdio_ok w" "flush_works plan"
    "PcapWriter_new plan path w = Some (wr0, w0)" "pw_is_open wr0" "\<forall>i \<in> {1..4}. short_io plan (calls w + i) = None"
    "write_events plan wr0 evs w0 = Some (oks, wr1, w1)"
    "pw_close plan wr1 w1 = Some (wr2, w2)" "short_io plan (calls w1 + 1) = None"
  shows "\<exists>ks. length ks = length evs \<and> (short_io plan = (\<lambda>_. None) \<longrightarrow> ks = map (length \<circ> record_bytes) evs) \<and>
    oks = taken evs ks \<and> events_written wr2 = of_nat (length (filter (\<lambda>ok. ok) oks)) \<and> \<not> pw_is_open wr2 \<and>
    files w2 = (files w)(path \<mapsto> header_bytes (events_written wr2) @ cut_records evs ks) \<and> streams w2 = streams w"
proof -
  note new = PcapWriter_new_opened [OF assms(3,1,4,5)]
  have f0: "pw_file wr0 \<noteq> 0" using assms(4) by (simp add: pw_is_open_def)
  have "pw_file wr0 \<in> dom (streams w0)" by (simp add: new(4))
  then obtain w' ks where ev: "length ks = length evs" "write_events plan wr0 evs w0
       = Some (taken evs ks, wr0\<lparr>pw_count := pw_count wr0 + of_nat (length (filter (\<lambda>ok. ok) (taken evs ks)))\<rparr>, w')"
    "short_io plan = (\<lambda>_. None) \<longrightarrow> ks = map (length \<circ> record_bytes) evs"
    "buffered (pw_file wr0) (cut_records evs ks) w0 w'" using f0 by (rule write_events_buffered)
  have r: "oks = taken evs ks" "w1 = w'" "pw_file wr1 = pw_file wr0" "pw_count wr1 = of_nat (length (filter (\<lambda>ok. ok) (taken evs ks)))"
    using assms(6) ev(2) new(1) by auto
  have w1: "streams w1 = (streams w)(pw_file wr0 \<mapsto>
      \<lparr>st_path = path, st_pos = 0, st_pend = header_bytes 0 @ cut_records evs ks\<rparr>)" "files w1 = (files w)(path \<mapsto> [])"
    using ev(4) new(3,4) by (auto simp: buffered_def r(2))
  have c: "pw_file wr2 = 0" "pw_count wr2 = pw_count wr1"
    "files w2 = (files w1)(path \<mapsto> header_bytes (pw_count wr1) @ cut_records evs ks)"
    "streams w2 = (streams w1)(pw_file wr1 := None)"
    using assms(8) f0 by (intro pw_close_image [OF assms(7) _ assms(2)]; simp add: r(3) w1)+
  have "streams w2 = streams w" using new(2) by (auto simp: c(4) w1 r(3))
  moreover have "files w2 = (files w)(path \<mapsto> header_bytes (pw_count wr2) @ cut_records evs ks)" by (simp add: c w1(2))
  ultimately show ?thesis using ev(1,3) r c by (intro exI [of _ ks]) (simp add: events_written_def pw_is_open_def)
qed

lemma cut_records_full: "cut_records evs (map (length \<circ> record_bytes) evs) = concat (map record_bytes evs)"
  by (induction evs) (simp_all add: cut_records_def)

lemma taken_full: "taken evs (map (length \<circ> record_bytes) evs) = replicate (length evs) True"
  by (induction evs) (simp_all add: taken_def)

lemma write_capture_quiet:
  assumes "stdio_ok w"
  obtains w2 where "write_capture no_faults path evs w = Some (replicate (length evs) True, w2)"
    "files w2 = (files w)(path \<mapsto> capture_bytes evs)" "streams w2 = streams w" "stdio_ok w2"
proof -
  obtain wr0 w0 where 0: "PcapWriter_new no_faults path w = Some (wr0, w0)" "writer_inv (dom (streams w)) wr0 w0" "pw_count wr0 = 0"
    using assms by (rule writer_inv_new)
  have o: "pw_is_open wr0" using 0(1) assms
    by (auto simp: PcapWriter_new_def fopen_wb_def open_stream_def pw_is_open_def stdio_ok_def split: bind_splits)
  have "pw_file wr0 \<in> dom (streams w0)" "pw_file wr0 \<noteq> 0" using 0(2) o by (auto simp: writer_inv_def pw_is_open_def)
  then obtain w1 ks where 1: "write_events no_faults wr0 evs w0
       = Some (taken evs ks, wr0\<lparr>pw_count := pw_count wr0 + of_nat (length (filter (\<lambda>ok. ok) (taken evs ks)))\<rparr>, w1)"
    "buffered (pw_file wr0) (cut_records evs ks) w0 w1" by (rule write_events_buffered)
  define wr1 where "wr1 = wr0\<lparr>pw_count := pw_count wr0 + of_nat (length (filter (\<lambda>ok. ok) (taken evs ks)))\<rparr>"
  have "writer_inv (dom (streams w)) wr1 w1" using 0(2) buffered_ok [OF 1(2)] by (simp add: writer_inv_def wr1_def)
  then obtain wr2 w2 where 2: "pw_close no_faults wr1 w1 = Some (wr2, w2)" "writer_inv (dom (streams w)) wr2 w2"
    by (rule writer_inv_close)
  have "write_capture no_faults path evs w = Some (taken evs ks, w2)"
    by (simp add: write_capture_def 0(1) 1(1) PcapWriter_destroy_def flip: wr1_def) (simp add: 2(1))
  moreover obtain ks' where "ks' = map (length \<circ> record_bytes) evs" "taken evs ks = taken evs ks'"
    "events_written wr2 = of_nat (length (filter (\<lambda>ok. ok) (taken evs ks)))"
    "files w2 = (files w)(path \<mapsto> header_bytes (events_written wr2) @ cut_records evs ks')" "streams w2 = streams w"
    using writer_outcome [OF assms flush_works_no_faults 0(1) o _ 1(1) [folded wr1_def] 2(1)] by (auto simp: no_faults_def)
  ultimately show thesis using 2(2)
    by (intro that [of w2]) (simp_all add: taken_full cut_records_full capture_bytes_def writer_inv_def)
qed

text \<open>
  (C26) The capture file under write faults. When the header, the count patch and the flushes go through, then
  after \<open>close\<close> the file consists of the header with the number of events whose \<open>write_event\<close> returned true, followed by
  a prefix of each event's record in order; the prefix is the whole record exactly for the events reported as written. So a
  failed \<open>write_event\<close> leaves its partial record in the file and every later record is misplaced. Other files and
  all streams are as before.
\<close>

theorem pcap_writer_image:
  assumes "stdio_ok w" "flush_works plan"
    "PcapWriter_new plan path w = Some (wr0, w0)" "pw_is_open wr0" "\<forall>i \<in> {1..4}. short_io plan (calls w + i) = None"
    "write_events plan wr0 evs w0 = Some (oks, wr1, w1)"
    "pw_close plan wr1 w1 = Some (wr2, w2)" "short_io plan (calls w1 + 1) = None"
  shows "\<exists>ks. length ks = length evs \<and> oks = taken evs ks \<and>
    events_written wr2 = of_nat (length (filter (\<lambda>ok. ok) oks)) \<and>
    files w2 = (files w)(path \<mapsto> header_bytes (events_written wr2) @ cut_records evs ks) \<and> streams w2 = streams w"
  using writer_outcome [OF assms] by blast

lemma empty_stdio_ok [simp]: "stdio_ok empty_stdio"
  by (simp add: stdio_ok_def empty_stdio_def)

theorem pcap_writer_safe_witness:
  "stdio_ok empty_stdio \<and> (\<exists>wr0 w0 oks wr1 w1 w2. PcapWriter_new short_plan ''c'' empty_stdio = Some (wr0, w0) \<and>
    writer_run short_plan wr0 [Write FeedEvent_new, Close_writer, Close_writer, Write FeedEvent_new] w0 = Some (oks, wr1, w1) \<and>
    PcapWriter_destroy short_plan wr1 w1 = Some w2 \<and>
    dom (streams w2) = dom (streams empty_stdio) \<and> events_written wr1 = of_nat (length (filter (\<lambda>ok. ok) oks)))"
  using pcap_writer_safe [OF empty_stdio_ok, of short_plan "''c''" "[Write FeedEvent_new, Close_writer, Close_writer, Write FeedEvent_new]"]
  by simp

theorem pcap_writer_image_witness:
  "\<exists>wr0 w0 wr1 w1 wr2 w2 ks. PcapWriter_new short_plan ''c'' empty_stdio = Some (wr0, w0) \<and>
    write_events short_plan wr0 [FeedEvent_new, FeedEvent_new] w0 = Some ([False, True], wr1, w1) \<and>
    pw_close short_plan wr1 w1 = Some (wr2, w2) \<and> [False, True] = taken [FeedEvent_new, FeedEvent_new] ks \<and>
    files w2 = (files empty_stdio)(''c'' \<mapsto> header_bytes (events_written wr2) @ cut_records [FeedEvent_new, FeedEvent_new] ks)"
proof -
  let ?evs = "[FeedEvent_new, FeedEvent_new]"
  define res where "res = (do { (wr0, w0) \<leftarrow> PcapWriter_new short_plan ''c'' empty_stdio;
    (oks, wr1, w1) \<leftarrow> write_events short_plan wr0 ?evs w0; (wr2, w2) \<leftarrow> pw_close short_plan wr1 w1;
    Some (wr0, w0, oks, wr1, w1, wr2, w2) })"
  have r: "map_option (\<lambda>(wr0, w0, oks, wr1, w1, wr2, w2). (pw_is_open wr0, oks, calls w1)) res = Some (True, [False, True], 13)"
    unfolding res_def by code_simp
  then obtain wr0 w0 wr1 w1 wr2 w2 where w: "PcapWriter_new short_plan ''c'' empty_stdio = Some (wr0, w0)" "pw_is_open wr0"
    "write_events short_plan wr0 ?evs w0 = Some ([False, True], wr1, w1)" "pw_close short_plan wr1 w1 = Some (wr2, w2)" "calls w1 = 13"
    by (auto simp: res_def split: bind_splits)
  have "\<forall>i \<in> {1..4}. short_io short_plan (calls empty_stdio + i) = None" "short_io short_plan (calls w1 + 1) = None" "flush_works short_plan"
    by (simp_all add: short_plan_def empty_stdio_def w(5) flush_works_def no_faults_def)
  from pcap_writer_image [OF empty_stdio_ok this(3) w(1,2) this(1) w(3,4) this(2)] w show ?thesis by blast
qed

end
