(* ===== verification/Pcap_Reader.thy ===== *)
theory Pcap_Reader
  imports Pcap_Writer
begin

text \<open>
  \<open>PcapReader\<close> of \<open>include/ultrafast/pcap_reader.hpp\<close> without the timed replay: \<open>open\<close>, \<open>next\<close>,
  \<open>rewind\<close>, \<open>close\<close> over the streams of \<open>Stdio\<close>. What a file of any bytes means to the reader is
  \<open>capture_event\<close>.
\<close>

section \<open>State and operations\<close>

record PcapReader =
  pr_file :: FILE
  total_events :: u64
  events_read :: u64

definition PcapReader_new :: PcapReader where
  "PcapReader_new = \<lparr>pr_file = 0, total_events = 0, events_read = 0\<rparr>"

definition pr_is_open :: "PcapReader \<Rightarrow> bool" where
  "pr_is_open r \<longleftrightarrow> pr_file r \<noteq> 0"

text \<open>A disjunction of \<open>fread(...) != 1\<close> tests: the items read, None as soon as one is incomplete.\<close>

fun read_items :: "io_plan \<Rightarrow> FILE \<Rightarrow> nat list \<Rightarrow> stdio \<Rightarrow> (bytes list option \<times> stdio) option" where
  "read_items plan f [] w = Some (Some [], w)"
| "read_items plan f (n # ns) w =
     do {
       (item, w1) \<leftarrow> fread plan w f n;
       (case item of
          None \<Rightarrow> Some (None, w1)
        | Some bs \<Rightarrow> do { (rest, w2) \<leftarrow> read_items plan f ns w1; Some (map_option ((#) bs) rest, w2) })
     }"

definition pr_close :: "io_plan \<Rightarrow> PcapReader \<Rightarrow> stdio \<Rightarrow> (PcapReader \<times> stdio) option" where
  "pr_close plan r w =
     (if pr_file r \<noteq> 0
      then do { (_, w1) \<leftarrow> fclose plan w (pr_file r); Some (\<lparr>pr_file = 0, total_events = 0, events_read = 0\<rparr>, w1) }
      else Some (r\<lparr>total_events := 0, events_read := 0\<rparr>, w))"

definition PcapReader_destroy :: "io_plan \<Rightarrow> PcapReader \<Rightarrow> stdio \<Rightarrow> stdio option" where
  "PcapReader_destroy plan r w = map_option snd (pr_close plan r w)"

definition pr_open :: "io_plan \<Rightarrow> PcapReader \<Rightarrow> string \<Rightarrow> stdio \<Rightarrow> (bool \<times> PcapReader \<times> stdio) option" where
  "pr_open plan r path w =
     (let (f, w1) = fopen_rb plan w path; r1 = r\<lparr>pr_file := f\<rparr>
      in if f = 0 then Some (False, r1, w1)
         else do {
           (items, w2) \<leftarrow> read_items plan f [8, 4, 4, 8] w1;
           (case items of
              Some [magic, version, pad, count] \<Rightarrow>
                if le_word magic \<noteq> kMagic \<or> le_word version \<noteq> kVersion
                then do { (r2, w3) \<leftarrow> pr_close plan r1 w2; Some (False, r2, w3) }
                else Some (True, r1\<lparr>total_events := le_word count, events_read := 0\<rparr>, w2)
            | _ \<Rightarrow> do { (r2, w3) \<leftarrow> pr_close plan r1 w2; Some (False, r2, w3) })
         })"

definition pr_next :: "io_plan \<Rightarrow> PcapReader \<Rightarrow> stdio \<Rightarrow> (FeedEvent option \<times> PcapReader \<times> stdio) option" where
  "pr_next plan r w =
     (if pr_file r = 0 \<or> events_read r \<ge> total_events r then Some (None, r, w)
      else do {
        (items, w1) \<leftarrow> read_items plan (pr_file r) [8, 8, 2, 6, unat kMaxPayload] w;
        (case items of
           Some [ts_in, ts_rx, plen, pad, body] \<Rightarrow>
             Some (Some (FeedEvent_new\<lparr>inject_ns := le_word ts_in, receive_ns := le_word ts_rx,
                          payload_len := le_word plen, payload := body\<rparr>),
                   r\<lparr>events_read := events_read r + 1\<rparr>, w1)
         | _ \<Rightarrow> Some (None, r, w1))
      })"

definition pr_rewind :: "io_plan \<Rightarrow> PcapReader \<Rightarrow> stdio \<Rightarrow> (bool \<times> PcapReader \<times> stdio) option" where
  "pr_rewind plan r w =
     (if pr_file r = 0 then Some (False, r, w)
      else do {
        (ok, w1) \<leftarrow> fseek plan w (pr_file r) (kCountOffset + 8);
        Some (ok, r\<lparr>events_read := 0\<rparr>, w1)
      })"

section \<open>Meaning of a file\<close>

fun pieces :: "nat list \<Rightarrow> bytes \<Rightarrow> bytes list" where
  "pieces [] bs = []"
| "pieces (n # ns) bs = take n bs # pieces ns (drop n bs)"

definition valid_header :: "bytes \<Rightarrow> bool" where
  "valid_header c \<longleftrightarrow> 24 \<le> length c \<and> le_word (take 8 c) = kMagic \<and> le_word (take 4 (drop 8 c)) = kVersion"

definition capture_count :: "bytes \<Rightarrow> u64" where
  "capture_count c = le_word (take 8 (drop 16 c))"

definition decode_record :: "bytes \<Rightarrow> FeedEvent" where
  "decode_record bs = FeedEvent_new\<lparr>inject_ns := le_word (take 8 bs), receive_ns := le_word (take 8 (drop 8 bs)),
     payload_len := le_word (take 2 (drop 16 bs)), payload := take 64 (drop 24 bs)\<rparr>"

text \<open>The number of events the reader delivers: what the header declares, but no more than the file holds.\<close>

definition capture_len :: "bytes \<Rightarrow> nat" where
  "capture_len c = min (unat (capture_count c)) ((length c - 24) div kRecordSize)"

definition capture_event :: "bytes \<Rightarrow> nat \<Rightarrow> FeedEvent option" where
  "capture_event c i = (if i < capture_len c then Some (decode_record (drop (24 + kRecordSize * i) c)) else None)"

text \<open>What a record keeps of an event: the address and the ports are not stored.\<close>

definition recorded :: "FeedEvent \<Rightarrow> FeedEvent" where
  "recorded ev = FeedEvent_new\<lparr>inject_ns := inject_ns ev, receive_ns := receive_ns ev,
     payload_len := payload_len ev, payload := payload ev\<rparr>"

text \<open>\<open>k\<close> calls of \<open>next\<close>.\<close>

fun read_calls :: "io_plan \<Rightarrow> nat \<Rightarrow> PcapReader \<Rightarrow> stdio \<Rightarrow> (FeedEvent option list \<times> PcapReader \<times> stdio) option" where
  "read_calls plan 0 r w = Some ([], r, w)"
| "read_calls plan (Suc k) r w =
     do {
       (e, r1, w1) \<leftarrow> pr_next plan r w;
       (es, r2, w2) \<leftarrow> read_calls plan k r1 w1;
       Some (e # es, r2, w2)
     }"

text \<open>The reader is open on the file with bytes \<open>c\<close>, at position \<open>p\<close>, and \<open>F\<close> are the other open streams.\<close>

definition reading :: "bytes \<Rightarrow> nat \<Rightarrow> (FILE \<Rightarrow> stream option) \<Rightarrow> PcapReader \<Rightarrow> stdio \<Rightarrow> bool" where
  "reading c p F r w \<longleftrightarrow>
     pr_file r \<noteq> 0 \<and> p \<le> length c \<and> F (pr_file r) = None \<and>
     (\<exists>path. files w path = Some c \<and> streams w = F(pr_file r \<mapsto> \<lparr>st_path = path, st_pos = p, st_pend = []\<rparr>))"

text \<open>
  What a client may do with a reader. \<open>reader_run\<close> also lists the streams that \<open>open\<close> forgets: it
  overwrites \<open>file_\<close> without closing the stream that is there.
\<close>

datatype reader_op = Open string | Next | Rewind | Close_reader

definition lost_by :: "reader_op \<Rightarrow> PcapReader \<Rightarrow> FILE list" where
  "lost_by a r = (case a of Open path \<Rightarrow> if pr_is_open r then [pr_file r] else [] | _ \<Rightarrow> [])"

fun reader_step :: "io_plan \<Rightarrow> reader_op \<Rightarrow> PcapReader \<Rightarrow> stdio \<Rightarrow> (PcapReader \<times> stdio) option" where
  "reader_step plan (Open path) r w = map_option snd (pr_open plan r path w)"
| "reader_step plan Next r w = map_option snd (pr_next plan r w)"
| "reader_step plan Rewind r w = map_option snd (pr_rewind plan r w)"
| "reader_step plan Close_reader r w = pr_close plan r w"

fun reader_run :: "io_plan \<Rightarrow> reader_op list \<Rightarrow> PcapReader \<Rightarrow> stdio \<Rightarrow> (FILE list \<times> PcapReader \<times> stdio) option" where
  "reader_run plan [] r w = Some ([], r, w)"
| "reader_run plan (a # ops) r w =
     do {
       (r1, w1) \<leftarrow> reader_step plan a r w;
       (lost, r2, w2) \<leftarrow> reader_run plan ops r1 w1;
       Some (lost_by a r @ lost, r2, w2)
     }"

text \<open>The reader is closed, or its stream is open and is the only one besides \<open>F\<close>.\<close>

definition reader_inv :: "FILE set \<Rightarrow> PcapReader \<Rightarrow> stdio \<Rightarrow> bool" where
  "reader_inv F r w \<longleftrightarrow> stdio_ok w \<and> 0 \<notin> F \<and> pr_file r \<notin> F \<and>
     dom (streams w) = (if pr_file r = 0 then F else insert (pr_file r) F)"

text \<open>A world with a capture of one event and a second file that is no capture.\<close>

definition demo_event :: FeedEvent where
  "demo_event = FeedEvent_new\<lparr>inject_ns := 7, receive_ns := 9, src_port := 5, payload_len := 64\<rparr>"

definition demo_stdio :: stdio where
  "demo_stdio = empty_stdio\<lparr>files := [''cap'' \<mapsto> capture_bytes [demo_event], ''txt'' \<mapsto> [1, 2, 3]]\<rparr>"

section \<open>Reading items\<close>

lemma fread_length: "fread plan w f n = Some (Some bs, w') \<Longrightarrow> length bs = n"
  by (auto simp: fread_def Let_def split: option.splits if_splits)

lemma read_items_lengths: "read_items plan f ns w = Some (Some items, w') \<Longrightarrow> map length items = ns"
proof (induction ns arbitrary: items w)
  case (Cons n ns)
  then obtain bs w1 rest where "fread plan w f n = Some (Some bs, w1)" "read_items plan f ns w1 = Some (Some rest, w')" "items = bs # rest"
    by (auto split: bind_splits option.splits)
  then show ?case using Cons.IH fread_length by simp
qed simp

lemma pr_next_ok:
  assumes "pr_next plan r w = Some (Some ev, r', w')"
  shows "event_ok ev"
proof -
  obtain ts_in ts_rx plen pad body w1 where "read_items plan (pr_file r) [8, 8, 2, 6, unat kMaxPayload] w = Some (Some [ts_in, ts_rx, plen, pad, body], w1)"
    "payload ev = body" "ev_pad ev = ev_pad FeedEvent_new"
    using assms by (auto simp: pr_next_def split: if_splits bind_splits option.splits list.splits)
  then show ?thesis using read_items_lengths by (fastforce simp: event_ok_def FeedEvent_new_def)
qed

lemma fread_quiet [stdio_simps]:
  "streams w f = Some s \<Longrightarrow> fread no_faults w f n =
     (let got = take n (drop (st_pos s) (content w (st_path s)))
      in Some (if length got = n then Some got else None,
           w\<lparr>streams := (streams w)(f \<mapsto> s\<lparr>st_pos := st_pos s + length got\<rparr>), calls := Suc (calls w)\<rparr>))"
  by (simp add: fread_def Let_def tick_def)

lemma read_items_quiet:
  assumes "streams w f = Some s" "content w (st_path s) = c" "st_pos s \<le> length c"
  obtains w' where "read_items no_faults f ns w =
      Some (if st_pos s + sum_list ns \<le> length c then Some (pieces ns (drop (st_pos s) c)) else None, w')"
    "files w' = files w" "next_file w' = next_file w"
    "streams w' = (streams w)(f \<mapsto> s\<lparr>st_pos := min (st_pos s + sum_list ns) (length c)\<rparr>)"
  using assms
proof (induction ns arbitrary: w s thesis)
  case Nil
  have "(streams w)(f \<mapsto> s) = streams w" using Nil.prems(2) by (rule fun_upd_idem)
  then show ?case using Nil.prems(4) by (intro Nil.prems(1) [of w]) simp_all
next
  case (Cons n ns)
  let ?got = "take n (drop (st_pos s) c)" and ?s = "s\<lparr>st_pos := st_pos s + length (take n (drop (st_pos s) c))\<rparr>"
  let ?w = "w\<lparr>streams := (streams w)(f \<mapsto> ?s), calls := Suc (calls w)\<rparr>"
  have r: "fread no_faults w f n = Some (if length ?got = n then Some ?got else None, ?w)"
    using Cons.prems(2,3) by (simp add: stdio_simps Let_def)
  show ?case
  proof (cases "length ?got = n")
    case True
    then have n: "st_pos s + n \<le> length c" using Cons.prems(4) by (simp add: min_def split: if_splits)
    have "streams ?w f = Some ?s" "content ?w (st_path ?s) = c" "st_pos ?s \<le> length c"
      using Cons.prems n by (simp_all add: content_def True)
    then obtain w' where w': "read_items no_faults f ns ?w =
        Some (if st_pos ?s + sum_list ns \<le> length c then Some (pieces ns (drop (st_pos ?s) c)) else None, w')"
      "files w' = files ?w" "next_file w' = next_file ?w"
      "streams w' = (streams ?w)(f \<mapsto> ?s\<lparr>st_pos := min (st_pos ?s + sum_list ns) (length c)\<rparr>)"
      by (rule Cons.IH [rotated])
    show ?thesis using w' True by (intro Cons.prems(1) [of w']) (simp_all add: r drop_drop ac_simps)
  next
    case False
    then have "\<not> st_pos s + n \<le> length c" by (auto simp: min_def split: if_splits)
    moreover from this have "st_pos s + length ?got = length c" using Cons.prems(4) by (simp add: min_def)
    ultimately show ?thesis using False by (intro Cons.prems(1) [of ?w]) (simp_all add: r min_def)
  qed
qed

lemma pr_next_event:
  assumes "reading c p F r w" "events_read r < total_events r" "p + kRecordSize \<le> length c"
  obtains w' where "pr_next no_faults r w = Some (Some (decode_record (drop p c)), r\<lparr>events_read := events_read r + 1\<rparr>, w')"
    "reading c (p + kRecordSize) F (r\<lparr>events_read := events_read r + 1\<rparr>) w'"
proof -
  obtain path where path: "files w path = Some c" "streams w = F(pr_file r \<mapsto> \<lparr>st_path = path, st_pos = p, st_pend = []\<rparr>)"
    and r: "pr_file r \<noteq> 0" "p \<le> length c" "F (pr_file r) = None" using assms(1) by (auto simp: reading_def)
  let ?s = "\<lparr>st_path = path, st_pos = p, st_pend = []\<rparr>"
  have "streams w (pr_file r) = Some ?s" "content w (st_path ?s) = c" "st_pos ?s \<le> length c"
    using path r by (simp_all add: content_def)
  then obtain w' where w': "read_items no_faults (pr_file r) [8, 8, 2, 6, 64] w =
      Some (if st_pos ?s + sum_list [8, 8, 2, 6, 64] \<le> length c then Some (pieces [8, 8, 2, 6, 64] (drop (st_pos ?s) c)) else None, w')"
    "files w' = files w" "streams w' = (streams w)(pr_file r \<mapsto> ?s\<lparr>st_pos := min (st_pos ?s + sum_list [8, 8, 2, 6, 64]) (length c)\<rparr>)"
    by (rule read_items_quiet)
  have "pr_next no_faults r w = Some (Some (decode_record (drop p c)), r\<lparr>events_read := events_read r + 1\<rparr>, w')"
    using assms(2,3) r(1) w'(1) by (simp add: pr_next_def decode_record_def kRecordSize_def add.commute)
  moreover have "reading c (p + kRecordSize) F (r\<lparr>events_read := events_read r + 1\<rparr>) w'"
    using assms(3) r path w'(2,3) by (auto simp: reading_def kRecordSize_def)
  ultimately show thesis by (rule that)
qed

lemma pr_next_end:
  assumes "reading c p F r w" "total_events r \<le> events_read r \<or> length c < p + kRecordSize"
  obtains w' p' where "pr_next no_faults r w = Some (None, r, w')" "reading c p' F r w'" "p \<le> p'"
proof (cases "total_events r \<le> events_read r")
  case True
  then have "pr_next no_faults r w = Some (None, r, w)" by (simp add: pr_next_def)
  then show thesis using assms(1) order_refl by (rule that)
next
  case False
  obtain path where path: "files w path = Some c" "streams w = F(pr_file r \<mapsto> \<lparr>st_path = path, st_pos = p, st_pend = []\<rparr>)"
    and r: "pr_file r \<noteq> 0" "p \<le> length c" "F (pr_file r) = None" using assms(1) by (auto simp: reading_def)
  let ?s = "\<lparr>st_path = path, st_pos = p, st_pend = []\<rparr>"
  have "streams w (pr_file r) = Some ?s" "content w (st_path ?s) = c" "st_pos ?s \<le> length c"
    using path r by (simp_all add: content_def)
  then obtain w' where w': "read_items no_faults (pr_file r) [8, 8, 2, 6, 64] w =
      Some (if st_pos ?s + sum_list [8, 8, 2, 6, 64] \<le> length c then Some (pieces [8, 8, 2, 6, 64] (drop (st_pos ?s) c)) else None, w')"
    "files w' = files w" "streams w' = (streams w)(pr_file r \<mapsto> ?s\<lparr>st_pos := min (st_pos ?s + sum_list [8, 8, 2, 6, 64]) (length c)\<rparr>)"
    by (rule read_items_quiet)
  have "pr_next no_faults r w = Some (None, r, w')"
    using assms(2) False r(1) w'(1) by (simp add: pr_next_def kRecordSize_def add.commute)
  moreover have "reading c (min (p + 88) (length c)) F r w'" using r path w'(2,3) by (auto simp: reading_def)
  ultimately show thesis using r(2) by (intro that [of w' "min (p + 88) (length c)"]) simp_all
qed

lemma read_calls_end:
  assumes "reading c p F r w" "total_events r \<le> events_read r \<or> length c < p + kRecordSize"
  obtains w' p' where "read_calls no_faults k r w = Some (replicate k None, r, w')" "reading c p' F r w'"
  using assms
proof (induction k arbitrary: w p thesis)
  case 0
  then show ?case by simp
next
  case (Suc k)
  obtain w1 p1 where 1: "pr_next no_faults r w = Some (None, r, w1)" "reading c p1 F r w1" "p \<le> p1"
    using Suc.prems(2,3) by (rule pr_next_end)
  have "total_events r \<le> events_read r \<or> length c < p1 + kRecordSize" using Suc.prems(3) 1(3) by auto
  then obtain w2 p2 where 2: "read_calls no_faults k r w1 = Some (replicate k None, r, w2)" "reading c p2 F r w2"
    by (rule Suc.IH [OF _ 1(2), rotated])
  show ?case using 2 by (intro Suc.prems(1) [of w2 p2]) (simp_all add: 1(1))
qed

lemma read_calls_events:
  assumes "reading c (24 + kRecordSize * j) F r w" "events_read r = of_nat j" "total_events r = capture_count c" "j \<le> capture_len c"
  obtains r' w' p' where "read_calls no_faults k r w = Some (map (capture_event c) [j..<j + k], r', w')"
    "reading c p' F r' w'" "total_events r' = capture_count c"
  using assms
proof (induction k arbitrary: j r w thesis)
  case 0
  then show ?case by simp
next
  case (Suc k)
  have total: "capture_len c \<le> unat (capture_count c)" by (simp add: capture_len_def)
  have "unat (capture_count c) < 2 ^ LENGTH(64)" by (rule unsigned_less)
  then have j: "unat (events_read r) = j" using Suc.prems(3,5) total by (simp add: unat_of_nat take_bit_nat_eq_self)
  show ?case
  proof (cases "j < capture_len c")
    case True
    have lt: "events_read r < total_events r" using True total j by (simp add: word_less_nat_alt Suc.prems(4))
    have "Suc j \<le> (length c - 24) div kRecordSize" using True by (simp add: capture_len_def)
    then have "Suc j * kRecordSize \<le> (length c - 24) div kRecordSize * kRecordSize" by (rule mult_le_mono1)
    also have "\<dots> \<le> length c - 24" by (rule div_times_less_eq_dividend)
    finally have fits: "24 + kRecordSize * j + kRecordSize \<le> length c" by (simp add: kRecordSize_def)
    obtain w1 where 1: "pr_next no_faults r w = Some (Some (decode_record (drop (24 + kRecordSize * j) c)), r\<lparr>events_read := events_read r + 1\<rparr>, w1)"
      "reading c (24 + kRecordSize * j + kRecordSize) F (r\<lparr>events_read := events_read r + 1\<rparr>) w1"
      by (rule pr_next_event [OF Suc.prems(2) lt fits])
    let ?r = "r\<lparr>events_read := events_read r + 1\<rparr>"
    have "reading c (24 + kRecordSize * Suc j) F ?r w1" "events_read ?r = of_nat (Suc j)" "total_events ?r = capture_count c" "Suc j \<le> capture_len c"
      using 1(2) Suc.prems(3,4) True by (simp_all add: algebra_simps)
    then obtain r' w' p' where 2: "read_calls no_faults k ?r w1 = Some (map (capture_event c) [Suc j..<Suc j + k], r', w')"
      "reading c p' F r' w'" "total_events r' = capture_count c" by (rule Suc.IH [rotated])
    have "capture_event c j = Some (decode_record (drop (24 + kRecordSize * j) c))" by (simp add: capture_event_def True)
    then show ?thesis using 2 by (intro Suc.prems(1) [of r' w' p']) (simp_all add: 1(1) upt_conv_Cons del: upt_Suc)
  next
    case False
    then have "total_events r \<le> events_read r \<or> length c < 24 + kRecordSize * j + kRecordSize"
      using Suc.prems(5) j by (auto simp: capture_len_def kRecordSize_def word_le_nat_alt Suc.prems(4) min_def split: if_splits)
    then obtain w' p' where 1: "read_calls no_faults (Suc k) r w = Some (replicate (Suc k) None, r, w')" "reading c p' F r w'"
      by (rule read_calls_end [OF Suc.prems(2)])
    have "map (capture_event c) [j..<j + Suc k] = replicate (Suc k) None"
      using False by (intro nth_equalityI) (simp_all add: capture_event_def del: upt_Suc replicate_Suc)
    then show ?thesis using 1 Suc.prems(4) by (intro Suc.prems(1) [of r w' p']) (simp_all del: read_calls.simps)
  qed
qed

section \<open>Open, rewind, close\<close>

lemma pr_close_reading:
  assumes "reading c p F r w"
  obtains w' where "pr_close no_faults r w = Some (PcapReader_new, w')" "streams w' = F"
proof -
  obtain path where "streams w = F(pr_file r \<mapsto> \<lparr>st_path = path, st_pos = p, st_pend = []\<rparr>)"
    and r: "pr_file r \<noteq> 0" "F (pr_file r) = None" using assms by (auto simp: reading_def)
  then have "pr_close no_faults r w = Some (PcapReader_new, w\<lparr>streams := F, calls := Suc (calls w)\<rparr>)"
    by (simp add: pr_close_def stdio_simps PcapReader_new_def fun_upd_idem)
  then show thesis by (rule that) simp
qed

lemma pr_rewind_reading:
  assumes "reading c p F r w" "24 \<le> length c"
  obtains w' where "pr_rewind no_faults r w = Some (True, r\<lparr>events_read := 0\<rparr>, w')" "reading c 24 F (r\<lparr>events_read := 0\<rparr>) w'"
proof -
  obtain path where path: "files w path = Some c" "streams w = F(pr_file r \<mapsto> \<lparr>st_path = path, st_pos = p, st_pend = []\<rparr>)"
    and r: "pr_file r \<noteq> 0" "F (pr_file r) = None" using assms(1) by (auto simp: reading_def)
  let ?w = "w\<lparr>streams := F(pr_file r \<mapsto> \<lparr>st_path = path, st_pos = 24, st_pend = []\<rparr>), calls := Suc (calls w)\<rparr>"
  have "pr_rewind no_faults r w = Some (True, r\<lparr>events_read := 0\<rparr>, ?w)"
    using path r by (simp add: pr_rewind_def stdio_simps kCountOffset_def)
  moreover have "reading c 24 F (r\<lparr>events_read := 0\<rparr>) ?w" using path r assms(2) by (auto simp: reading_def)
  ultimately show thesis by (rule that)
qed

lemma pr_open_spec:
  assumes "stdio_ok w" "files w path = Some c"
  obtains r' w' where "pr_open no_faults r path w = Some (valid_header c, r', w')"
    "if valid_header c then reading c 24 (streams w) r' w' \<and> events_read r' = 0 \<and> total_events r' = capture_count c
     else r' = PcapReader_new \<and> streams w' = streams w"
proof -
  define f where "f = next_file w"
  have f: "f \<noteq> 0" "streams w f = None" using assms(1) stdio_ok_fresh [OF assms(1)] by (auto simp: f_def stdio_ok_def)
  let ?s = "\<lparr>st_path = path, st_pos = 0, st_pend = []\<rparr>"
  obtain w1 where w1: "fopen_rb no_faults w path = (f, w1)" "files w1 = files w" "streams w1 = (streams w)(f \<mapsto> ?s)"
    by (simp add: fopen_rb_def open_stream_def assms(2) f_def)
  have "streams w1 f = Some ?s" "content w1 (st_path ?s) = c" "st_pos ?s \<le> length c"
    by (simp_all add: w1 content_def assms(2))
  then obtain w2 where w2: "read_items no_faults f [8, 4, 4, 8] w1 =
      Some (if st_pos ?s + sum_list [8, 4, 4, 8] \<le> length c then Some (pieces [8, 4, 4, 8] (drop (st_pos ?s) c)) else None, w2)"
    "files w2 = files w1" "streams w2 = (streams w1)(f \<mapsto> ?s\<lparr>st_pos := min (st_pos ?s + sum_list [8, 4, 4, 8]) (length c)\<rparr>)"
    by (rule read_items_quiet)
  have items: "read_items no_faults f [8, 4, 4, 8] w1 = Some (if 24 \<le> length c
      then Some [take 8 c, take 4 (drop 8 c), take 4 (drop 12 c), take 8 (drop 16 c)] else None, w2)"
    using w2(1) by (simp del: read_items.simps)
  have rd: "reading c (min 24 (length c)) (streams w) (r\<lparr>pr_file := f\<rparr>) w2"
    using f assms(2) w1 w2(2,3) by (auto simp: reading_def)
  then obtain w3 where w3: "pr_close no_faults (r\<lparr>pr_file := f\<rparr>) w2 = Some (PcapReader_new, w3)" "streams w3 = streams w"
    by (rule pr_close_reading)
  show thesis
  proof (cases "valid_header c")
    case True
    let ?r = "r\<lparr>pr_file := f, total_events := capture_count c, events_read := 0\<rparr>"
    have "pr_open no_faults r path w = Some (True, ?r, w2)" using True f(1)
      by (simp add: pr_open_def w1(1) Let_def valid_header_def capture_count_def items del: read_items.simps)
    moreover have "reading c 24 (streams w) ?r w2" using rd True by (simp add: reading_def valid_header_def min_def)
    ultimately show thesis using True by (intro that [of ?r w2]) simp_all
  next
    case False
    have "pr_open no_faults r path w = Some (False, PcapReader_new, w3)" using False f(1)
      by (auto simp: pr_open_def w1(1) Let_def valid_header_def w3(1) items simp del: read_items.simps)
    then show thesis using False w3(2) by (intro that [of PcapReader_new w3]) simp_all
  qed
qed

section \<open>Properties\<close>

text \<open>
  (C28) The reader decodes a file of any bytes. \<open>open\<close> succeeds exactly on a file with a complete header, the magic
  number and version 1; otherwise the reader is closed again and no stream stays open. After it,
  the i-th call of \<open>next\<close> delivers the i-th 88-byte record, up to the declared count or the last complete
  record, and nothing after that; \<open>rewind\<close> starts again from the first record; destroying the reader closes its stream.
\<close>

theorem pcap_reader_decodes:
  assumes "stdio_ok w" "files w path = Some c"
  shows "\<exists>r1 w1. pr_open no_faults r path w = Some (valid_header c, r1, w1) \<and>
    (if valid_header c then total_events r1 = capture_count c \<and>
       (\<exists>r2 w2 r3 w3 r4 w4 w5. read_calls no_faults k r1 w1 = Some (map (capture_event c) [0..<k], r2, w2) \<and>
          pr_rewind no_faults r2 w2 = Some (True, r3, w3) \<and>
          read_calls no_faults k' r3 w3 = Some (map (capture_event c) [0..<k'], r4, w4) \<and>
          PcapReader_destroy no_faults r4 w4 = Some w5 \<and> streams w5 = streams w)
     else r1 = PcapReader_new \<and> streams w1 = streams w)"
proof -
  obtain r1 w1 where o: "pr_open no_faults r path w = Some (valid_header c, r1, w1)"
    "if valid_header c then reading c 24 (streams w) r1 w1 \<and> events_read r1 = 0 \<and> total_events r1 = capture_count c
     else r1 = PcapReader_new \<and> streams w1 = streams w" using assms by (rule pr_open_spec)
  show ?thesis
  proof (cases "valid_header c")
    case True
    then have 1: "reading c (24 + kRecordSize * 0) (streams w) r1 w1" "events_read r1 = of_nat 0" "total_events r1 = capture_count c"
      and len: "24 \<le> length c" using o(2) by (simp_all add: valid_header_def)
    obtain r2 w2 p where 2: "read_calls no_faults k r1 w1 = Some (map (capture_event c) [0..<0 + k], r2, w2)"
      "reading c p (streams w) r2 w2" "total_events r2 = capture_count c" using 1 le0 by (rule read_calls_events)
    obtain w3 where 3: "pr_rewind no_faults r2 w2 = Some (True, r2\<lparr>events_read := 0\<rparr>, w3)"
      "reading c 24 (streams w) (r2\<lparr>events_read := 0\<rparr>) w3" using 2(2) len by (rule pr_rewind_reading)
    have "reading c (24 + kRecordSize * 0) (streams w) (r2\<lparr>events_read := 0\<rparr>) w3" "events_read (r2\<lparr>events_read := 0\<rparr>) = of_nat 0"
      "total_events (r2\<lparr>events_read := 0\<rparr>) = capture_count c" using 2(3) 3(2) by simp_all
    then obtain r4 w4 p' where 4: "read_calls no_faults k' (r2\<lparr>events_read := 0\<rparr>) w3 = Some (map (capture_event c) [0..<0 + k'], r4, w4)"
      "reading c p' (streams w) r4 w4" using le0 by (rule read_calls_events)
    obtain w5 where "pr_close no_faults r4 w4 = Some (PcapReader_new, w5)" "streams w5 = streams w" using 4(2) by (rule pr_close_reading)
    then show ?thesis using o(1) True 1(3) 2(1) 3(1) 4(1) by (auto simp: PcapReader_destroy_def)
  next
    case False
    then show ?thesis using o by auto
  qed
qed

lemma decode_record_bytes: "event_ok ev \<Longrightarrow> decode_record (record_bytes ev @ bs) = recorded ev"
  by (simp add: decode_record_def record_bytes_def recorded_def event_ok_def)

lemma drop_records:
  "\<forall>ev \<in> set evs. event_ok ev \<Longrightarrow> i \<le> length evs \<Longrightarrow>
     drop (kRecordSize * i) (concat (map record_bytes evs)) = concat (map record_bytes (drop i evs))"
proof (induction evs arbitrary: i)
  case (Cons ev evs)
  then show ?case by (cases i) (simp_all add: algebra_simps)
qed simp

lemma length_records: "\<forall>ev \<in> set evs. event_ok ev \<Longrightarrow> length (concat (map record_bytes evs)) = kRecordSize * length evs"
  by (induction evs) simp_all

lemma header_fields:
  "take 8 (header_bytes n @ bs) = le_bytes 8 kMagic" "take 4 (drop 8 (header_bytes n @ bs)) = le_bytes 4 kVersion"
  "take 8 (drop 16 (header_bytes n @ bs)) = le_bytes 8 n" "drop 24 (header_bytes n @ bs) = bs"
  by (simp_all add: header_bytes_def)

lemma valid_header_bytes [simp]: "valid_header (header_bytes n @ bs)"
  unfolding valid_header_def header_fields by simp

lemma capture_count_header [simp]: "capture_count (header_bytes n @ bs) = n"
  unfolding capture_count_def header_fields by simp

lemma capture_event_capture:
  assumes "\<forall>ev \<in> set evs. event_ok ev" "length evs < 2 ^ 64"
  shows "capture_event (capture_bytes evs) i = (if i < length evs then Some (recorded (evs ! i)) else None)"
proof -
  have len: "capture_len (capture_bytes evs) = length evs" using assms
    by (simp add: capture_len_def capture_bytes_def length_records kRecordSize_def unat_of_nat take_bit_nat_eq_self)
  show ?thesis
  proof (cases "i < length evs")
    case True
    have "drop (24 + kRecordSize * i) (capture_bytes evs) = drop (kRecordSize * i) (drop 24 (capture_bytes evs))"
      by (simp add: drop_drop add.commute)
    also have "\<dots> = drop (kRecordSize * i) (concat (map record_bytes evs))" unfolding capture_bytes_def header_fields(4) ..
    also have "\<dots> = record_bytes (evs ! i) @ concat (map record_bytes (drop (Suc i) evs))"
      using assms(1) True by (simp add: drop_records Cons_nth_drop_Suc [symmetric])
    finally have d: "drop (24 + kRecordSize * i) (capture_bytes evs) = record_bytes (evs ! i) @ concat (map record_bytes (drop (Suc i) evs))" .
    show ?thesis unfolding capture_event_def len d using assms(1) True by (simp add: decode_record_bytes)
  qed (simp add: capture_event_def len)
qed

text \<open>A capture can make \<open>next\<close> return any \<open>payload_len\<close>.\<close>

lemma pr_next_any_length:
  "\<exists>w r1 w1 ev r2 w2. stdio_ok w \<and> pr_open no_faults PcapReader_new ''cap'' w = Some (True, r1, w1) \<and>
     pr_next no_faults r1 w1 = Some (Some ev, r2, w2) \<and> payload_len ev = n"
proof -
  let ?e = "FeedEvent_new\<lparr>payload_len := n\<rparr>" let ?c = "capture_bytes [?e]" let ?w = "empty_stdio\<lparr>files := [''cap'' \<mapsto> ?c]\<rparr>"
  have c: "valid_header ?c" "capture_count ?c = 1" by (simp_all add: capture_bytes_def)
  have ev: "capture_event ?c 0 = Some (recorded ?e)" using capture_event_capture [of "[?e]" 0] by (simp add: event_ok_def FeedEvent_new_def)
  then have d: "decode_record (drop 24 ?c) = recorded ?e" "24 + kRecordSize \<le> length ?c"
    by (simp_all add: capture_event_def capture_len_def kRecordSize_def split: if_splits)
  have w: "stdio_ok ?w" "files ?w ''cap'' = Some ?c" by (simp_all add: stdio_ok_def empty_stdio_def)
  obtain r1 w1 where o: "pr_open no_faults PcapReader_new ''cap'' ?w = Some (valid_header ?c, r1, w1)"
    "if valid_header ?c then reading ?c 24 (streams ?w) r1 w1 \<and> events_read r1 = 0 \<and> total_events r1 = capture_count ?c
     else r1 = PcapReader_new \<and> streams w1 = streams ?w" using w by (rule pr_open_spec)
  have r: "reading ?c 24 (streams ?w) r1 w1" "events_read r1 < total_events r1" using o(2) c by simp_all
  obtain w2 where "pr_next no_faults r1 w1 = Some (Some (decode_record (drop 24 ?c)), r1\<lparr>events_read := events_read r1 + 1\<rparr>, w2)"
    by (rule pr_next_event [OF r d(2)])
  then have "pr_next no_faults r1 w1 = Some (Some (recorded ?e), r1\<lparr>events_read := events_read r1 + 1\<rparr>, w2)" unfolding d(1) .
  moreover have "payload_len (recorded ?e) = n" by (simp add: recorded_def)
  moreover have "pr_open no_faults PcapReader_new ''cap'' ?w = Some (True, r1, w1)" using o(1) c(1) by simp
  ultimately show ?thesis using w(1) by blast
qed

text \<open>
  (C11) Writing a capture and reading it back. A writer that records the events, followed by a reader on the same
  path, delivers the same events in the same order and then none; \<open>total_events\<close> is their number. Of each event the
  timestamps, the payload length and the payload survive; the source address and the ports are not stored and come back as 0.
\<close>

theorem pcap_roundtrip:
  assumes "stdio_ok w" "\<forall>ev \<in> set evs. event_ok ev" "length evs < 2 ^ 64"
  shows "\<exists>w1 r1 w2 r2 w3. write_capture no_faults path evs w = Some (replicate (length evs) True, w1) \<and>
    pr_open no_faults PcapReader_new path w1 = Some (True, r1, w2) \<and> total_events r1 = of_nat (length evs) \<and>
    read_calls no_faults (Suc (length evs)) r1 w2 = Some (map (Some \<circ> recorded) evs @ [None], r2, w3)"
proof -
  obtain w1 where 1: "write_capture no_faults path evs w = Some (replicate (length evs) True, w1)"
    "files w1 = (files w)(path \<mapsto> capture_bytes evs)" "stdio_ok w1" using assms(1) by (rule write_capture_quiet)
  have v: "valid_header (capture_bytes evs)" "capture_count (capture_bytes evs) = of_nat (length evs)"
    by (simp_all add: capture_bytes_def)
  have "files w1 path = Some (capture_bytes evs)" by (simp add: 1(2))
  then obtain r1 w2 where "pr_open no_faults PcapReader_new path w1 = Some (valid_header (capture_bytes evs), r1, w2)"
    "if valid_header (capture_bytes evs) then reading (capture_bytes evs) 24 (streams w1) r1 w2 \<and> events_read r1 = 0 \<and>
       total_events r1 = capture_count (capture_bytes evs) else r1 = PcapReader_new \<and> streams w2 = streams w1"
    by (rule pr_open_spec [OF 1(3)])
  then have 2: "pr_open no_faults PcapReader_new path w1 = Some (True, r1, w2)"
    "reading (capture_bytes evs) 24 (streams w1) r1 w2" "events_read r1 = 0" "total_events r1 = of_nat (length evs)"
    using v by simp_all
  have "reading (capture_bytes evs) (24 + kRecordSize * 0) (streams w1) r1 w2" "events_read r1 = of_nat 0"
    "total_events r1 = capture_count (capture_bytes evs)" using 2 v by simp_all
  then obtain r2 w3 p where 3: "read_calls no_faults (Suc (length evs)) r1 w2
      = Some (map (capture_event (capture_bytes evs)) [0..<0 + Suc (length evs)], r2, w3)" using le0 by (rule read_calls_events)
  have "map (capture_event (capture_bytes evs)) [0..<0 + Suc (length evs)] = map (Some \<circ> recorded) evs @ [None]"
    using capture_event_capture [OF assms(2,3)] by (intro nth_equalityI) (simp_all add: nth_append del: upt_Suc)
  then show ?thesis using 1(1) 2(1,4) 3 by auto
qed

section \<open>Sessions under faults\<close>

lemma read_items_open:
  assumes "f \<in> dom (streams w)" "stdio_ok w"
  obtains items w' where "read_items plan f ns w = Some (items, w')" "stdio_ok w'" "dom (streams w') = dom (streams w)"
  using assms
proof (induction ns arbitrary: w thesis)
  case Nil
  show ?case using Nil.prems(3) by (intro Nil.prems(1) [of "Some []" w]) simp_all
next
  case (Cons n ns)
  obtain item w1 where 1: "fread plan w f n = Some (item, w1)" "stdio_ok w1" "dom (streams w1) = dom (streams w)"
    using Cons.prems(2,3) by (rule fread_open)
  have "f \<in> dom (streams w1)" using Cons.prems(2) 1(3) by simp
  then obtain items w2 where 2: "read_items plan f ns w1 = Some (items, w2)" "stdio_ok w2" "dom (streams w2) = dom (streams w1)"
    by (rule Cons.IH [OF _ _ 1(2), rotated])
  show ?case
  proof (cases item)
    case None
    then show ?thesis using 1 by (intro Cons.prems(1) [of None w1]) simp_all
  next
    case (Some bs)
    then show ?thesis using 1 2 by (intro Cons.prems(1) [of "map_option ((#) bs) items" w2]) simp_all
  qed
qed

lemma reader_inv_close:
  assumes "reader_inv F r w"
  obtains r' w' where "pr_close plan r w = Some (r', w')" "reader_inv F r' w'" "pr_file r' = 0"
proof (cases "pr_file r = 0")
  case True
  then show thesis using that [of "r\<lparr>total_events := 0, events_read := 0\<rparr>" w] assms by (simp add: pr_close_def reader_inv_def)
next
  case False
  then have w: "pr_file r \<in> dom (streams w)" "stdio_ok w" "dom (streams w) = insert (pr_file r) F" "pr_file r \<notin> F" "0 \<notin> F"
    using assms by (auto simp: reader_inv_def)
  obtain ok w1 where 1: "fclose plan w (pr_file r) = Some (ok, w1)" "stdio_ok w1" "dom (streams w1) = dom (streams w) - {pr_file r}"
    by (rule fclose_open [OF w(1,2)])
  have "pr_close plan r w = Some (PcapReader_new, w1)" using False by (simp add: pr_close_def 1(1) PcapReader_new_def)
  moreover have "reader_inv F PcapReader_new w1" using 1(2,3) w by (auto simp: reader_inv_def PcapReader_new_def)
  ultimately show thesis by (rule that) (simp add: PcapReader_new_def)
qed

lemma reader_inv_next:
  assumes "reader_inv F r w"
  obtains e r' w' where "pr_next plan r w = Some (e, r', w')" "reader_inv F r' w'"
proof (cases "pr_file r = 0 \<or> events_read r \<ge> total_events r")
  case True
  then have "pr_next plan r w = Some (None, r, w)" by (simp add: pr_next_def)
  then show thesis using assms by (rule that)
next
  case False
  then have "pr_file r \<in> dom (streams w)" "stdio_ok w" using assms by (auto simp: reader_inv_def)
  then obtain items w1 where 1: "read_items plan (pr_file r) [8, 8, 2, 6, unat kMaxPayload] w = Some (items, w1)" "stdio_ok w1"
    "dom (streams w1) = dom (streams w)" by (rule read_items_open)
  have "\<exists>e r'. pr_next plan r w = Some (e, r', w1) \<and> pr_file r' = pr_file r"
    using False by (simp add: pr_next_def 1(1) del: read_items.simps unat_kMaxPayload split: option.split list.split)
  then obtain e r' where e: "pr_next plan r w = Some (e, r', w1)" "pr_file r' = pr_file r" by blast
  have "reader_inv F r' w1" using assms 1(2,3) e(2) by (simp add: reader_inv_def)
  with e(1) show thesis by (rule that)
qed

lemma reader_inv_rewind:
  assumes "reader_inv F r w"
  obtains ok r' w' where "pr_rewind plan r w = Some (ok, r', w')" "reader_inv F r' w'"
proof (cases "pr_file r = 0")
  case True
  then have "pr_rewind plan r w = Some (False, r, w)" by (simp add: pr_rewind_def)
  then show thesis using assms by (rule that)
next
  case False
  then have "pr_file r \<in> dom (streams w)" "stdio_ok w" using assms by (auto simp: reader_inv_def)
  then obtain ok w1 where 1: "fseek plan w (pr_file r) (kCountOffset + 8) = Some (ok, w1)" "stdio_ok w1"
    "dom (streams w1) = dom (streams w)" by (rule fseek_open)
  have "pr_rewind plan r w = Some (ok, r\<lparr>events_read := 0\<rparr>, w1)" using False by (simp add: pr_rewind_def 1(1))
  moreover have "reader_inv F (r\<lparr>events_read := 0\<rparr>) w1" using assms 1(2,3) by (simp add: reader_inv_def)
  ultimately show thesis by (rule that)
qed

lemma reader_inv_open:
  assumes "reader_inv F r w"
  obtains ok r' w' where "pr_open plan r path w = Some (ok, r', w')" "reader_inv (F \<union> set (lost_by (Open path) r)) r' w'"
proof -
  have w: "stdio_ok w" "0 \<notin> dom (streams w)" using assms by (auto simp: reader_inv_def)
  have F: "F \<union> set (lost_by (Open path) r) = dom (streams w)"
    using assms by (simp add: reader_inv_def lost_by_def pr_is_open_def)
  obtain f w1 where o: "fopen_rb plan w path = (f, w1)" by (meson surj_pair)
  note c = fopen_rb_open [OF o w(1)]
  have inv: "reader_inv (dom (streams w)) (r\<lparr>pr_file := f\<rparr>) w1" using c w(2) by (auto simp: reader_inv_def)
  show thesis
  proof (cases "f = 0")
    case True
    then have "pr_open plan r path w = Some (False, r\<lparr>pr_file := f\<rparr>, w1)" by (simp add: pr_open_def o)
    then show thesis using inv unfolding F [symmetric] by (rule that)
  next
    case False
    then have "f \<in> dom (streams w1)" "stdio_ok w1" using c by auto
    then obtain items w2 where 2: "read_items plan f [8, 4, 4, 8] w1 = Some (items, w2)" "stdio_ok w2"
      "dom (streams w2) = dom (streams w1)" by (rule read_items_open)
    have inv2: "reader_inv (dom (streams w)) (r\<lparr>pr_file := f\<rparr>) w2" using inv 2(2,3) by (simp add: reader_inv_def)
    then obtain r3 w3 where 3: "pr_close plan (r\<lparr>pr_file := f\<rparr>) w2 = Some (r3, w3)" "reader_inv (dom (streams w)) r3 w3"
      by (rule reader_inv_close)
    have "pr_open plan r path w = Some (False, r3, w3) \<or>
        (\<exists>t. pr_open plan r path w = Some (True, r\<lparr>pr_file := f, total_events := t, events_read := 0\<rparr>, w2))"
      using False by (simp add: pr_open_def o 2(1) 3(1) Let_def del: read_items.simps split: option.split list.split) blast
    then show thesis
    proof (elim disjE exE)
      assume "pr_open plan r path w = Some (False, r3, w3)"
      then show thesis using 3(2) unfolding F [symmetric] by (rule that)
    next
      fix t assume "pr_open plan r path w = Some (True, r\<lparr>pr_file := f, total_events := t, events_read := 0\<rparr>, w2)"
      moreover have "reader_inv (F \<union> set (lost_by (Open path) r)) (r\<lparr>pr_file := f, total_events := t, events_read := 0\<rparr>) w2"
        using inv2 unfolding F by (simp add: reader_inv_def)
      ultimately show thesis by (rule that)
    qed
  qed
qed

lemma reader_step_inv:
  assumes "reader_inv F r w"
  obtains r' w' where "reader_step plan a r w = Some (r', w')" "reader_inv (F \<union> set (lost_by a r)) r' w'"
proof (cases a)
  case (Open path)
  obtain ok r' w' where "pr_open plan r path w = Some (ok, r', w')" "reader_inv (F \<union> set (lost_by (Open path) r)) r' w'"
    using assms by (rule reader_inv_open)
  then show thesis by (intro that [of r' w']) (simp_all add: Open)
next
  case Next
  obtain e r' w' where "pr_next plan r w = Some (e, r', w')" "reader_inv F r' w'" using assms by (rule reader_inv_next)
  then show thesis by (intro that [of r' w']) (simp_all add: Next lost_by_def)
next
  case Rewind
  obtain ok r' w' where "pr_rewind plan r w = Some (ok, r', w')" "reader_inv F r' w'" using assms by (rule reader_inv_rewind)
  then show thesis by (intro that [of r' w']) (simp_all add: Rewind lost_by_def)
next
  case Close_reader
  obtain r' w' where "pr_close plan r w = Some (r', w')" "reader_inv F r' w'" using assms by (rule reader_inv_close)
  then show thesis by (intro that [of r' w']) (simp_all add: Close_reader lost_by_def)
qed

lemma reader_run_inv:
  assumes "reader_inv F r w"
  obtains lost r' w' where "reader_run plan ops r w = Some (lost, r', w')" "reader_inv (F \<union> set lost) r' w'"
  using assms
proof (induction ops arbitrary: F r w thesis)
  case Nil
  show ?case using Nil.prems(2) by (intro Nil.prems(1) [of "[]" r w]) simp_all
next
  case (Cons a ops)
  obtain r1 w1 where 1: "reader_step plan a r w = Some (r1, w1)" "reader_inv (F \<union> set (lost_by a r)) r1 w1"
    using Cons.prems(2) by (rule reader_step_inv)
  obtain lost r2 w2 where 2: "reader_run plan ops r1 w1 = Some (lost, r2, w2)" "reader_inv (F \<union> set (lost_by a r) \<union> set lost) r2 w2"
    by (rule Cons.IH [OF _ 1(2)])
  show ?case using 2 by (intro Cons.prems(1) [of "lost_by a r @ lost" r2 w2]) (simp_all add: 1(1) Un_assoc)
qed

text \<open>
  (C29) Whatever faults occur and whatever the files hold, a client that calls \<open>open\<close>, \<open>next\<close>, \<open>rewind\<close> and \<open>close\<close> in any order never makes the reader pass
  a closed or null stream to the C library. When the reader has been destroyed, the streams that are open are those that
  were open before and, leaked, each stream that was open when \<open>open\<close> was called again.
\<close>

theorem pcap_reader_safe:
  assumes "stdio_ok w"
  shows "\<exists>lost r1 w1 w2. reader_run plan ops PcapReader_new w = Some (lost, r1, w1) \<and>
    PcapReader_destroy plan r1 w1 = Some w2 \<and> dom (streams w2) = dom (streams w) \<union> set lost"
proof -
  have "reader_inv (dom (streams w)) PcapReader_new w" using assms by (auto simp: reader_inv_def PcapReader_new_def stdio_ok_def)
  then obtain lost r1 w1 where 1: "reader_run plan ops PcapReader_new w = Some (lost, r1, w1)"
    "reader_inv (dom (streams w) \<union> set lost) r1 w1" by (rule reader_run_inv)
  obtain r2 w2 where "pr_close plan r1 w1 = Some (r2, w2)" "reader_inv (dom (streams w) \<union> set lost) r2 w2" "pr_file r2 = 0"
    using 1(2) by (rule reader_inv_close)
  then show ?thesis using 1(1) by (auto simp: PcapReader_destroy_def reader_inv_def)
qed

lemma demo_stdio_ok [simp]: "stdio_ok demo_stdio"
  by (simp add: demo_stdio_def stdio_ok_def empty_stdio_def)

theorem pcap_reader_decodes_witness:
  "stdio_ok demo_stdio \<and> files demo_stdio ''cap'' = Some (capture_bytes [demo_event]) \<and>
   (\<exists>r1 w1. pr_open no_faults PcapReader_new ''cap'' demo_stdio = Some (True, r1, w1) \<and> total_events r1 = 1)"
proof -
  have f: "files demo_stdio ''cap'' = Some (capture_bytes [demo_event])" by (simp add: demo_stdio_def)
  have v: "valid_header (capture_bytes [demo_event])" "capture_count (capture_bytes [demo_event]) = 1"
    by (simp_all add: capture_bytes_def)
  show ?thesis using pcap_reader_decodes [OF demo_stdio_ok f, of PcapReader_new 1 1] f v by auto
qed

theorem pcap_roundtrip_witness:
  "stdio_ok empty_stdio \<and> event_ok demo_event \<and>
   (\<exists>w1 r1 w2 r2 w3. write_capture no_faults ''c'' [demo_event, demo_event] empty_stdio = Some ([True, True], w1) \<and>
    pr_open no_faults PcapReader_new ''c'' w1 = Some (True, r1, w2) \<and> total_events r1 = 2 \<and>
    read_calls no_faults 3 r1 w2 = Some ([Some (recorded demo_event), Some (recorded demo_event), None], r2, w3))"
proof -
  have ok: "\<forall>ev \<in> set [demo_event, demo_event]. event_ok ev" by (simp add: demo_event_def event_ok_def FeedEvent_new_def)
  have l: "length [demo_event, demo_event] < 2 ^ 64" by simp
  have n: "Suc (length [demo_event, demo_event]) = 3" "(of_nat (length [demo_event, demo_event]) :: u64) = 2"
    "replicate (length [demo_event, demo_event]) True = [True, True]" by simp_all
  show ?thesis using pcap_roundtrip [OF empty_stdio_ok ok l, of "''c''"] ok unfolding n by (simp del: read_calls.simps)
qed

text \<open>Opening a second file without closing the first leaks the first stream.\<close>

theorem pcap_reader_safe_witness:
  "stdio_ok demo_stdio \<and> (\<exists>r1 w1 w2.
     reader_run no_faults [Open ''cap'', Next, Next, Open ''txt'', Rewind, Close_reader] PcapReader_new demo_stdio = Some ([1], r1, w1) \<and>
     PcapReader_destroy no_faults r1 w1 = Some w2 \<and> 1 \<in> dom (streams w2))"
proof -
  let ?ops = "[Open ''cap'', Next, Next, Open ''txt'', Rewind, Close_reader]"
  obtain lost r1 w1 w2 where s: "reader_run no_faults ?ops PcapReader_new demo_stdio = Some (lost, r1, w1)"
    "PcapReader_destroy no_faults r1 w1 = Some w2" "dom (streams w2) = dom (streams demo_stdio) \<union> set lost"
    using pcap_reader_safe [OF demo_stdio_ok, of no_faults ?ops] by blast
  have "map_option fst (reader_run no_faults ?ops PcapReader_new demo_stdio) = Some [1]" by code_simp
  then have "lost = [1]" using s(1) by simp
  then show ?thesis using s by auto
qed

end
