(* ===== verification/Double.thy ===== *)
theory Double
  imports Feed_Prelude Complex_Main "HOL-Library.Log_Nat"
begin

text \<open>
  The \<open>double\<close> arithmetic of the replay schedule, the percentiles and the benchmark table: IEEE 754 binary64 with rounding to
  nearest, ties to even, as x86-64 evaluates it. A finite value is a sign and a rational magnitude. Conversions to
  \<open>uint64_t\<close> truncate and are undefined (None) for a value that does not fit.
\<close>

section \<open>Rounding\<close>

definition round_half_even :: "rat \<Rightarrow> int" where
  "round_half_even x =
     (let n = \<lfloor>x\<rfloor>; r = x - of_int n
      in if r < 1 / 2 then n else if 1 / 2 < r then n + 1 else if even n then n else n + 1)"

text \<open>The exponent of a positive rational: \<open>2 powi floor_log2 q \<le> q < 2 powi (floor_log2 q + 1)\<close>.\<close>

definition floor_log2 :: "rat \<Rightarrow> int" where
  "floor_log2 q =
     (if 1 \<le> q then int (floorlog 2 (nat \<lfloor>q\<rfloor>)) - 1 else - int (floorlog 2 (nat (\<lceil>1 / q\<rceil> - 1))))"

text \<open>The exponent of the last place: 53 significant bits, and no finer than the subnormal numbers.\<close>

definition ulp_exp :: "rat \<Rightarrow> int" where
  "ulp_exp q = max (- 1074) (floor_log2 q - 52)"

definition round_mag :: "rat \<Rightarrow> rat" where
  "round_mag q =
     (if q = 0 then 0 else of_int (round_half_even (q / 2 powi ulp_exp q)) * 2 powi ulp_exp q)"

section \<open>Values and operations\<close>

datatype double = NaN | Infinite bool | Finite bool rat

definition round_double :: "bool \<Rightarrow> rat \<Rightarrow> double" where
  "round_double neg q = (let m = round_mag q in if 2 ^ 1024 \<le> m then Infinite neg else Finite neg m)"

definition double_lit :: "rat \<Rightarrow> double" where
  "double_lit q = round_double (q < 0) \<bar>q\<bar>"

definition double_of_u64 :: "u64 \<Rightarrow> double" where
  "double_of_u64 x = round_double False (of_nat (unat x))"

fun double_div :: "double \<Rightarrow> double \<Rightarrow> double" where
  "double_div NaN y = NaN"
| "double_div x NaN = NaN"
| "double_div (Infinite s) (Infinite t) = NaN"
| "double_div (Infinite s) (Finite t b) = Infinite (s \<noteq> t)"
| "double_div (Finite s a) (Infinite t) = Finite (s \<noteq> t) 0"
| "double_div (Finite s a) (Finite t b) =
     (if b = 0 then if a = 0 then NaN else Infinite (s \<noteq> t) else round_double (s \<noteq> t) (a / b))"

fun double_mul :: "double \<Rightarrow> double \<Rightarrow> double" where
  "double_mul NaN y = NaN"
| "double_mul x NaN = NaN"
| "double_mul (Infinite s) (Infinite t) = Infinite (s \<noteq> t)"
| "double_mul (Infinite s) (Finite t b) = (if b = 0 then NaN else Infinite (s \<noteq> t))"
| "double_mul (Finite s a) (Infinite t) = (if a = 0 then NaN else Infinite (s \<noteq> t))"
| "double_mul (Finite s a) (Finite t b) = round_double (s \<noteq> t) (a * b)"

fun u64_of_double :: "double \<Rightarrow> u64 option" where
  "u64_of_double NaN = None"
| "u64_of_double (Infinite s) = None"
| "u64_of_double (Finite s a) =
     (if a < 1 then Some 0 else if \<not> s \<and> a < 2 ^ 64 then Some (of_int \<lfloor>a\<rfloor>) else None)"

text \<open>\<open>operator<\<close> on doubles: false as soon as an operand is not a number.\<close>

definition signed_mag :: "bool \<Rightarrow> rat \<Rightarrow> rat" where
  "signed_mag s a = (if s then - a else a)"

fun double_less :: "double \<Rightarrow> double \<Rightarrow> bool" where
  "double_less NaN y = False"
| "double_less x NaN = False"
| "double_less (Infinite s) (Infinite t) = (s \<and> \<not> t)"
| "double_less (Infinite s) (Finite t b) = s"
| "double_less (Finite s a) (Infinite t) = (\<not> t)"
| "double_less (Finite s a) (Finite t b) = (signed_mag s a < signed_mag t b)"

section \<open>Rounding is monotone\<close>

lemma round_half_even_bounds: "\<lfloor>x\<rfloor> \<le> round_half_even x" "round_half_even x \<le> \<lfloor>x\<rfloor> + 1"
  by (simp_all add: round_half_even_def Let_def)

lemma round_half_even_int [simp]: "round_half_even (of_int n) = n"
  by (simp add: round_half_even_def)

lemma round_half_even_mono:
  assumes "x \<le> y"
  shows "round_half_even x \<le> round_half_even y"
proof (cases "\<lfloor>x\<rfloor> = \<lfloor>y\<rfloor>")
  case True
  then show ?thesis using assms by (auto simp: round_half_even_def Let_def)
next
  case False
  then have "\<lfloor>x\<rfloor> + 1 \<le> \<lfloor>y\<rfloor>" using floor_mono [OF assms] by linarith
  then show ?thesis using round_half_even_bounds [of x] round_half_even_bounds [of y] by linarith
qed

lemma floorlog_rat:
  assumes "0 < n"
  shows "(2 :: rat) ^ (floorlog 2 n - 1) \<le> of_nat n" "of_nat n + 1 \<le> (2 :: rat) ^ floorlog 2 n" "0 < floorlog 2 n"
proof -
  have b: "2 ^ (floorlog 2 n - 1) \<le> n" "Suc n \<le> 2 ^ floorlog 2 n" using floorlog_bounds [of n 2] assms by simp_all
  have "of_nat (2 ^ (floorlog 2 n - 1)) \<le> (of_nat n :: rat)" using b(1) unfolding of_nat_le_iff .
  then show "(2 :: rat) ^ (floorlog 2 n - 1) \<le> of_nat n" by simp
  have "of_nat (Suc n) \<le> (of_nat (2 ^ floorlog 2 n) :: rat)" using b(2) unfolding of_nat_le_iff .
  then show "of_nat n + 1 \<le> (2 :: rat) ^ floorlog 2 n" by (simp add: add.commute)
  show "0 < floorlog 2 n" using assms by (simp add: floorlog_def)
qed

lemma floor_log2_bounds:
  assumes "0 < q"
  shows "2 powi floor_log2 q \<le> q" "q < 2 powi (floor_log2 q + 1)"
proof -
  have "2 powi floor_log2 q \<le> q \<and> q < 2 powi (floor_log2 q + 1)"
  proof (cases "1 \<le> q")
    case True
    define n where "n = nat \<lfloor>q\<rfloor>"
    have "q < of_int (\<lfloor>q\<rfloor> + 1)" using floor_correct [of q] by blast
    moreover have "1 \<le> \<lfloor>q\<rfloor>" using True by simp
    then have "0 < n" "(of_nat n :: rat) = of_int \<lfloor>q\<rfloor>" by (simp_all add: n_def)
    ultimately have n: "0 < n" "of_nat n \<le> q" "q < of_nat n + 1" by simp_all
    note l = floorlog_rat [OF n(1)]
    have "floor_log2 q = int (floorlog 2 n) - 1" using True by (simp add: floor_log2_def n_def)
    then have e: "floor_log2 q = int (floorlog 2 n - 1)" "floor_log2 q + 1 = int (floorlog 2 n)" using l(3) by simp_all
    show ?thesis unfolding e(2) unfolding e(1) power_int_of_nat using n l by linarith
  next
    case False
    define c where "c = \<lceil>1 / q\<rceil>"
    define m where "m = nat (c - 1)"
    have c: "1 / q \<le> of_int c" "of_int c - 1 < 1 / q" unfolding c_def using ceiling_correct [of "1 / q"] by simp_all
    have "1 < 1 / q" using False assms by (simp add: field_simps)
    then have "of_int 1 < (of_int c :: rat)" using c(1) by simp
    then have "1 < c" unfolding of_int_less_iff .
    then have "0 < m" "of_int c = (of_nat m + 1 :: rat)" by (simp_all add: m_def)
    then have m: "0 < m" "of_nat m < 1 / q" "1 / q \<le> of_nat m + 1" using c by simp_all
    note l = floorlog_rat [OF m(1)]
    have 1: "(2 :: rat) ^ (floorlog 2 m - 1) < 1 / q" "1 / q \<le> (2 :: rat) ^ floorlog 2 m" using m l by linarith+
    have "floor_log2 q = - int (floorlog 2 m)" using False by (simp add: floor_log2_def c_def m_def)
    then have e: "floor_log2 q = - int (floorlog 2 m)" "floor_log2 q + 1 = - int (floorlog 2 m - 1)" using l(3) by simp_all
    have "inverse (2 ^ floorlog 2 m) \<le> inverse (1 / q)" "inverse (1 / q) < inverse (2 ^ (floorlog 2 m - 1))"
      using 1 assms by (intro le_imp_inverse_le less_imp_inverse_less; simp)+
    then show ?thesis unfolding e(2) unfolding e(1) power_int_minus power_int_of_nat by simp
  qed
  then show "2 powi floor_log2 q \<le> q" "q < 2 powi (floor_log2 q + 1)" by simp_all
qed

lemma powi_less_imp: "(2 :: rat) powi a < 2 powi b \<Longrightarrow> a < b"
  using power_int_increasing [of b a "2 :: rat"] by (meson leD le_less_linear one_le_numeral)

lemma floor_log2_mono:
  assumes "0 < q" "q \<le> r"
  shows "floor_log2 q \<le> floor_log2 r"
proof -
  have "(2 :: rat) powi floor_log2 q < 2 powi (floor_log2 r + 1)"
    using floor_log2_bounds(1) [of q] floor_log2_bounds(2) [of r] assms by linarith
  then show ?thesis using powi_less_imp by force
qed

lemma floor_log2_eq:
  assumes "2 powi e \<le> q" "q < 2 powi (e + 1)"
  shows "floor_log2 q = e"
proof -
  have "(0 :: rat) < 2 powi e" by simp
  with assms(1) have q: "0 < q" by linarith
  have "(2 :: rat) powi e < 2 powi (floor_log2 q + 1)" "(2 :: rat) powi floor_log2 q < 2 powi (e + 1)"
    using floor_log2_bounds [OF q] assms by linarith+
  from this [THEN powi_less_imp] show ?thesis by simp
qed

lemma round_mag_le:
  assumes "0 < q" "q \<le> of_int n * 2 powi ulp_exp q"
  shows "round_mag q \<le> of_int n * 2 powi ulp_exp q"
proof -
  have "q / 2 powi ulp_exp q \<le> of_int n" using assms(2) by (simp add: field_simps)
  from round_half_even_mono [OF this] have "round_half_even (q / 2 powi ulp_exp q) \<le> n" by simp
  then show ?thesis using assms(1) by (simp add: round_mag_def)
qed

lemma round_mag_ge:
  assumes "0 < q" "of_int n * 2 powi ulp_exp q \<le> q"
  shows "of_int n * 2 powi ulp_exp q \<le> round_mag q"
proof -
  have "of_int n \<le> q / 2 powi ulp_exp q" using assms(2) by (simp add: field_simps)
  from round_half_even_mono [OF this] have "n \<le> round_half_even (q / 2 powi ulp_exp q)" by simp
  then show ?thesis using assms(1) by (simp add: round_mag_def)
qed

lemma powi_multiple:
  assumes "k \<le> e"
  shows "(2 :: rat) powi e = of_int (2 ^ nat (e - k)) * 2 powi k"
proof -
  have "(2 :: rat) powi e = 2 powi ((e - k) + k)" by simp
  also have "\<dots> = 2 powi (e - k) * 2 powi k" by (rule power_int_add) simp
  also have "(2 :: rat) powi (e - k) = 2 ^ nat (e - k)" using assms by (simp add: power_int_def)
  finally show ?thesis by simp
qed

lemma round_mag_nonneg [simp]: "0 \<le> q \<Longrightarrow> 0 \<le> round_mag q"
proof (cases "q = 0")
  assume "0 \<le> q" "q \<noteq> 0"
  then have "of_int 0 * 2 powi ulp_exp q \<le> round_mag q" by (intro round_mag_ge) simp_all
  then show "0 \<le> round_mag q" by simp
qed (simp add: round_mag_def)

lemma round_mag_mono:
  assumes "0 \<le> q" "q \<le> r"
  shows "round_mag q \<le> round_mag r"
proof (cases "q = 0")
  case True
  then show ?thesis using assms by (simp add: round_mag_def [of 0])
next
  case False
  then have q: "0 < q" "0 < r" using assms by simp_all
  have le: "floor_log2 q \<le> floor_log2 r" using q(1) assms(2) by (rule floor_log2_mono)
  show ?thesis
  proof (cases "ulp_exp q = ulp_exp r")
    case True
    have "q / 2 powi ulp_exp q \<le> r / 2 powi ulp_exp q" using assms(2) by (simp add: divide_right_mono)
    then show ?thesis using q round_half_even_mono by (simp add: round_mag_def True)
  next
    case False
    then have k: "ulp_exp r = floor_log2 r - 52" "floor_log2 q + 1 \<le> floor_log2 r" "ulp_exp q \<le> floor_log2 r" "ulp_exp r \<le> floor_log2 r"
      using le by (auto simp: ulp_exp_def max_def split: if_splits)
    have "q \<le> 2 powi floor_log2 r" using floor_log2_bounds(2) [OF q(1)] power_int_increasing [OF k(2), of "2 :: rat"] by linarith
    then have "round_mag q \<le> 2 powi floor_log2 r" unfolding powi_multiple [OF k(3)] by (rule round_mag_le [OF q(1)])
    moreover have "2 powi floor_log2 r \<le> r" by (rule floor_log2_bounds(1) [OF q(2)])
    then have "2 powi floor_log2 r \<le> round_mag r" unfolding powi_multiple [OF k(4)] by (rule round_mag_ge [OF q(2)])
    ultimately show ?thesis by linarith
  qed
qed

section \<open>Exact values\<close>

lemma round_mag_exact:
  assumes "0 < q" "q = of_int n * 2 powi ulp_exp q"
  shows "round_mag q = q"
proof -
  have "round_mag q \<le> of_int n * 2 powi ulp_exp q" by (rule round_mag_le [OF assms(1)]) (simp flip: assms(2))
  moreover have "of_int n * 2 powi ulp_exp q \<le> round_mag q" by (rule round_mag_ge [OF assms(1)]) (simp flip: assms(2))
  ultimately show ?thesis using assms(2) by linarith
qed

lemma round_mag_nat:
  assumes "n \<le> 2 ^ 53"
  shows "round_mag (of_nat n) = of_nat n"
proof (cases "n = 0 \<or> n = 2 ^ 53")
  case True
  then show ?thesis
  proof
    assume n: "n = 2 ^ 53"
    have "floor_log2 (2 ^ 53) = 53" by (rule floor_log2_eq) simp_all
    then have u: "ulp_exp (2 ^ 53) = 1" by (simp add: ulp_exp_def)
    have "round_mag (2 ^ 53) = 2 ^ 53" by (rule round_mag_exact [where n = "2 ^ 52"]) (use u in simp_all)
    then show ?thesis by (simp add: n)
  qed (simp add: round_mag_def)
next
  case False
  then have n: "0 < n" "n < 2 ^ 53" using assms by simp_all
  let ?k = "ulp_exp (of_nat n)"
  have "(2 :: rat) powi floor_log2 (of_nat n) \<le> of_nat n" by (rule floor_log2_bounds(1)) (use n in simp)
  also have "(of_nat n :: rat) < 2 powi 53" using n(2) by simp
  finally have "floor_log2 (of_nat n) < 53" by (rule powi_less_imp)
  then have k: "?k \<le> 0" by (simp add: ulp_exp_def)
  have "(of_nat n :: rat) = of_nat n * 2 powi 0" by simp
  also have "\<dots> = of_int (int n * 2 ^ nat (0 - ?k)) * 2 powi ?k" unfolding powi_multiple [OF k] by simp
  finally have e: "(of_nat n :: rat) = of_int (int n * 2 ^ nat (0 - ?k)) * 2 powi ?k" .
  show ?thesis by (rule round_mag_exact [OF _ e]) (simp add: n(1))
qed

text \<open>The error of rounding: half a unit of the last of 53 bits, and of truncating the result to an integer.\<close>

lemma round_half_even_error: "\<bar>of_int (round_half_even x) - x\<bar> \<le> 1 / 2"
proof -
  have "of_int \<lfloor>x\<rfloor> \<le> x" "x < of_int \<lfloor>x\<rfloor> + 1" by linarith+
  then show ?thesis by (auto simp: round_half_even_def Let_def abs_le_iff)
qed

lemma round_mag_error:
  assumes "1 \<le> q"
  shows "\<bar>round_mag q - q\<bar> \<le> q / 2 ^ 53"
proof -
  let ?u = "(2 :: rat) powi ulp_exp q" and ?x = "q / 2 powi ulp_exp q"
  have q: "0 < q" using assms by simp
  note l = floor_log2_bounds [OF q]
  have "2 powi 0 < (2 :: rat) powi (floor_log2 q + 1)" using assms l(2) by simp
  then have "0 < floor_log2 q + 1" by (rule powi_less_imp)
  then have "ulp_exp q = floor_log2 q - 52" by (simp add: ulp_exp_def)
  then have u: "?u / 2 = 2 powi floor_log2 q / 2 ^ 53" by (simp add: power_int_diff power_int_numeral)
  have "round_mag q - q = (of_int (round_half_even ?x) - ?x) * ?u" using q by (simp add: round_mag_def left_diff_distrib)
  then have "\<bar>round_mag q - q\<bar> = \<bar>of_int (round_half_even ?x) - ?x\<bar> * ?u" by (simp add: abs_mult)
  also have "\<dots> \<le> 1 / 2 * ?u" by (intro mult_right_mono round_half_even_error) simp
  also have "\<dots> = 2 powi floor_log2 q / 2 ^ 53" using u by simp
  also have "\<dots> \<le> q / 2 ^ 53" using l(1) by (intro divide_right_mono) simp_all
  finally show ?thesis .
qed

lemma floor_round_error:
  assumes "0 \<le> q"
  shows "\<bar>of_int \<lfloor>round_mag q\<rfloor> - q\<bar> \<le> 1 + q / 2 ^ 53"
proof -
  have f: "of_int \<lfloor>round_mag q\<rfloor> \<le> round_mag q" "round_mag q < of_int \<lfloor>round_mag q\<rfloor> + 1" by linarith+
  show ?thesis
  proof (cases "1 \<le> q")
    case True
    then show ?thesis using f round_mag_error [OF True] unfolding abs_le_iff by linarith
  next
    case False
    have "round_mag (1 :: rat) = 1" using round_mag_nat [of 1] by simp
    then have "round_mag q \<le> 1" "0 \<le> round_mag q" using round_mag_mono [of q 1] assms False by simp_all
    then have "(of_int \<lfloor>round_mag q\<rfloor> :: rat) \<le> 1" "0 \<le> (of_int \<lfloor>round_mag q\<rfloor> :: rat)" using f(1) by simp_all
    moreover have "0 \<le> q / 2 ^ 53" using assms by simp
    ultimately show ?thesis using assms False unfolding abs_le_iff by linarith
  qed
qed

lemma round_mag_pow2: "round_mag (2 ^ e) = 2 ^ e"
proof -
  have "floor_log2 (2 ^ e) = int e" by (rule floor_log2_eq) (simp_all add: power_int_add)
  then have "ulp_exp (2 ^ e) \<le> int e" by (simp add: ulp_exp_def)
  from powi_multiple [OF this] have e: "(2 :: rat) ^ e = of_int (2 ^ nat (int e - ulp_exp (2 ^ e))) * 2 powi ulp_exp (2 ^ e)"
    unfolding power_int_of_nat .
  show ?thesis by (rule round_mag_exact [OF _ e]) simp
qed

lemma round_mag_le_fixed: "0 \<le> q \<Longrightarrow> q \<le> m \<Longrightarrow> round_mag m = m \<Longrightarrow> round_mag q \<le> m"
  using round_mag_mono [of q m] by simp

lemma round_mag_powi:
  assumes "- 1074 \<le> e"
  shows "round_mag (2 powi e) = 2 powi e"
proof -
  have "floor_log2 (2 powi e) = e" by (rule floor_log2_eq) (simp_all add: power_int_add)
  then have "ulp_exp (2 powi e) \<le> e" using assms by (simp add: ulp_exp_def)
  from powi_multiple [OF this] show ?thesis by (rule round_mag_exact [rotated]) simp
qed

lemma round_mag_ge_powi: "- 1074 \<le> e \<Longrightarrow> 2 powi e \<le> q \<Longrightarrow> 2 powi e \<le> round_mag q"
  using round_mag_mono [of "2 powi e" q] by (simp add: round_mag_powi)

lemma round_double_bounded:
  assumes "0 \<le> q" "q \<le> 2 ^ k" "k < 1024"
  shows "round_double neg q = Finite neg (round_mag q)" "round_mag q \<le> 2 ^ k"
proof -
  show le: "round_mag q \<le> 2 ^ k" using assms(1,2) round_mag_pow2 [of k] by (rule round_mag_le_fixed)
  have "(2 :: rat) ^ k < 2 ^ 1024" using assms(3) by (intro power_strict_increasing) simp_all
  from order.strict_trans1 [OF le this] have "\<not> 2 ^ 1024 \<le> round_mag q" unfolding not_le .
  then show "round_double neg q = Finite neg (round_mag q)" unfolding round_double_def Let_def by (simp only: if_False)
qed

lemma round_double_finite:
  assumes "0 \<le> q" "q \<le> 2 ^ 64"
  shows "round_double neg q = Finite neg (round_mag q)" "0 \<le> round_mag q" "round_mag q \<le> 2 ^ 64"
  using round_double_bounded [OF assms] assms(1) by simp_all

lemma of_nat_unat_le: "(of_nat (unat x) :: rat) \<le> 2 ^ 64" for x :: u64
proof -
  have "unat x < 2 ^ LENGTH(64)" by (rule unsigned_less)
  then have "unat x \<le> 2 ^ 64" by simp
  then have "(of_nat (unat x) :: rat) \<le> of_nat (2 ^ 64)" unfolding of_nat_le_iff .
  then show ?thesis by simp
qed

lemma double_of_u64_finite: "double_of_u64 x = Finite False (round_mag (of_nat (unat x)))"
  unfolding double_of_u64_def by (rule round_double_finite(1)) (simp_all only: of_nat_0_le_iff of_nat_unat_le)

lemma double_of_u64_exact: "unat x \<le> 2 ^ 53 \<Longrightarrow> double_of_u64 x = Finite False (of_nat (unat x))"
  by (simp only: double_of_u64_finite round_mag_nat)

lemma unat_of_int_u64:
  assumes "0 \<le> k" "k < 2 ^ 64"
  shows "unat (of_int k :: u64) = nat k"
proof -
  obtain n where n: "k = int n" using assms(1) by (rule nonneg_int_cases)
  then have "n < 2 ^ 64" using assms(2) by simp
  then show ?thesis unfolding n by (simp add: unat_of_nat take_bit_nat_eq_self)
qed

lemma u64_of_double_floor:
  assumes "0 \<le> a" "a < 2 ^ 64"
  shows "u64_of_double (Finite False a) = Some (of_int \<lfloor>a\<rfloor>)" "unat (of_int \<lfloor>a\<rfloor> :: u64) = nat \<lfloor>a\<rfloor>"
proof -
  have "0 \<le> \<lfloor>a\<rfloor>" "\<lfloor>a\<rfloor> < 2 ^ 64" using assms by (simp_all add: floor_less_iff)
  then show "unat (of_int \<lfloor>a\<rfloor> :: u64) = nat \<lfloor>a\<rfloor>" by (rule unat_of_int_u64)
  have "\<lfloor>a\<rfloor> = 0" if "a < 1" using assms(1) that by (simp add: floor_eq_iff)
  then show "u64_of_double (Finite False a) = Some (of_int \<lfloor>a\<rfloor>)" using assms(2) by simp
qed

text \<open>A fraction of an index stays below the index: \<open>static_cast<size_t>(p * static_cast<double>(n))\<close>.\<close>

lemma scaled_index:
  assumes "0 \<le> p" "p \<le> 1" "unat n \<le> 2 ^ 53"
  obtains i where "u64_of_double (double_mul (Finite False p) (double_of_u64 n)) = Some i" "unat i \<le> unat n"
    "unat i = nat \<lfloor>round_mag (p * of_nat (unat n))\<rfloor>"
proof -
  let ?q = "p * of_nat (unat n)" and ?m = "of_nat (unat n) :: rat"
  have "0 \<le> ?m" by (rule of_nat_0_le_iff)
  then have q: "0 \<le> ?q" "?q \<le> ?m"
    using mult_nonneg_nonneg [OF assms(1)] mult_left_le_one_le [OF _ assms(1,2)] by blast+
  have m: "?m \<le> 2 ^ 53"
  proof -
    have "?m \<le> of_nat (2 ^ 53)" using assms(3) unfolding of_nat_le_iff .
    then show ?thesis by simp
  qed
  have r: "0 \<le> round_mag ?q" "round_mag ?q \<le> ?m" using q round_mag_le_fixed [OF q round_mag_nat [OF assms(3)]] by simp_all
  have "(2 :: rat) ^ 53 < 2 ^ 64" by simp
  then have lt: "round_mag ?q < 2 ^ 64" "?q \<le> 2 ^ 64" using r m q by linarith+
  have "double_mul (Finite False p) (double_of_u64 n) = Finite False (round_mag ?q)"
    unfolding double_of_u64_exact [OF assms(3)] double_mul.simps using round_double_finite(1) [OF q(1) lt(2)] by simp
  moreover note u = u64_of_double_floor [OF r(1) lt(1)]
  moreover have "nat \<lfloor>round_mag ?q\<rfloor> \<le> unat n" using floor_mono [OF r(2)] unfolding floor_of_nat by (simp only: nat_le_iff)
  ultimately show thesis by (intro that) simp_all
qed

lemma u64_of_round:
  assumes "0 \<le> q"
  shows "u64_of_double (round_double False q) = (if round_mag q < 2 ^ 64 then Some (of_int \<lfloor>round_mag q\<rfloor>) else None)"
proof (cases "2 ^ 1024 \<le> round_mag q")
  case True
  have "(2 :: rat) ^ 64 < 2 ^ 1024" by (rule power_strict_increasing) simp_all
  with True have "\<not> round_mag q < 2 ^ 64" by (meson not_less order_trans less_imp_le)
  then show ?thesis using True unfolding round_double_def Let_def by (simp only: if_True if_False u64_of_double.simps)
next
  case False
  then have r: "round_double False q = Finite False (round_mag q)" unfolding round_double_def Let_def by (simp only: if_False)
  show ?thesis
  proof (cases "round_mag q < 2 ^ 64")
    case True
    then show ?thesis unfolding r u64_of_double_floor(1) [OF round_mag_nonneg [OF assms] True] by (simp only: if_True)
  next
    case False
    then have "\<not> round_mag q < 1" by simp
    then show ?thesis using False unfolding r by simp
  qed
qed

text \<open>Just below \<open>2 ^ 64\<close> the distance between two doubles is 2048, so these integers round up to \<open>2 ^ 64\<close>.\<close>

lemma round_mag_near_top:
  assumes "0 < k" "k \<le> 1024"
  shows "round_mag (2 ^ 64 - of_nat k) = 2 ^ 64"
proof -
  have k: "(0 :: rat) < of_nat k" "(of_nat k :: rat) \<le> 1024" using assms of_nat_le_iff [of k 1024, where ?'a = rat] by simp_all
  let ?q = "2 ^ 64 - of_nat k :: rat"
  have "floor_log2 ?q = 63" using k by (intro floor_log2_eq) simp_all
  then have u: "ulp_exp ?q = 11" by (simp add: ulp_exp_def)
  have "\<lfloor>?q / 2 powi 11\<rfloor> = 2 ^ 53 - 1" using k by (intro floor_unique) simp_all
  then have "round_half_even (?q / 2 powi 11) = 2 ^ 53" using k by (simp add: round_half_even_def Let_def field_simps)
  then show ?thesis using k unfolding round_mag_def u by simp
qed

end
