(* ===== verification/Pcap_Replay.thy ===== *)
theory Pcap_Replay
  imports Pcap_Reader Double Clock
begin

text \<open>
  \<open>PcapReader::replay_at_rate\<close> of \<open>include/ultrafast/pcap_reader.hpp\<close>. The state of a replay is the reader, the
  streams, the history of the clock and whatever the callback keeps. None is undefined behaviour: a misused stream or a
  conversion of a \<open>double\<close> that does not fit into \<open>uint64_t\<close>.
\<close>

section \<open>Operations\<close>

type_synonym 'a callback = "FeedEvent \<Rightarrow> u64 \<Rightarrow> time_event list \<times> 'a \<Rightarrow> time_event list \<times> 'a"

definition PcapReader_clock_ns :: "clock \<Rightarrow> time_event list \<Rightarrow> u64" where
  "PcapReader_clock_ns clk tr = (let (tv_sec, tv_nsec) = clk tr in tv_sec * 1000000000 + tv_nsec)"

definition replay_offset :: "double \<Rightarrow> u64 \<Rightarrow> u64 option" where
  "replay_offset rate d = u64_of_double (double_div (double_of_u64 d) rate)"

text \<open>The part of the loop body that follows \<open>next\<close>: the target time, the sleep and the callback.\<close>

definition replay_step ::
  "clock \<Rightarrow> double \<Rightarrow> 'a callback \<Rightarrow> u64 \<Rightarrow> u64 \<Rightarrow> FeedEvent \<Rightarrow> time_event list \<times> 'a \<Rightarrow> (time_event list \<times> 'a) option" where
  "replay_step clk rate cb origin start ev s =
     do {
       offset_ns \<leftarrow> replay_offset rate (inject_ns ev - origin);
       let target = start + offset_ns;
       let now = PcapReader_clock_ns clk (fst s);
       let tr1 = Clock_read now # fst s;
       let sleep_ns = target - now;
       let tr2 = (if target > now then Nanosleep (sleep_ns div 1000000000) (sleep_ns mod 1000000000) # tr1 else tr1);
       Some (cb ev target (tr2, snd s))
     }"

lemma pr_next_progress:
  assumes "pr_next plan r w = Some (Some ev, r1, w1)"
  shows "total_events r1 = total_events r" "events_read r1 = events_read r + 1" "events_read r < total_events r"
  using assms by (auto simp: pr_next_def split: if_splits bind_splits option.splits list.splits)

lemma pr_next_decreases:
  assumes "pr_next plan r w = Some (Some ev, r1, w1)"
  shows "unat (total_events r1) - unat (events_read r1) < unat (total_events r) - unat (events_read r)"
proof -
  note p = pr_next_progress [OF assms]
  have "unat (total_events r) < 2 ^ LENGTH(64)" by (rule unsigned_less)
  then have "unat (events_read r + 1) = unat (events_read r) + 1"
    using p(3) unat_add_lt [of "events_read r" 1] by (simp add: word_less_nat_alt)
  then show ?thesis using p by (simp add: word_less_nat_alt)
qed

function replay_loop ::
  "io_plan \<Rightarrow> clock \<Rightarrow> double \<Rightarrow> 'a callback \<Rightarrow> u64 \<Rightarrow> u64 \<Rightarrow> PcapReader \<Rightarrow> stdio \<Rightarrow> time_event list \<times> 'a
   \<Rightarrow> (PcapReader \<times> stdio \<times> time_event list \<times> 'a) option" where
  "replay_loop plan clk rate cb origin start r w s =
     (if events_read r < total_events r
      then (case pr_next plan r w of
              None \<Rightarrow> None
            | Some (None, r1, w1) \<Rightarrow> Some (r1, w1, s)
            | Some (Some ev, r1, w1) \<Rightarrow>
                (case replay_step clk rate cb origin start ev s of
                   None \<Rightarrow> None
                 | Some s1 \<Rightarrow> replay_loop plan clk rate cb origin start r1 w1 s1))
      else Some (r, w, s))"
  by pat_completeness auto
termination
  by (relation "measure (\<lambda>(plan, clk, rate, cb, origin, start, r, w, s). unat (total_events r) - unat (events_read r))")
    (auto intro: pr_next_decreases)

declare replay_loop.simps [simp del]

definition replay_at_rate ::
  "io_plan \<Rightarrow> clock \<Rightarrow> double \<Rightarrow> 'a callback \<Rightarrow> PcapReader \<Rightarrow> stdio \<Rightarrow> time_event list \<times> 'a
   \<Rightarrow> (PcapReader \<times> stdio \<times> time_event list \<times> 'a) option" where
  "replay_at_rate plan clk rate cb r w s =
     (if pr_file r = 0 \<or> total_events r = 0 then Some (r, w, s)
      else do {
        (_, r1, w1) \<leftarrow> pr_rewind plan r w;
        (first, r2, w2) \<leftarrow> pr_next plan r1 w1;
        (case first of
           None \<Rightarrow> Some (r2, w2, s)
         | Some ev \<Rightarrow>
             let start = PcapReader_clock_ns clk (fst s);
                 s1 = cb ev start (Clock_read start # fst s, snd s)
             in replay_loop plan clk rate cb (inject_ns ev) start r2 w2 s1)
      })"

section \<open>Specification\<close>

definition capture_events :: "bytes \<Rightarrow> FeedEvent list" where
  "capture_events c = map (\<lambda>i. decode_record (drop (24 + kRecordSize * i) c)) [0..<capture_len c]"

text \<open>The same steps over a list of events.\<close>

fun replay_list ::
  "clock \<Rightarrow> double \<Rightarrow> 'a callback \<Rightarrow> u64 \<Rightarrow> u64 \<Rightarrow> FeedEvent list \<Rightarrow> time_event list \<times> 'a \<Rightarrow> (time_event list \<times> 'a) option" where
  "replay_list clk rate cb origin start [] s = Some s"
| "replay_list clk rate cb origin start (ev # evs) s =
     do { s1 \<leftarrow> replay_step clk rate cb origin start ev s; replay_list clk rate cb origin start evs s1 }"

definition replay_events ::
  "clock \<Rightarrow> double \<Rightarrow> 'a callback \<Rightarrow> FeedEvent list \<Rightarrow> time_event list \<times> 'a \<Rightarrow> (time_event list \<times> 'a) option" where
  "replay_events clk rate cb evs s =
     (case evs of
        [] \<Rightarrow> Some s
      | ev # rest \<Rightarrow>
          let start = now_ns clk (fst s)
          in replay_list clk rate cb (inject_ns ev) start rest (cb ev start (Clock_read start # fst s, snd s)))"

text \<open>A callback that records each event, its scheduled time and the clock history at that moment.\<close>

definition log_cb :: "(FeedEvent \<times> u64 \<times> time_event list) list callback" where
  "log_cb ev target s = (fst s, snd s @ [(ev, target, fst s)])"

text \<open>A capture of events with the given send times, alone in its file system.\<close>

definition timed_events :: "u64 list \<Rightarrow> FeedEvent list" where
  "timed_events ts = map (\<lambda>t. FeedEvent_new\<lparr>inject_ns := t\<rparr>) ts"

definition timed_stdio :: "u64 list \<Rightarrow> stdio" where
  "timed_stdio ts = empty_stdio\<lparr>files := [''cap'' \<mapsto> capture_bytes (timed_events ts)]\<rparr>"

lemma PcapReader_clock_ns_now: "PcapReader_clock_ns clk tr = now_ns clk tr"
  by (simp add: PcapReader_clock_ns_def now_ns_def clock_ns_def)

section \<open>The loop follows the list of events\<close>

lemma reading_fits:
  assumes "j < capture_len c"
  shows "24 + kRecordSize * j + kRecordSize \<le> length c"
proof -
  have "Suc j \<le> (length c - 24) div kRecordSize" using assms by (simp add: capture_len_def)
  then have "Suc j * kRecordSize \<le> (length c - 24) div kRecordSize * kRecordSize" by (rule mult_le_mono1)
  also have "\<dots> \<le> length c - 24" by (rule div_times_less_eq_dividend)
  finally show ?thesis by (simp add: kRecordSize_def)
qed

lemma capture_len_le: "capture_len c \<le> unat (capture_count c)" "unat (of_nat (capture_len c) :: u64) = capture_len c"
proof -
  show le: "capture_len c \<le> unat (capture_count c)" by (simp add: capture_len_def)
  have "unat (capture_count c) < 2 ^ LENGTH(64)" by (rule unsigned_less)
  then show "unat (of_nat (capture_len c) :: u64) = capture_len c" using le by (simp add: unat_of_nat take_bit_nat_eq_self)
qed

lemma reading_more: "j < capture_len c \<Longrightarrow> (of_nat j :: u64) < capture_count c"
  using capture_len_le(1) [of c] by (simp add: word_less_nat_alt unat_of_nat)

lemma reading_end: "capture_count c \<le> of_nat (capture_len c) \<or> length c < 24 + kRecordSize * capture_len c + kRecordSize"
  using capture_len_le(2) [of c]
  by (auto simp: capture_len_def kRecordSize_def word_le_nat_alt min_def split: if_splits)

lemma replay_loop_end:
  assumes "reading c p F r w" "total_events r \<le> events_read r \<or> length c < p + kRecordSize"
  obtains r' w' p' where "replay_loop no_faults clk rate cb origin start r w s = Some (r', w', s)" "reading c p' F r' w'"
proof (cases "events_read r < total_events r")
  case True
  obtain w1 p1 where 1: "pr_next no_faults r w = Some (None, r, w1)" "reading c p1 F r w1" using assms by (rule pr_next_end)
  have "replay_loop no_faults clk rate cb origin start r w s = Some (r, w1, s)"
    using True by (subst replay_loop.simps) (simp add: 1(1))
  then show thesis using 1(2) by (rule that)
next
  case False
  then have "replay_loop no_faults clk rate cb origin start r w s = Some (r, w, s)" by (subst replay_loop.simps) simp
  then show thesis using assms(1) by (rule that)
qed

lemma replay_loop_list:
  assumes "reading c (24 + kRecordSize * j) F r w" "events_read r = of_nat j" "total_events r = capture_count c" "j \<le> capture_len c"
  obtains r' w' p where "replay_loop no_faults clk rate cb origin start r w s =
      map_option (\<lambda>s'. (r', w', s')) (replay_list clk rate cb origin start (drop j (capture_events c)) s)" "reading c p F r' w'"
  using assms
proof (induction "capture_len c - j" arbitrary: j r w s thesis)
  case 0
  then have j: "j = capture_len c" by simp
  then have d: "drop j (capture_events c) = []" by (simp add: capture_events_def)
  have "total_events r \<le> events_read r \<or> length c < 24 + kRecordSize * j + kRecordSize"
    using reading_end [of c] "0.prems"(3,4) j by simp
  with "0.prems"(2) obtain r' w' p' where "replay_loop no_faults clk rate cb origin start r w s = Some (r', w', s)" "reading c p' F r' w'"
    by (rule replay_loop_end)
  then show ?case by (intro "0.prems"(1) [of r' w' p']) (simp_all add: d)
next
  case (Suc k)
  then have j: "j < capture_len c" by simp
  have lt: "events_read r < total_events r" using reading_more [OF j] Suc.prems(3,4) by simp
  obtain w1 where 1: "pr_next no_faults r w = Some (Some (decode_record (drop (24 + kRecordSize * j) c)), r\<lparr>events_read := events_read r + 1\<rparr>, w1)"
    "reading c (24 + kRecordSize * j + kRecordSize) F (r\<lparr>events_read := events_read r + 1\<rparr>) w1"
    by (rule pr_next_event [OF Suc.prems(2) lt reading_fits [OF j]])
  let ?r = "r\<lparr>events_read := events_read r + 1\<rparr>" and ?ev = "decode_record (drop (24 + kRecordSize * j) c)"
  have d: "drop j (capture_events c) = ?ev # drop (Suc j) (capture_events c)"
    using j by (simp add: capture_events_def Cons_nth_drop_Suc [symmetric])
  have l: "replay_loop no_faults clk rate cb origin start r w s =
      (case replay_step clk rate cb origin start ?ev s of None \<Rightarrow> None | Some s1 \<Rightarrow> replay_loop no_faults clk rate cb origin start ?r w1 s1)"
    using lt by (subst replay_loop.simps) (simp add: 1(1))
  show ?case
  proof (cases "replay_step clk rate cb origin start ?ev s")
    case None
    then show ?thesis using Suc.prems(2) by (intro Suc.prems(1) [of r w "24 + kRecordSize * j"]) (simp_all add: l d)
  next
    case (Some s1)
    have k: "k = capture_len c - Suc j" using Suc.hyps(2) by simp
    have n: "reading c (24 + kRecordSize * Suc j) F ?r w1" "events_read ?r = of_nat (Suc j)" "total_events ?r = capture_count c" "Suc j \<le> capture_len c"
      using 1(2) Suc.prems(3,4) j by (simp_all add: algebra_simps)
    obtain r' w' p where "replay_loop no_faults clk rate cb origin start ?r w1 s1 =
        map_option (\<lambda>s'. (r', w', s')) (replay_list clk rate cb origin start (drop (Suc j) (capture_events c)) s1)" "reading c p F r' w'"
      by (rule Suc.hyps(1) [OF k _ n])
    then show ?thesis by (intro Suc.prems(1) [of r' w' p]) (simp_all add: l d Some)
  qed
qed

lemma replay_at_rate_events:
  assumes "reading c p0 F r w" "24 \<le> length c" "total_events r = capture_count c"
  obtains r' w' p where "replay_at_rate no_faults clk rate cb r w s =
      map_option (\<lambda>s'. (r', w', s')) (replay_events clk rate cb (capture_events c) s)" "reading c p F r' w'"
proof (cases "total_events r = 0")
  case True
  then have "capture_events c = []" using assms(3) by (simp add: capture_events_def capture_len_def)
  then show thesis using True assms(1) by (intro that [of r w p0]) (simp_all add: replay_at_rate_def replay_events_def)
next
  case False
  have f: "pr_file r \<noteq> 0" using assms(1) by (simp add: reading_def)
  let ?r = "r\<lparr>events_read := 0\<rparr>"
  obtain w1 where 1: "pr_rewind no_faults r w = Some (True, ?r, w1)" "reading c 24 F ?r w1"
    using assms(1,2) by (rule pr_rewind_reading)
  show thesis
  proof (cases "capture_len c = 0")
    case True
    have "total_events ?r \<le> events_read ?r \<or> length c < 24 + kRecordSize" using reading_end [of c] True assms(3) by simp
    with 1(2) obtain w2 p2 where 2: "pr_next no_faults ?r w1 = Some (None, ?r, w2)" "reading c p2 F ?r w2" by (rule pr_next_end)
    have "capture_events c = []" using True by (simp add: capture_events_def)
    then show thesis using False f 2 by (intro that [of ?r w2 p2]) (simp_all add: replay_at_rate_def replay_events_def 1(1))
  next
    case more: False
    then have j: "0 < capture_len c" by simp
    have lt: "events_read ?r < total_events ?r" using reading_more [OF j] assms(3) by simp
    have fits: "24 + kRecordSize \<le> length c" using reading_fits [OF j] by simp
    let ?ev = "decode_record (drop 24 c)"
    obtain w2 where 2: "pr_next no_faults ?r w1 = Some (Some ?ev, ?r\<lparr>events_read := events_read ?r + 1\<rparr>, w2)"
      "reading c (24 + kRecordSize) F (?r\<lparr>events_read := events_read ?r + 1\<rparr>) w2" by (rule pr_next_event [OF 1(2) lt fits])
    let ?r2 = "?r\<lparr>events_read := events_read ?r + 1\<rparr>"
    have n: "reading c (24 + kRecordSize * 1) F ?r2 w2" "events_read ?r2 = of_nat 1" "total_events ?r2 = capture_count c" "1 \<le> capture_len c"
      using 2(2) assms(3) j by simp_all
    have e: "capture_events c = ?ev # drop 1 (capture_events c)"
      using j by (simp add: capture_events_def upt_conv_Cons drop_map)
    let ?start = "now_ns clk (fst s)"
    obtain r' w' q where 3: "replay_loop no_faults clk rate cb (inject_ns ?ev) ?start ?r2 w2 (cb ?ev ?start (Clock_read ?start # fst s, snd s)) =
        map_option (\<lambda>s'. (r', w', s')) (replay_list clk rate cb (inject_ns ?ev) ?start (drop 1 (capture_events c))
          (cb ?ev ?start (Clock_read ?start # fst s, snd s)))" "reading c q F r' w'" by (rule replay_loop_list [OF n])
    have "replay_at_rate no_faults clk rate cb r w s = map_option (\<lambda>s'. (r', w', s')) (replay_events clk rate cb (capture_events c) s)"
      unfolding replay_events_def by (subst e) (use False f 3(1) in \<open>simp add: replay_at_rate_def 1(1) 2(1) PcapReader_clock_ns_now Let_def\<close>)
    then show thesis using 3(2) by (rule that)
  qed
qed

section \<open>Schedule\<close>

text \<open>Whatever the callback, it is called at a moment when the target time has been reached.\<close>

lemma replay_step_on_time:
  assumes "replay_offset rate (inject_ns ev - origin) = Some off" "clock_monotone clk" "sleeps_fully clk" "genuine clk tr"
  obtains tr' where "replay_step clk rate cb origin start ev (tr, acc) = Some (cb ev (start + off) (tr', acc))"
    "start + off \<le> now_ns clk tr'" "genuine clk tr'" "readings tr' = readings tr @ [now_ns clk tr]"
proof -
  let ?t = "start + off" and ?now = "now_ns clk tr"
  show thesis
  proof (cases "?now < ?t")
    case True
    let ?d = "?t - ?now"
    let ?tr = "Nanosleep (?d div 1000000000) (?d mod 1000000000) # Clock_read ?now # tr"
    have "unat ?d = unat ?t - unat ?now" using True by (intro unat_sub) simp
    then have d: "unat ?now + unat (?d div 1000000000) * 1000000000 + unat (?d mod 1000000000) = unat ?t"
      using True div_mult_mod_eq [of "unat ?d" 1000000000] by (simp add: unat_div unat_mod word_less_nat_alt add.assoc)
    have "unat ?t < 2 ^ LENGTH(64)" by (rule unsigned_less)
    then have "unat ?t < 2 ^ 64" by simp
    with assms(3) [unfolded sleeps_fully_def Let_def, rule_format, OF assms(4), of "?d div 1000000000" "?d mod 1000000000", unfolded d]
    have "unat ?t \<le> unat (now_ns clk ?tr)" .
    then have "?t \<le> now_ns clk ?tr" by (simp add: word_le_nat_alt)
    moreover have "replay_step clk rate cb origin start ev (tr, acc) = Some (cb ev ?t (?tr, acc))"
      using True by (simp add: replay_step_def assms(1) PcapReader_clock_ns_now Let_def)
    ultimately show thesis using assms(4) by (intro that [of ?tr]) simp_all
  next
    case False
    let ?tr = "Clock_read ?now # tr"
    have "?now \<le> now_ns clk ?tr" using assms(2,4) by (simp add: clock_monotone_def)
    then have "?t \<le> now_ns clk ?tr" using False by simp
    moreover have "replay_step clk rate cb origin start ev (tr, acc) = Some (cb ev ?t (?tr, acc))"
      using False by (simp add: replay_step_def assms(1) PcapReader_clock_ns_now Let_def)
    ultimately show thesis using assms(4) by (intro that [of ?tr]) simp_all
  qed
qed

lemma replay_list_log:
  assumes "\<forall>ev \<in> set evs. replay_offset rate (inject_ns ev - origin) \<noteq> None" "clock_monotone clk" "sleeps_fully clk" "genuine clk tr"
  obtains tr' es where "replay_list clk rate log_cb origin start evs (tr, entries) = Some (tr', entries @ es)"
    "map fst es = evs" "map (fst \<circ> snd) es = map (\<lambda>ev. start + the (replay_offset rate (inject_ns ev - origin))) evs"
    "\<forall>(ev, t, h) \<in> set es. t \<le> now_ns clk h"
  using assms(1,4)
proof (induction evs arbitrary: tr entries thesis)
  case Nil
  show ?case by (rule Nil.prems(1) [of tr "[]"]) simp_all
next
  case (Cons ev evs)
  obtain off where off: "replay_offset rate (inject_ns ev - origin) = Some off" using Cons.prems(2) by auto
  obtain tr1 where 1: "replay_step clk rate log_cb origin start ev (tr, entries) = Some (tr1, entries @ [(ev, start + off, tr1)])"
    "start + off \<le> now_ns clk tr1" "genuine clk tr1"
    using replay_step_on_time [OF off assms(2,3) Cons.prems(3), of log_cb start entries] by (auto simp: log_cb_def)
  have "\<forall>ev \<in> set evs. replay_offset rate (inject_ns ev - origin) \<noteq> None" using Cons.prems(2) by simp
  from this 1(3) obtain tr2 es where 2: "replay_list clk rate log_cb origin start evs (tr1, entries @ [(ev, start + off, tr1)]) = Some (tr2, (entries @ [(ev, start + off, tr1)]) @ es)"
    "map fst es = evs" "map (fst \<circ> snd) es = map (\<lambda>ev. start + the (replay_offset rate (inject_ns ev - origin))) evs"
    "\<forall>(ev, t, h) \<in> set es. t \<le> now_ns clk h" by (rule Cons.IH [rotated])
  show ?case using 1 2 off by (intro Cons.prems(1) [of tr2 "(ev, start + off, tr1) # es"]) (simp_all add: comp_def)
qed

section \<open>Offsets\<close>

lemma double_lit_1: "double_lit 1 = Finite False 1"
proof -
  have "round_mag 1 = 1" using round_mag_nat [of 1] by simp
  moreover have "\<not> (2 :: rat) ^ 1024 \<le> 1" by (simp only: not_le one_less_power)
  ultimately show ?thesis unfolding double_lit_def round_double_def Let_def by (simp only: abs_one if_False) simp
qed

lemma replay_offset_finite:
  assumes "0 < b"
  shows "replay_offset (Finite False b) d =
    (let a = round_mag (round_mag (of_nat (unat d)) / b) in if a < 2 ^ 64 then Some (of_int \<lfloor>a\<rfloor>) else None)"
proof -
  have "0 \<le> round_mag (of_nat (unat d)) / b" using assms by (intro divide_nonneg_pos round_mag_nonneg of_nat_0_le_iff)
  from u64_of_round [OF this] show ?thesis using assms
    unfolding replay_offset_def double_of_u64_finite double_div.simps Let_def by simp
qed

lemma replay_offset_mono:
  assumes "0 < b" "d \<le> d'" "replay_offset (Finite False b) d' = Some o'"
  obtains off where "replay_offset (Finite False b) d = Some off" "off \<le> o'"
proof -
  let ?a = "\<lambda>d :: u64. round_mag (round_mag (of_nat (unat d)) / b)"
  have n: "0 \<le> round_mag (of_nat (unat d)) / b" using assms(1) by (intro divide_nonneg_pos round_mag_nonneg of_nat_0_le_iff)
  have "(of_nat (unat d) :: rat) \<le> of_nat (unat d')" using assms(2) unfolding of_nat_le_iff word_le_nat_alt .
  then have "round_mag (of_nat (unat d)) / b \<le> round_mag (of_nat (unat d')) / b"
    using assms(1) by (intro divide_right_mono round_mag_mono of_nat_0_le_iff) simp_all
  then have le: "?a d \<le> ?a d'" using n by (intro round_mag_mono)
  have lt: "?a d' < 2 ^ 64" and o': "o' = of_int \<lfloor>?a d'\<rfloor>"
    using assms(3) unfolding replay_offset_finite [OF assms(1)] Let_def by (simp_all split: if_splits)
  have lt': "?a d < 2 ^ 64" "0 \<le> ?a d" "0 \<le> ?a d'" using le lt round_mag_nonneg [OF n] by linarith+
  have "nat \<lfloor>?a d\<rfloor> \<le> nat \<lfloor>?a d'\<rfloor>" using le by (intro nat_mono floor_mono)
  then have "(of_int \<lfloor>?a d\<rfloor> :: u64) \<le> o'"
    unfolding o' word_le_nat_alt u64_of_double_floor(2) [OF lt'(2,1)] u64_of_double_floor(2) [OF lt'(3) lt] .
  moreover have "replay_offset (Finite False b) d = Some (of_int \<lfloor>?a d\<rfloor>)"
    unfolding replay_offset_finite [OF assms(1)] Let_def using lt'(1) by simp
  ultimately show thesis by (intro that)
qed

lemma replay_offset_defined:
  assumes "1 / 1024 \<le> b" "unat d \<le> 2 ^ 53"
  shows "replay_offset (Finite False b) d \<noteq> None"
proof -
  have b: "0 < b" using assms(1) by linarith
  let ?d = "of_nat (unat d) :: rat"
  have "?d \<le> of_nat (2 ^ 53)" using assms(2) unfolding of_nat_le_iff .
  then have d: "0 \<le> ?d" "?d \<le> 2 ^ 53" by (simp_all only: of_nat_0_le_iff of_nat_power of_nat_numeral)
  have "?d / b \<le> 2 ^ 53 / (1 / 1024)" using d assms(1) by (intro frac_le) simp_all
  also have "\<dots> = (2 :: rat) ^ 63" by simp
  finally have "round_mag (?d / b) \<le> 2 ^ 63" using b d(1) by (intro round_mag_le_fixed round_mag_pow2) simp_all
  also have "\<dots> < (2 :: rat) ^ 64" by simp
  finally show ?thesis unfolding replay_offset_finite [OF b] round_mag_nat [OF assms(2)] Let_def by (simp only: if_True) simp
qed

lemma replay_offset_one:
  assumes "unat d \<le> 2 ^ 53"
  shows "replay_offset (double_lit 1) d = Some d"
proof -
  have "(of_nat (unat d) :: rat) \<le> of_nat (2 ^ 53)" using assms unfolding of_nat_le_iff .
  also have "\<dots> < 2 ^ 64" by simp
  finally have "(of_nat (unat d) :: rat) < 2 ^ 64" .
  then show ?thesis
    unfolding double_lit_1 replay_offset_finite [OF zero_less_one] round_mag_nat [OF assms] div_by_1 Let_def floor_of_nat by simp
qed

lemma replay_offset_top:
  assumes "0 < k" "k \<le> 1024"
  shows "replay_offset (double_lit 1) (- of_nat k) = None"
proof -
  have n: "k < 2 ^ 64" using assms(2) by simp
  have "(- of_nat k :: u64) = of_nat (2 ^ 64 - k)" using n by (simp add: of_nat_diff)
  then have "unat (- of_nat k :: u64) = 2 ^ 64 - k" using assms(1) by (simp add: unat_of_nat take_bit_nat_eq_self del: of_nat_diff)
  then have "(of_nat (unat (- of_nat k :: u64)) :: rat) = of_nat (2 ^ 64 - k)" by (simp only:)
  also have "\<dots> = 2 ^ 64 - of_nat k" using n by (subst of_nat_diff) simp_all
  finally have r: "round_mag (of_nat (unat (- of_nat k :: u64))) = 2 ^ 64" using round_mag_near_top [OF assms] by (simp only:)
  show ?thesis unfolding double_lit_1 replay_offset_finite [OF zero_less_one] r div_by_1 round_mag_pow2 Let_def by simp
qed

section \<open>Properties\<close>

text \<open>
  (C19) The replay schedule, for any positive finite rate. Let \<open>start\<close> be the clock when the replay begins. The callback gets exactly the events of
  the capture, in file order. The first is scheduled at \<open>start\<close>, every other one at \<open>start\<close> plus its distance from the first event divided by
  the rate, where distance and quotient are rounded to the nearest double and the result is cut to an integer: for distances up to \<open>2 ^ 53\<close> ns
  that is the exact quotient up to one nanosecond and one part in \<open>2 ^ 53\<close>. No event is delivered before its scheduled time, if the clock
  is monotone and sleeps are not cut short. This holds for every capture whose scaled distances are below \<open>2 ^ 64\<close>.
\<close>

theorem replay_schedule:
  assumes "stdio_ok w" "files w path = Some c" "pr_open no_faults r0 path w = Some (True, r, w1)"
    "capture_events c = first # rest" "0 < b"
    "\<forall>ev \<in> set rest. round_mag (round_mag (of_nat (unat (inject_ns ev - inject_ns first))) / b) < 2 ^ 64"
    "clock_monotone clk" "sleeps_fully clk"
  shows "\<exists>r' w' tr es. replay_at_rate no_faults clk (Finite False b) log_cb r w1 ([], []) = Some (r', w', tr, es) \<and>
    map fst es = capture_events c \<and>
    map (fst \<circ> snd) es = now_ns clk [] #
      map (\<lambda>ev. now_ns clk [] + of_int \<lfloor>round_mag (round_mag (of_nat (unat (inject_ns ev - inject_ns first))) / b)\<rfloor>) rest \<and>
    (\<forall>ev \<in> set rest. let d = unat (inject_ns ev - inject_ns first)
      in d \<le> 2 ^ 53 \<longrightarrow> \<bar>of_int \<lfloor>round_mag (round_mag (of_nat d) / b)\<rfloor> - of_nat d / b\<bar> \<le> 1 + of_nat d / b / 2 ^ 53) \<and>
    (\<forall>(ev, t, h) \<in> set es. t \<le> now_ns clk h)"
proof -
  obtain r2 w2 where "pr_open no_faults r0 path w = Some (valid_header c, r2, w2)"
    "if valid_header c then reading c 24 (streams w) r2 w2 \<and> events_read r2 = 0 \<and> total_events r2 = capture_count c
     else r2 = PcapReader_new \<and> streams w2 = streams w" using assms(1,2) by (rule pr_open_spec)
  then have v: "valid_header c" and rd: "reading c 24 (streams w) r w1" "total_events r = capture_count c" using assms(3) by auto
  have len: "24 \<le> length c" using v by (simp add: valid_header_def)
  let ?rate = "Finite False b" and ?start = "now_ns clk []"
  obtain r' w' p where a: "replay_at_rate no_faults clk ?rate log_cb r w1 ([], []) =
      map_option (\<lambda>s'. (r', w', s')) (replay_events clk ?rate log_cb (capture_events c) ([], []))"
    using rd(1) len rd(2) by (rule replay_at_rate_events)
  have off: "\<forall>ev \<in> set rest. replay_offset ?rate (inject_ns ev - inject_ns first) =
      Some (of_int \<lfloor>round_mag (round_mag (of_nat (unat (inject_ns ev - inject_ns first))) / b)\<rfloor>)"
    using assms(6) by (simp add: replay_offset_finite [OF assms(5)] Let_def)
  then have off': "\<forall>ev \<in> set rest. replay_offset ?rate (inject_ns ev - inject_ns first) \<noteq> None" by simp
  have g: "genuine clk [Clock_read ?start]" by simp
  obtain tr es where l: "replay_list clk ?rate log_cb (inject_ns first) ?start rest ([Clock_read ?start], [(first, ?start, [Clock_read ?start])])
      = Some (tr, [(first, ?start, [Clock_read ?start])] @ es)"
    "map fst es = rest" "map (fst \<circ> snd) es = map (\<lambda>ev. ?start + the (replay_offset ?rate (inject_ns ev - inject_ns first))) rest"
    "\<forall>(ev, t, h) \<in> set es. t \<le> now_ns clk h" using off' assms(7,8) g by (rule replay_list_log)
  have t: "map (fst \<circ> snd) es = map (\<lambda>ev. ?start + of_int \<lfloor>round_mag (round_mag (of_nat (unat (inject_ns ev - inject_ns first))) / b)\<rfloor>) rest"
    unfolding l(3) using off by simp
  have "?start \<le> now_ns clk [Clock_read ?start]" using assms(7) by (simp add: clock_monotone_def)
  moreover have "\<bar>of_int \<lfloor>round_mag (round_mag (of_nat d) / b)\<rfloor> - of_nat d / b\<bar> \<le> 1 + of_nat d / b / 2 ^ 53" if "d \<le> 2 ^ 53" for d
    using floor_round_error [of "of_nat d / b"] assms(5) by (simp add: round_mag_nat [OF that])
  ultimately show ?thesis using l(1,2,4) t
    by (intro exI [of _ r'] exI [of _ w'] exI [of _ tr] exI [of _ "(first, ?start, [Clock_read ?start]) # es"])
      (simp add: a replay_events_def assms(4) log_cb_def comp_def Let_def)
qed

text \<open>
  The scaled distances. At rate 1.0 the distance is kept exactly for captures of up to \<open>2 ^ 53\<close> ns (104 days). For every
  positive rate a later event is never scheduled before an earlier one, and whenever its offset fits into 64 bits so does the earlier
  one's. With a rate of at least 1/1024 all distances up to \<open>2 ^ 53\<close> ns fit.
\<close>

theorem replay_offset_spec:
  assumes "0 < b"
  shows "(unat d \<le> 2 ^ 53 \<longrightarrow> replay_offset (double_lit 1) d = Some d) \<and>
    (d \<le> d' \<and> replay_offset (Finite False b) d' = Some o' \<longrightarrow> (\<exists>off \<le> o'. replay_offset (Finite False b) d = Some off)) \<and>
    (1 / 1024 \<le> b \<and> unat d \<le> 2 ^ 53 \<longrightarrow> replay_offset (Finite False b) d \<noteq> None)"
proof (intro conjI impI)
  show "\<exists>off \<le> o'. replay_offset (Finite False b) d = Some off" if "d \<le> d' \<and> replay_offset (Finite False b) d' = Some o'"
    by (rule replay_offset_mono [OF assms, of d d' o']) (use that in auto)
qed (use replay_offset_one replay_offset_defined in blast)+

text \<open>
  (C38) Captures with out-of-order timestamps. If the second event carries a timestamp up to 1024 ns before the first, the
  64-bit difference wraps, rounds to \<open>2 ^ 64\<close> and the conversion back to \<open>uint64_t\<close> is undefined, at rate 1.0.
\<close>

theorem replay_out_of_order:
  assumes "stdio_ok w" "files w path = Some c" "pr_open no_faults r0 path w = Some (True, r, w1)"
    "capture_events c = first # second # rest" "0 < k" "k \<le> 1024" "inject_ns second = inject_ns first - of_nat k"
  shows "replay_at_rate no_faults clk (double_lit 1) cb r w1 s = None"
proof -
  obtain r2 w2 where "pr_open no_faults r0 path w = Some (valid_header c, r2, w2)"
    "if valid_header c then reading c 24 (streams w) r2 w2 \<and> events_read r2 = 0 \<and> total_events r2 = capture_count c
     else r2 = PcapReader_new \<and> streams w2 = streams w" using assms(1,2) by (rule pr_open_spec)
  then have v: "valid_header c" and rd: "reading c 24 (streams w) r w1" "total_events r = capture_count c" using assms(3) by auto
  have len: "24 \<le> length c" using v by (simp add: valid_header_def)
  obtain r' w' p where a: "replay_at_rate no_faults clk (double_lit 1) cb r w1 s =
      map_option (\<lambda>s'. (r', w', s')) (replay_events clk (double_lit 1) cb (capture_events c) s)"
    using rd(1) len rd(2) by (rule replay_at_rate_events)
  have "replay_offset (double_lit 1) (inject_ns second - inject_ns first) = None"
    using replay_offset_top [OF assms(5,6)] by (simp add: assms(7))
  then show ?thesis by (simp add: a replay_events_def assms(4) replay_step_def Let_def)
qed

section \<open>Instances\<close>

lemma capture_events_capture:
  assumes "\<forall>ev \<in> set evs. event_ok ev" "length evs < 2 ^ 64"
  shows "capture_events (capture_bytes evs) = map recorded evs"
proof -
  have e: "capture_event (capture_bytes evs) i = (if i < length evs then Some (recorded (evs ! i)) else None)" for i
    using assms by (rule capture_event_capture)
  have "i < capture_len (capture_bytes evs) \<longleftrightarrow> i < length evs" for i using e [of i] by (auto simp: capture_event_def split: if_splits)
  then have l: "capture_len (capture_bytes evs) = length evs" by (metis less_irrefl_nat linorder_neqE_nat)
  have "decode_record (drop (24 + kRecordSize * i) (capture_bytes evs)) = recorded (evs ! i)" if "i < length evs" for i
    using e [of i] that by (simp add: capture_event_def l)
  then show ?thesis unfolding capture_events_def l by (intro nth_equalityI) simp_all
qed

lemma timed_events_ok: "\<forall>ev \<in> set (timed_events ts). event_ok ev"
  by (simp add: timed_events_def event_ok_def FeedEvent_new_def)

lemma timed_stdio_open:
  obtains r w where "pr_open no_faults PcapReader_new ''cap'' (timed_stdio ts) = Some (True, r, w)"
proof -
  have "stdio_ok (timed_stdio ts)" by (simp add: timed_stdio_def)
  moreover have "files (timed_stdio ts) ''cap'' = Some (capture_bytes (timed_events ts))" by (simp add: timed_stdio_def)
  ultimately obtain r w where "pr_open no_faults PcapReader_new ''cap'' (timed_stdio ts) = Some (valid_header (capture_bytes (timed_events ts)), r, w)"
    by (rule pr_open_spec)
  then show thesis by (intro that) (simp add: capture_bytes_def)
qed

lemma timed_stdio_facts:
  "stdio_ok (timed_stdio ts)" "files (timed_stdio ts) ''cap'' = Some (capture_bytes (timed_events ts))"
  "length ts < 2 ^ 64 \<Longrightarrow> capture_events (capture_bytes (timed_events ts)) = map recorded (timed_events ts)"
  using capture_events_capture [OF timed_events_ok, of ts] by (simp_all add: timed_stdio_def timed_events_def)

theorem replay_schedule_witness:
  "\<exists>r w1 r' w' tr es. pr_open no_faults PcapReader_new ''cap'' (timed_stdio [1000, 6000]) = Some (True, r, w1) \<and>
    replay_at_rate no_faults sleep_clock (Finite False 2) log_cb r w1 ([], []) = Some (r', w', tr, es) \<and>
    map (fst \<circ> snd) es = [0, 2500] \<and> (\<forall>(ev, t, h) \<in> set es. t \<le> now_ns sleep_clock h)"
proof -
  obtain r w where o: "pr_open no_faults PcapReader_new ''cap'' (timed_stdio [1000, 6000]) = Some (True, r, w)" by (rule timed_stdio_open)
  let ?e = "\<lambda>t. recorded (FeedEvent_new\<lparr>inject_ns := t\<rparr>)"
  have e: "capture_events (capture_bytes (timed_events [1000, 6000])) = ?e 1000 # [?e 6000]"
    using timed_stdio_facts(3) [of "[1000, 6000]"] by (simp add: timed_events_def)
  have i: "inject_ns (?e t) = t" for t by (simp add: recorded_def)
  have d: "round_mag 5000 = 5000" "round_mag 2500 = 2500" using round_mag_nat [of 5000] round_mag_nat [of 2500] by simp_all
  then have "\<forall>ev \<in> set [?e 6000]. round_mag (round_mag (of_nat (unat (inject_ns ev - inject_ns (?e 1000)))) / 2) < 2 ^ 64" by (simp add: i)
  from replay_schedule [OF timed_stdio_facts(1,2) o e _ this sleep_clock_monotone sleep_clock_sleeps]
  show ?thesis using o d by (auto simp: i now_ns_def sleep_clock_def clock_ns_def)
qed

theorem replay_offset_spec_witness:
  "(0 :: rat) < 2 \<and> replay_offset (double_lit 1) 5000 = Some 5000 \<and> replay_offset (Finite False 2) 5000 \<noteq> None \<and>
   (\<exists>off \<le> 3000. replay_offset (Finite False 2) 5000 = Some off)"
proof -
  have "round_mag 6000 = 6000" "round_mag 3000 = 3000" using round_mag_nat [of 6000] round_mag_nat [of 3000] by simp_all
  then have "replay_offset (Finite False 2) 6000 = Some 3000" by (simp add: replay_offset_finite)
  then show ?thesis using replay_offset_spec [of 2 5000 6000 3000] by simp
qed

theorem replay_out_of_order_witness:
  "\<exists>r w1. pr_open no_faults PcapReader_new ''cap'' (timed_stdio [1000, 999]) = Some (True, r, w1) \<and>
    replay_at_rate no_faults sleep_clock (double_lit 1) log_cb r w1 ([], []) = None"
proof -
  obtain r w where o: "pr_open no_faults PcapReader_new ''cap'' (timed_stdio [1000, 999]) = Some (True, r, w)" by (rule timed_stdio_open)
  let ?e = "\<lambda>t. recorded (FeedEvent_new\<lparr>inject_ns := t\<rparr>)"
  have e: "capture_events (capture_bytes (timed_events [1000, 999])) = ?e 1000 # ?e 999 # []"
    using timed_stdio_facts(3) [of "[1000, 999]"] by (simp add: timed_events_def)
  have i: "inject_ns (?e 999) = inject_ns (?e 1000) - of_nat 1" by (simp add: recorded_def)
  show ?thesis using replay_out_of_order [OF timed_stdio_facts(1,2) o e _ _ i] o by auto
qed

end
