(* ===== verification/Replay_Tool.thy ===== *)
theory Replay_Tool
  imports Pcap_Replay
begin

text \<open>
  \<open>tools/replay_feed.cpp\<close>: generating a synthetic capture and replaying a capture with drift statistics. What the tool prints is the
  report; texts and number formats are left out. Undefined behaviour (signed overflow, an index outside the vector, a conversion that does not fit) is
  None; an exception that leaves \<open>main\<close> is \<open>Uncaught\<close>.
\<close>

section \<open>Generate\<close>

definition tool_clock_ns :: "clock \<Rightarrow> time_event list \<Rightarrow> u64" where
  "tool_clock_ns clk tr = (let (tv_sec, tv_nsec) = clk tr in tv_sec * 1000000000 + tv_nsec)"

definition synthetic_event :: "u64 \<Rightarrow> u64 \<Rightarrow> FeedEvent" where
  "synthetic_event base_ns i =
     (let ts = base_ns + i * 500000
      in FeedEvent_new\<lparr>inject_ns := ts, receive_ns := ts + 1500, payload_len := ucast kMaxPayload,
           payload := overwrite (replicate (unat kMaxPayload) (ucast (i AND 0xFF))) (le_bytes 8 ts)\<rparr>)"

fun generate_loop :: "io_plan \<Rightarrow> u64 \<Rightarrow> u64 \<Rightarrow> nat \<Rightarrow> PcapWriter \<Rightarrow> stdio \<Rightarrow> (bool \<times> PcapWriter \<times> stdio) option" where
  "generate_loop plan base_ns i 0 wr w = Some (True, wr, w)"
| "generate_loop plan base_ns i (Suc k) wr w =
     do {
       (ok, wr1, w1) \<leftarrow> write_event plan wr (synthetic_event base_ns i) w;
       if ok then generate_loop plan base_ns (i + 1) k wr1 w1 else Some (False, wr1, w1)
     }"

definition do_generate ::
  "io_plan \<Rightarrow> clock \<Rightarrow> string \<Rightarrow> u64 \<Rightarrow> stdio \<Rightarrow> time_event list \<Rightarrow> (int \<times> stdio \<times> time_event list) option" where
  "do_generate plan clk path count w tr =
     do {
       (wr, w1) \<leftarrow> PcapWriter_new plan path w;
       if \<not> pw_is_open wr then do { w2 \<leftarrow> PcapWriter_destroy plan wr w1; Some (1, w2, tr) }
       else do {
         let base_ns = tool_clock_ns clk tr;
         (ok, wr1, w2) \<leftarrow> generate_loop plan base_ns 0 (unat count) wr w1;
         w3 \<leftarrow> PcapWriter_destroy plan wr1 w2;
         Some (if ok then 0 else 1, w3, Clock_read base_ns # tr)
       }
     }"

section \<open>Replay\<close>

definition in_i64 :: "int \<Rightarrow> bool" where
  "in_i64 d \<longleftrightarrow> - (2 ^ 63) \<le> d \<and> d < 2 ^ 63"

text \<open>The callback: the drifts are exact integers here; whether they fit is checked in \<open>drift_report\<close>.\<close>

definition drift_cb :: "clock \<Rightarrow> int list callback" where
  "drift_cb clk ev scheduled_ns s =
     (let now = tool_clock_ns clk (fst s)
      in (Clock_read now # fst s, snd s @ [sint now - sint scheduled_ns]))"

fun sum_i64 :: "int \<Rightarrow> int list \<Rightarrow> int option" where
  "sum_i64 acc [] = Some acc"
| "sum_i64 acc (d # ds) = (if in_i64 (acc + d) then sum_i64 (acc + d) ds else None)"

definition double_of_i64 :: "int \<Rightarrow> double" where
  "double_of_i64 x = round_double (x < 0) (of_int \<bar>x\<bar>)"

definition drift_pct :: "int list \<Rightarrow> u64 \<Rightarrow> rat \<Rightarrow> int option" where
  "drift_pct drifts count p =
     do {
       idx \<leftarrow> u64_of_double (double_mul (double_lit p) (double_of_u64 (count - 1)));
       if unat idx < length drifts then Some (drifts ! unat idx) else None
     }"

record replay_report =
  rr_count :: u64
  rr_total :: u64
  rr_mean :: double
  rr_min :: int
  rr_p50 :: int
  rr_p99 :: int
  rr_max :: int

definition drift_report :: "u64 \<Rightarrow> int list \<Rightarrow> replay_report option" where
  "drift_report tot drifts0 =
     (if \<not> list_all in_i64 drifts0 then None
      else do {
        let count = of_nat (length drifts0);
        let drifts = sort drifts0;
        s \<leftarrow> sum_i64 0 drifts;
        p50 \<leftarrow> drift_pct drifts count (1 / 2);
        p99 \<leftarrow> drift_pct drifts count (99 / 100);
        Some \<lparr>rr_count = count, rr_total = tot, rr_mean = double_div (double_of_i64 s) (double_of_u64 count),
          rr_min = hd drifts, rr_p50 = p50, rr_p99 = p99, rr_max = last drifts\<rparr>
      })"

datatype tool_exit = Exit int | Uncaught

text \<open>
  \<open>drifts.reserve(total)\<close> throws when \<open>total\<close> exceeds \<open>max_size()\<close> of a vector of 8-byte elements or the heap (\<open>alloc_ok\<close>) cannot
  provide the memory.
\<close>

definition reserve_throws :: "(u64 \<Rightarrow> bool) \<Rightarrow> u64 \<Rightarrow> bool" where
  "reserve_throws alloc_ok tot \<longleftrightarrow> unat tot > 2 ^ 60 - 1 \<or> \<not> alloc_ok tot"

definition do_replay ::
  "io_plan \<Rightarrow> (u64 \<Rightarrow> bool) \<Rightarrow> clock \<Rightarrow> string \<Rightarrow> double \<Rightarrow> stdio \<Rightarrow> time_event list
   \<Rightarrow> (tool_exit \<times> replay_report option \<times> stdio \<times> time_event list) option" where
  "do_replay plan alloc_ok clk path rate w tr =
     do {
       (ok, r, w1) \<leftarrow> pr_open plan PcapReader_new path w;
       if \<not> ok then do { w2 \<leftarrow> PcapReader_destroy plan r w1; Some (Exit 1, None, w2, tr) }
       else if total_events r = 0 then do { w2 \<leftarrow> PcapReader_destroy plan r w1; Some (Exit 0, None, w2, tr) }
       else if reserve_throws alloc_ok (total_events r) then Some (Uncaught, None, w1, tr)
       else do {
         (r1, w2, tr1, drifts) \<leftarrow> replay_at_rate plan clk rate (drift_cb clk) r w1 (tr, []);
         w3 \<leftarrow> PcapReader_destroy plan r1 w2;
         if drifts = [] then Some (Exit 0, None, w3, tr1)
         else do { report \<leftarrow> drift_report (total_events r) drifts; Some (Exit 0, Some report, w3, tr1) }
       }
     }"

section \<open>Generated captures\<close>

definition synthetic_events :: "u64 \<Rightarrow> nat \<Rightarrow> FeedEvent list" where
  "synthetic_events base_ns n = map (\<lambda>i. synthetic_event base_ns (of_nat i)) [0..<n]"

lemma tool_clock_ns_now: "tool_clock_ns clk tr = now_ns clk tr"
  by (simp add: tool_clock_ns_def now_ns_def clock_ns_def)

lemma synthetic_event_ok: "event_ok (synthetic_event b i)"
  by (simp add: synthetic_event_def event_ok_def FeedEvent_new_def Let_def)

lemma generate_loop_events:
  assumes "write_events plan wr (map (\<lambda>j. synthetic_event b (of_nat j)) [i..<i + k]) w = Some (replicate k True, wr', w')"
  shows "generate_loop plan b (of_nat i) k wr w = Some (True, wr', w')"
  using assms
proof (induction k arbitrary: i wr w)
  case (Suc k)
  have u: "[i..<i + Suc k] = i # [Suc i..<Suc i + k]" by (simp add: upt_conv_Cons)
  from Suc.prems obtain wr1 w1 where 1: "write_event plan wr (synthetic_event b (of_nat i)) w = Some (True, wr1, w1)"
    "write_events plan wr1 (map (\<lambda>j. synthetic_event b (of_nat j)) [Suc i..<Suc i + k]) w1 = Some (replicate k True, wr', w')"
    unfolding u by (auto split: bind_splits)
  show ?case using Suc.IH [OF 1(2)] by (simp add: 1(1) add.commute)
qed simp

lemma do_generate_quiet:
  assumes "stdio_ok w"
  obtains w' where "do_generate no_faults clk path count w tr = Some (0, w', Clock_read (now_ns clk tr) # tr)"
    "files w' = (files w)(path \<mapsto> capture_bytes (synthetic_events (now_ns clk tr) (unat count)))" "streams w' = streams w" "stdio_ok w'"
proof -
  let ?evs = "synthetic_events (now_ns clk tr) (unat count)"
  obtain w' where 1: "write_capture no_faults path ?evs w = Some (replicate (length ?evs) True, w')"
    "files w' = (files w)(path \<mapsto> capture_bytes ?evs)" "streams w' = streams w" "stdio_ok w'"
    using assms by (rule write_capture_quiet)
  from 1(1) obtain wr0 w0 wr1 w1 where 2: "PcapWriter_new no_faults path w = Some (wr0, w0)"
    "write_events no_faults wr0 ?evs w0 = Some (replicate (length ?evs) True, wr1, w1)" "PcapWriter_destroy no_faults wr1 w1 = Some w'"
    by (auto simp: write_capture_def split: bind_splits)
  have o: "pw_is_open wr0" using 2(1) assms
    by (auto simp: PcapWriter_new_def fopen_wb_def open_stream_def pw_is_open_def stdio_ok_def split: bind_splits)
  have "generate_loop no_faults (now_ns clk tr) (of_nat 0) (unat count) wr0 w0 = Some (True, wr1, w1)"
    using 2(2) by (intro generate_loop_events) (simp add: synthetic_events_def)
  then have "do_generate no_faults clk path count w tr = Some (0, w', Clock_read (now_ns clk tr) # tr)"
    using o by (simp add: do_generate_def 2(1,3) tool_clock_ns_now)
  then show thesis using 1(2-4) by (rule that)
qed

section \<open>Statistics\<close>

lemma double_lit_unit:
  assumes "0 \<le> p" "p \<le> 1"
  shows "double_lit p = Finite False (round_mag p)" "0 \<le> round_mag p" "round_mag p \<le> 1"
proof -
  have "round_mag 1 = 1" using round_mag_nat [of 1] by simp
  then show "round_mag p \<le> 1" using assms by (intro round_mag_le_fixed)
  have "p \<le> 2 ^ 64" using assms(2) by simp
  from round_double_finite [OF assms(1) this] show "double_lit p = Finite False (round_mag p)" "0 \<le> round_mag p"
    using assms by (simp_all add: double_lit_def)
qed

definition pct_index :: "nat \<Rightarrow> rat \<Rightarrow> nat" where
  "pct_index n p = nat \<lfloor>round_mag (round_mag p * of_nat (n - 1))\<rfloor>"

lemma pct_index_mono:
  assumes "0 \<le> p" "p \<le> q"
  shows "pct_index n p \<le> pct_index n q"
  unfolding pct_index_def
proof (intro nat_mono floor_mono round_mag_mono)
  show "0 \<le> round_mag p * of_nat (n - 1)" using assms(1) by simp
  show "round_mag p * of_nat (n - 1) \<le> round_mag q * of_nat (n - 1)" using assms by (intro mult_right_mono round_mag_mono) simp_all
qed

lemma drift_pct_index:
  assumes "0 \<le> p" "p \<le> 1" "0 < length ds" "length ds \<le> 2 ^ 53"
  shows "drift_pct ds (of_nat (length ds)) p = Some (ds ! pct_index (length ds) p)" "pct_index (length ds) p < length ds"
proof -
  obtain m where m: "length ds = Suc m" using assms(3) by (cases "length ds") auto
  then have u: "unat (of_nat (length ds) - 1 :: u64) = length ds - 1"
    using assms(4) by (simp add: unat_of_nat take_bit_nat_eq_self)
  then have le: "unat (of_nat (length ds) - 1 :: u64) \<le> 2 ^ 53" using assms(4) by simp
  note p = double_lit_unit [OF assms(1,2)]
  obtain i where i: "u64_of_double (double_mul (Finite False (round_mag p)) (double_of_u64 (of_nat (length ds) - 1))) = Some i"
    "unat i \<le> length ds - 1" "unat i = pct_index (length ds) p"
    using scaled_index [OF p(2,3) le] unfolding u pct_index_def by blast
  then show "pct_index (length ds) p < length ds" using m by simp
  then show "drift_pct ds (of_nat (length ds)) p = Some (ds ! pct_index (length ds) p)" using i by (simp add: drift_pct_def p(1))
qed

lemma sum_i64_ok:
  "\<forall>d \<in> set ds. \<bar>d\<bar> \<le> B \<Longrightarrow> \<bar>acc\<bar> + B * int (length ds) < 2 ^ 63 \<Longrightarrow> sum_i64 acc ds = Some (acc + sum_list ds)"
proof (induction ds arbitrary: acc)
  case (Cons d ds)
  have "\<bar>d\<bar> \<le> B" "0 \<le> B" using Cons.prems(1) by auto
  moreover have "0 \<le> B * int (length ds)" using \<open>0 \<le> B\<close> by simp
  ultimately have "\<bar>acc + d\<bar> + B * int (length ds) < 2 ^ 63" using Cons.prems(2) by (simp add: algebra_simps)
  moreover from this have "in_i64 (acc + d)" using \<open>0 \<le> B * int (length ds)\<close> unfolding in_i64_def by linarith
  ultimately show ?case using Cons by (simp add: add.assoc)
qed simp

lemma sum_list_sorted: "sum_list (sort ds) = sum_list (ds :: int list)"
proof -
  have "sum_list (insort x xs) = x + sum_list xs" for x :: int and xs by (induction xs) simp_all
  then show ?thesis by (induction ds) simp_all
qed

lemma sort_ends:
  fixes ds :: "'a::linorder list"
  assumes "ds \<noteq> []"
  shows "hd (sort ds) = Min (set ds)" "last (sort ds) = Max (set ds)"
proof -
  let ?s = "sort ds"
  have n: "?s \<noteq> []" using assms by (metis length_0_conv length_sort)
  have e: "hd ?s = ?s ! 0" "last ?s = ?s ! (length ds - 1)" using hd_conv_nth [OF n] last_conv_nth [OF n] by simp_all
  have le: "hd ?s \<le> x \<and> x \<le> last ?s" if x: "x \<in> set ds" for x
  proof -
    obtain k where k: "k < length ds" "x = ?s ! k" using x in_set_conv_nth [of x ?s] by auto
    show ?thesis unfolding e k(2) using k(1) by (intro conjI sorted_nth_mono) simp_all
  qed
  have m: "hd ?s \<in> set ds" "last ?s \<in> set ds" using hd_in_set [OF n] last_in_set [OF n] by simp_all
  show "hd ?s = Min (set ds)" using le m by (intro Min_eqI [symmetric]) simp_all
  show "last ?s = Max (set ds)" using le m by (intro Max_eqI [symmetric]) simp_all
qed

lemma drift_report_ok:
  assumes "drifts \<noteq> []" "length drifts \<le> 2 ^ 53" "\<forall>d \<in> set drifts. \<bar>d\<bar> \<le> B" "B * int (length drifts) < 2 ^ 63"
  shows "\<exists>rep. drift_report tot drifts = Some rep \<and> rr_count rep = of_nat (length drifts) \<and> rr_total rep = tot \<and>
    rr_mean rep = double_div (double_of_i64 (sum_list drifts)) (double_of_u64 (of_nat (length drifts))) \<and>
    rr_min rep = Min (set drifts) \<and> rr_max rep = Max (set drifts) \<and> {rr_p50 rep, rr_p99 rep} \<subseteq> set drifts \<and>
    rr_min rep \<le> rr_p50 rep \<and> rr_p50 rep \<le> rr_p99 rep \<and> rr_p99 rep \<le> rr_max rep"
proof -
  let ?s = "sort drifts" and ?n = "length drifts"
  let ?i = "pct_index ?n (1 / 2)" and ?j = "pct_index ?n (99 / 100)"
  have n: "0 < length ?s" "length ?s \<le> 2 ^ 53" using assms(1,2) by simp_all
  have B: "0 \<le> B" using assms(1,3) by (metis abs_ge_zero order_trans list.set_sel(1))
  have "B * 1 \<le> B * int ?n" using assms(1) B by (intro mult_left_mono) (simp_all add: Suc_le_eq)
  then have "in_i64 d" if "d \<in> set drifts" for d using assms(3,4) that by (force simp: in_i64_def)
  then have all: "list_all in_i64 drifts" by (simp add: list_all_iff)
  have s: "sum_i64 0 ?s = Some (sum_list drifts)" using sum_i64_ok [of ?s B 0] assms(3,4) by (simp add: sum_list_sorted)
  note p = drift_pct_index [OF _ _ n, of "1 / 2"] drift_pct_index [OF _ _ n, of "99 / 100"]
  have ij: "?i \<le> ?j" by (rule pct_index_mono) simp_all
  have lt: "?i < ?n" "?j < ?n" using p by simp_all
  have so: "?s ! a \<le> ?s ! b" if "a \<le> b" "b < ?n" for a b using that by (intro sorted_nth_mono) simp_all
  have e: "hd ?s = ?s ! 0" "last ?s = ?s ! (?n - 1)" using n hd_conv_nth [of ?s] last_conv_nth [of ?s] by fastforce+
  have "?s ! ?i \<in> set drifts" "?s ! ?j \<in> set drifts" using lt by (metis length_sort nth_mem set_sort)+
  moreover have "hd ?s \<le> ?s ! ?i" "?s ! ?i \<le> ?s ! ?j" "?s ! ?j \<le> last ?s" unfolding e using lt ij by (auto intro!: so)
  moreover have "drift_report tot drifts = Some \<lparr>rr_count = of_nat ?n, rr_total = tot,
      rr_mean = double_div (double_of_i64 (sum_list drifts)) (double_of_u64 (of_nat ?n)),
      rr_min = hd ?s, rr_p50 = ?s ! ?i, rr_p99 = ?s ! ?j, rr_max = last ?s\<rparr>"
    using p(1,3) by (simp add: drift_report_def all s Let_def)
  ultimately show ?thesis using sort_ends [OF assms(1)] by simp
qed

lemma drift_report_defined:
  assumes "drifts \<noteq> []" "length drifts \<le> 2 ^ 53" "\<forall>d \<in> set drifts. \<bar>d\<bar> * int (length drifts) < 2 ^ 63"
  shows "drift_report tot drifts \<noteq> None"
proof -
  let ?B = "Max (abs ` set drifts)"
  have "?B \<in> abs ` set drifts" using assms(1) by (intro Max_in) simp_all
  then have "?B * int (length drifts) < 2 ^ 63" using assms(3) by auto
  moreover have "\<forall>d \<in> set drifts. \<bar>d\<bar> \<le> ?B" by simp
  ultimately show ?thesis using drift_report_ok [OF assms(1,2), of ?B tot] by auto
qed

text \<open>
  (C31) The drift statistics. For at most \<open>2 ^ 53\<close> drifts whose sum cannot overflow, the report is computed without undefined behaviour: no
  index leaves the vector, the count is the number of drifts, minimum and maximum are those of the drifts, both percentiles are drifts, and
  min <= p50 <= p99 <= max.
\<close>

theorem drift_report_spec:
  assumes "drifts \<noteq> []" "length drifts \<le> 2 ^ 53" "\<forall>d \<in> set drifts. \<bar>d\<bar> \<le> B" "B * int (length drifts) < 2 ^ 63"
  shows "\<exists>rep. drift_report tot drifts = Some rep \<and> rr_count rep = of_nat (length drifts) \<and> rr_total rep = tot \<and>
    rr_mean rep = double_div (double_of_i64 (sum_list drifts)) (double_of_u64 (of_nat (length drifts))) \<and>
    rr_min rep = Min (set drifts) \<and> rr_max rep = Max (set drifts) \<and> {rr_p50 rep, rr_p99 rep} \<subseteq> set drifts \<and>
    rr_min rep \<le> rr_p50 rep \<and> rr_p50 rep \<le> rr_p99 rep \<and> rr_p99 rep \<le> rr_max rep"
  using assms by (rule drift_report_ok)

theorem drift_report_spec_witness:
  "\<exists>rep. drift_report 3 [700, - 20, 90] = Some rep \<and> rr_min rep = - 20 \<and> rr_max rep = 700 \<and> {rr_p50 rep, rr_p99 rep} \<subseteq> {700, - 20, 90}"
  using drift_report_spec [of "[700, - 20, 90]" 1000 3] by force

section \<open>Replaying\<close>

text \<open>
  The drifts of a replay, from the clock readings \<open>rs\<close> it makes. There are two for each event: one to decide about the sleep (for the first event, the start
  of the replay) and one in the callback, after the target has been reached. The drift is the second one minus the target.
\<close>

definition drifts_at :: "u64 list \<Rightarrow> u64 list \<Rightarrow> int list \<Rightarrow> bool" where
  "drifts_at targets rs ds \<longleftrightarrow> length rs = 2 * length targets \<and> length ds = length targets \<and>
     (\<forall>i < length targets. targets ! i \<le> rs ! (2 * i + 1) \<and> ds ! i = sint (rs ! (2 * i + 1)) - sint (targets ! i))"

lemma sint_small:
  fixes x :: u64
  assumes "unat x < 2 ^ 63"
  shows "sint x = uint x"
proof -
  have "int (unat x) < int (2 ^ 63)" using assms by (subst of_nat_less_iff)
  then have "uint x < 2 ^ 63" by simp
  then have "signed_take_bit 63 (uint x) = uint x" by (intro signed_take_bit_int_eq_self) (simp_all add: order_trans [OF _ uint_ge_0])
  then show ?thesis by (simp add: sint_uint)
qed

lemma drift_nonneg:
  fixes now t :: u64
  assumes "t \<le> now" "unat now < 2 ^ 63"
  shows "0 \<le> sint now - sint t"
proof -
  have "unat t < 2 ^ 63" using assms by (auto simp: word_le_nat_alt)
  then show ?thesis using assms by (simp add: sint_small word_le_def)
qed

lemma drifts_at_Nil [simp]: "drifts_at [] [] []"
  by (simp add: drifts_at_def)

lemma drifts_at_Cons:
  assumes "drifts_at ts rs ds" "t \<le> c"
  shows "drifts_at (t # ts) (a # c # rs) ((sint c - sint t) # ds)"
proof -
  have "(t # ts) ! i \<le> (a # c # rs) ! (2 * i + 1) \<and> ((sint c - sint t) # ds) ! i = sint ((a # c # rs) ! (2 * i + 1)) - sint ((t # ts) ! i)"
    if "i < Suc (length ts)" for i using assms that by (cases i) (simp_all add: drifts_at_def)
  then show ?thesis using assms(1) by (simp add: drifts_at_def)
qed

lemma drift_cb_eq: "drift_cb clk ev t (tr, ds) = (Clock_read (now_ns clk tr) # tr, ds @ [sint (now_ns clk tr) - sint t])"
  by (simp add: drift_cb_def tool_clock_ns_now Let_def)

lemma replay_list_drifts:
  assumes "\<forall>ev \<in> set evs. replay_offset rate (inject_ns ev - origin) \<noteq> None" "clock_monotone clk" "sleeps_fully clk" "genuine clk tr"
  obtains tr' rs es where "replay_list clk rate (drift_cb clk) origin start evs (tr, ds) = Some (tr', ds @ es)" "genuine clk tr'"
    "readings tr' = readings tr @ rs" "drifts_at (map (\<lambda>ev. start + the (replay_offset rate (inject_ns ev - origin))) evs) rs es"
  using assms(1,4)
proof (induction evs arbitrary: tr ds thesis)
  case Nil
  show ?case by (rule Nil.prems(1) [of tr "[]" "[]"]) (simp_all add: Nil.prems(3))
next
  case (Cons ev evs)
  obtain off where off: "replay_offset rate (inject_ns ev - origin) = Some off" using Cons.prems(2) by auto
  obtain tr1 where 1: "replay_step clk rate (drift_cb clk) origin start ev (tr, ds) = Some (drift_cb clk ev (start + off) (tr1, ds))"
    "start + off \<le> now_ns clk tr1" "genuine clk tr1" "readings tr1 = readings tr @ [now_ns clk tr]"
    by (rule replay_step_on_time [OF off assms(2,3) Cons.prems(3)])
  let ?c = "now_ns clk tr1" let ?tr = "Clock_read ?c # tr1" and ?d = "sint ?c - sint (start + off)"
  have g: "\<forall>ev \<in> set evs. replay_offset rate (inject_ns ev - origin) \<noteq> None" "genuine clk ?tr" using Cons.prems(2) 1(3) by simp_all
  obtain tr2 rs es where 2: "replay_list clk rate (drift_cb clk) origin start evs (?tr, ds @ [?d]) = Some (tr2, (ds @ [?d]) @ es)" "genuine clk tr2"
    "readings tr2 = readings ?tr @ rs" "drifts_at (map (\<lambda>ev. start + the (replay_offset rate (inject_ns ev - origin))) evs) rs es"
    by (rule Cons.IH [OF _ g])
  have "replay_list clk rate (drift_cb clk) origin start (ev # evs) (tr, ds) = Some (tr2, ds @ ?d # es)"
    using 2(1) by (simp add: 1(1) drift_cb_eq)
  moreover have "drifts_at (map (\<lambda>ev. start + the (replay_offset rate (inject_ns ev - origin))) (ev # evs)) (now_ns clk tr # ?c # rs) (?d # es)"
    using drifts_at_Cons [OF 2(4) 1(2), of "now_ns clk tr"] by (simp add: off)
  ultimately show ?case using 1(4) 2(2,3) by (intro Cons.prems(1) [of tr2 "?d # es" "now_ns clk tr # ?c # rs"]) simp_all
qed

lemma replay_events_drifts:
  assumes "evs = first # rest" "\<forall>ev \<in> set rest. replay_offset rate (inject_ns ev - inject_ns first) \<noteq> None"
    "clock_monotone clk" "sleeps_fully clk" "genuine clk tr"
  obtains tr' rs es where "replay_events clk rate (drift_cb clk) evs (tr, []) = Some (tr', es)" "genuine clk tr'"
    "readings tr' = readings tr @ rs" "hd rs = now_ns clk tr"
    "drifts_at (now_ns clk tr # map (\<lambda>ev. now_ns clk tr + the (replay_offset rate (inject_ns ev - inject_ns first))) rest) rs es"
proof -
  let ?s = "now_ns clk tr" let ?h = "Clock_read ?s # tr" let ?c = "now_ns clk ?h" let ?d = "sint ?c - sint ?s" let ?tr = "Clock_read ?c # ?h"
  have g: "genuine clk ?h" "genuine clk ?tr" using assms(5) by simp_all
  have le: "?s \<le> ?c" using assms(3) g(1) by (simp add: clock_monotone_def)
  obtain tr' rs es where l: "replay_list clk rate (drift_cb clk) (inject_ns first) ?s rest (?tr, [?d]) = Some (tr', [?d] @ es)" "genuine clk tr'"
    "readings tr' = readings ?tr @ rs" "drifts_at (map (\<lambda>ev. ?s + the (replay_offset rate (inject_ns ev - inject_ns first))) rest) rs es"
    using assms(2-4) g(2) by (rule replay_list_drifts)
  have "replay_events clk rate (drift_cb clk) evs (tr, []) = Some (tr', ?d # es)"
    using l(1) by (simp add: replay_events_def assms(1) Let_def drift_cb_eq)
  then show thesis using l(2,3) drifts_at_Cons [OF l(4) le, of ?s] by (intro that [of tr' "?d # es" "?s # ?c # rs"]) simp_all
qed

text \<open>The result of a replay of a capture without faults.\<close>

lemma do_replay_events:
  assumes "stdio_ok w" "files w path = Some c" "valid_header c" "capture_events c \<noteq> []" "\<not> reserve_throws alloc_ok (capture_count c)"
  obtains w' where "do_replay no_faults alloc_ok clk path rate w tr =
      do { (tr', es) \<leftarrow> replay_events clk rate (drift_cb clk) (capture_events c) (tr, []);
           if es = [] then Some (Exit 0, None, w', tr')
           else do { report \<leftarrow> drift_report (capture_count c) es; Some (Exit 0, Some report, w', tr') } }"
    "streams w' = streams w"
proof -
  obtain r w1 where "pr_open no_faults PcapReader_new path w = Some (valid_header c, r, w1)"
    "if valid_header c then reading c 24 (streams w) r w1 \<and> events_read r = 0 \<and> total_events r = capture_count c
     else r = PcapReader_new \<and> streams w1 = streams w" using assms(1,2) by (rule pr_open_spec)
  then have o: "pr_open no_faults PcapReader_new path w = Some (True, r, w1)" "reading c 24 (streams w) r w1" "total_events r = capture_count c"
    using assms(3) by simp_all
  have len: "24 \<le> length c" using assms(3) by (simp add: valid_header_def)
  have nz: "capture_count c \<noteq> 0" using assms(4) by (auto simp: capture_events_def capture_len_def)
  obtain r' w2 p where a: "replay_at_rate no_faults clk rate (drift_cb clk) r w1 (tr, []) =
      map_option (\<lambda>s'. (r', w2, s')) (replay_events clk rate (drift_cb clk) (capture_events c) (tr, []))" "reading c p (streams w) r' w2"
    using o(2) len o(3) by (rule replay_at_rate_events)
  obtain w3 where c: "pr_close no_faults r' w2 = Some (PcapReader_new, w3)" "streams w3 = streams w" using a(2) by (rule pr_close_reading)
  show thesis
    by (rule that [OF _ c(2)], cases "replay_events clk rate (drift_cb clk) (capture_events c) (tr, [])")
      (use nz assms(5) in \<open>simp_all add: do_replay_def o(1,3) a(1) PcapReader_destroy_def c(1) case_prod_beta\<close>)
qed

lemma do_replay_quiet:
  assumes "stdio_ok w" "files w path = Some c" "valid_header c" "capture_events c = first # rest"
    "\<forall>ev \<in> set rest. replay_offset rate (inject_ns ev - inject_ns first) \<noteq> None"
    "clock_monotone clk" "sleeps_fully clk" "genuine clk tr" "\<not> reserve_throws alloc_ok (capture_count c)"
  obtains w' tr' rs es where "do_replay no_faults alloc_ok clk path rate w tr =
      do { report \<leftarrow> drift_report (capture_count c) es; Some (Exit 0, Some report, w', tr') }"
    "streams w' = streams w" "genuine clk tr'" "readings tr' = readings tr @ rs" "hd rs = now_ns clk tr"
    "drifts_at (now_ns clk tr # map (\<lambda>ev. now_ns clk tr + the (replay_offset rate (inject_ns ev - inject_ns first))) rest) rs es"
proof -
  obtain tr' rs es where e: "replay_events clk rate (drift_cb clk) (capture_events c) (tr, []) = Some (tr', es)" "genuine clk tr'"
    "readings tr' = readings tr @ rs" "hd rs = now_ns clk tr"
    "drifts_at (now_ns clk tr # map (\<lambda>ev. now_ns clk tr + the (replay_offset rate (inject_ns ev - inject_ns first))) rest) rs es"
    using assms(4-8) by (rule replay_events_drifts)
  have n: "capture_events c \<noteq> []" "es \<noteq> []" using e(5) assms(4) by (auto simp: drifts_at_def)
  obtain w' where w: "do_replay no_faults alloc_ok clk path rate w tr =
      do { (tr', es) \<leftarrow> replay_events clk rate (drift_cb clk) (capture_events c) (tr, []);
           if es = [] then Some (Exit 0, None, w', tr')
           else do { report \<leftarrow> drift_report (capture_count c) es; Some (Exit 0, Some report, w', tr') } }"
    "streams w' = streams w" by (rule do_replay_events [OF assms(1-3) n(1) assms(9)])
  show thesis by (rule that [OF _ w(2) e(2-5)]) (simp add: w(1) e(1) n(2))
qed

section \<open>Generate under faults\<close>

lemma generate_loop_inv:
  assumes "writer_inv F wr w"
  obtains ok wr' w' where "generate_loop plan b i k wr w = Some (ok, wr', w')" "writer_inv F wr' w'"
    "pw_count wr' = pw_count wr + of_nat k \<or> \<not> ok"
  using assms
proof (induction k arbitrary: i wr w thesis)
  case 0
  show ?case by (rule 0(1) [of True wr w]) (simp_all add: 0(2))
next
  case (Suc k)
  obtain ok wr1 w1 where 1: "write_event plan wr (synthetic_event b i) w = Some (ok, wr1, w1)" "writer_inv F wr1 w1"
    "pw_count wr1 = pw_count wr + (if ok then 1 else 0)" using Suc.prems(2) by (rule writer_inv_write)
  show ?case
  proof (cases ok)
    case True
    obtain ok' wr2 w2 where 2: "generate_loop plan b (i + 1) k wr1 w1 = Some (ok', wr2, w2)" "writer_inv F wr2 w2"
      "pw_count wr2 = pw_count wr1 + of_nat k \<or> \<not> ok'" by (rule Suc.IH [OF _ 1(2)])
    show ?thesis by (rule Suc.prems(1) [of ok' wr2 w2]) (use 1 2 True in \<open>simp_all add: algebra_simps\<close>)
  next
    case False
    show ?thesis by (rule Suc.prems(1) [of False wr1 w1]) (use 1 False in simp_all)
  qed
qed

text \<open>
  Generating a capture is safe under every fault: it terminates with exit status 0 or 1 and without undefined behaviour, and every stream it
  opened is closed again, also when a write fails half way.
\<close>

theorem do_generate_safe:
  assumes "stdio_ok w"
  shows "\<exists>rc w' tr'. do_generate plan clk path n w tr = Some (rc, w', tr') \<and> rc \<in> {0, 1} \<and> dom (streams w') = dom (streams w) \<and> stdio_ok w'"
proof -
  obtain wr w0 where 0: "PcapWriter_new plan path w = Some (wr, w0)" "writer_inv (dom (streams w)) wr w0" using assms by (rule writer_inv_new)
  have fin: "\<exists>w'. PcapWriter_destroy plan wr' w1 = Some w' \<and> dom (streams w') = dom (streams w) \<and> stdio_ok w'"
    if inv: "writer_inv (dom (streams w)) wr' w1" for wr' w1
  proof -
    obtain wr2 w2 where "pw_close plan wr' w1 = Some (wr2, w2)" "writer_inv (dom (streams w)) wr2 w2" "pw_file wr2 = 0" using inv by (rule writer_inv_close)
    then show ?thesis by (simp add: PcapWriter_destroy_def writer_inv_def)
  qed
  obtain ok wr1 w1 where 1: "generate_loop plan (now_ns clk tr) 0 (unat n) wr w0 = Some (ok, wr1, w1)" "writer_inv (dom (streams w)) wr1 w1"
    using 0(2) by (rule generate_loop_inv)
  show ?thesis using fin [OF 0(2)] fin [OF 1(2)] by (auto simp: do_generate_def 0(1) 1(1) tool_clock_ns_now)
qed

theorem do_generate_safe_witness:
  "stdio_ok empty_stdio \<and> (\<exists>rc w' tr'. do_generate short_plan sleep_clock ''c'' 5 empty_stdio [] = Some (rc, w', tr') \<and> rc \<in> {0, 1} \<and>
    dom (streams w') = {})"
proof -
  have "dom (streams empty_stdio) = {}" by (simp add: empty_stdio_def)
  then show ?thesis using do_generate_safe [OF empty_stdio_ok, of short_plan sleep_clock "''c''" 5 "[]"] empty_stdio_ok by fastforce
qed

section \<open>Generate, then replay\<close>

lemma synthetic_capture:
  assumes "0 < n" "n < 2 ^ 64"
  shows "valid_header (capture_bytes (synthetic_events b n))" "capture_count (capture_bytes (synthetic_events b n)) = of_nat n"
    "capture_events (capture_bytes (synthetic_events b n)) =
       recorded (synthetic_event b 0) # map (\<lambda>i. recorded (synthetic_event b (of_nat i))) [1..<n]"
proof -
  have l: "length (synthetic_events b n) = n" by (simp add: synthetic_events_def)
  show "valid_header (capture_bytes (synthetic_events b n))" "capture_count (capture_bytes (synthetic_events b n)) = of_nat n"
    by (simp_all add: capture_bytes_def l)
  have "\<forall>ev \<in> set (synthetic_events b n). event_ok ev" by (auto simp: synthetic_events_def synthetic_event_ok)
  from capture_events_capture [OF this] have "capture_events (capture_bytes (synthetic_events b n)) = map recorded (synthetic_events b n)"
    using assms(2) by (simp add: l)
  then show "capture_events (capture_bytes (synthetic_events b n)) =
       recorded (synthetic_event b 0) # map (\<lambda>i. recorded (synthetic_event b (of_nat i))) [1..<n]"
    using assms(1) by (simp add: synthetic_events_def upt_conv_Cons comp_def)
qed

lemma synthetic_spacing:
  assumes "i * 500000 \<le> 2 ^ 53"
  shows "replay_offset (double_lit 1) (inject_ns (recorded (synthetic_event b (of_nat i))) - inject_ns (recorded (synthetic_event b 0))) =
    Some (of_nat i * 500000)"
proof -
  have "unat (of_nat k :: u64) \<le> k" for k by (simp add: unat_of_nat take_bit_nat_less_eq_self)
  from order_trans [OF this assms] have "unat (of_nat i * 500000 :: u64) \<le> 2 ^ 53" by simp
  then have "replay_offset (double_lit 1) (of_nat i * 500000) = Some (of_nat i * 500000)" by (rule replay_offset_one)
  then show ?thesis by (simp add: recorded_def synthetic_event_def Let_def)
qed

text \<open>
  The two modes of the tool fit together. Without I/O faults, on a clock that never goes back and sleeps for as long as it is asked,
  generating \<open>n\<close> events and replaying the file at rate 1 succeeds: the replay reads the clock twice per event, the i-th event is delivered at or after the
  start plus i times 500 microseconds, its drift is the reading in the callback minus that time, and the stream is closed.
\<close>

lemma generate_then_replay:
  assumes "stdio_ok w" "clock_monotone clk" "sleeps_fully clk" "genuine clk tr"
    "0 < n" "n * 500000 \<le> 2 ^ 53" "\<not> reserve_throws alloc_ok (of_nat n)"
  obtains w1 tr1 w2 tr2 rs drifts where "do_generate no_faults clk path (of_nat n) w tr = Some (0, w1, tr1)"
    "do_replay no_faults alloc_ok clk path (double_lit 1) w1 tr1 =
      map_option (\<lambda>rep. (Exit 0, Some rep, w2, tr2)) (drift_report (of_nat n) drifts)"
    "streams w2 = streams w" "genuine clk tr2" "readings tr2 = readings tr1 @ rs"
    "drifts_at (map (\<lambda>i. hd rs + of_nat i * 500000) [0..<n]) rs drifts"
proof -
  have n: "n < 2 ^ 64" "unat (of_nat n :: u64) = n" using assms(6) by (simp_all add: unat_of_nat take_bit_nat_eq_self)
  let ?c = "capture_bytes (synthetic_events (now_ns clk tr) n)" and ?tr = "Clock_read (now_ns clk tr) # tr"
  let ?ev = "\<lambda>i. recorded (synthetic_event (now_ns clk tr) (of_nat i))" and ?first = "recorded (synthetic_event (now_ns clk tr) 0)"
  obtain w1 where g: "do_generate no_faults clk path (of_nat n) w tr = Some (0, w1, ?tr)"
    "files w1 = (files w)(path \<mapsto> ?c)" "streams w1 = streams w" "stdio_ok w1"
    using do_generate_quiet [OF assms(1), of clk path "of_nat n" tr] unfolding n(2) by blast
  note c = synthetic_capture [OF assms(5) n(1), of "now_ns clk tr"]
  have sp: "replay_offset (double_lit 1) (inject_ns (?ev i) - inject_ns ?first) = Some (of_nat i * 500000)" if "i \<in> set [1..<n]" for i
    using that assms(6) by (intro synthetic_spacing) auto
  have "replay_offset (double_lit 1) (inject_ns ev - inject_ns ?first) \<noteq> None" if e: "ev \<in> set (map ?ev [1..<n])" for ev
  proof -
    obtain i where "i \<in> set [1..<n]" "ev = ?ev i" using e unfolding set_map by blast
    then show ?thesis using sp [of i] by simp
  qed
  then have o: "\<forall>ev \<in> set (map ?ev [1..<n]). replay_offset (double_lit 1) (inject_ns ev - inject_ns ?first) \<noteq> None" by blast
  have f: "files w1 path = Some ?c" "genuine clk ?tr" "\<not> reserve_throws alloc_ok (capture_count ?c)"
    using assms(4,7) by (simp_all add: g(2) c(2))
  obtain w2 tr2 rs es where r: "do_replay no_faults alloc_ok clk path (double_lit 1) w1 ?tr =
      do { report \<leftarrow> drift_report (capture_count ?c) es; Some (Exit 0, Some report, w2, tr2) }"
    "streams w2 = streams w1" "genuine clk tr2" "readings tr2 = readings ?tr @ rs" "hd rs = now_ns clk ?tr"
    "drifts_at (now_ns clk ?tr # map (\<lambda>ev. now_ns clk ?tr + the (replay_offset (double_lit 1) (inject_ns ev - inject_ns ?first))) (map ?ev [1..<n])) rs es"
    by (rule do_replay_quiet [OF g(4) f(1) c(1,3) o assms(2,3) f(2,3)])
  have a: "map (\<lambda>ev. now_ns clk ?tr + the (replay_offset (double_lit 1) (inject_ns ev - inject_ns ?first))) (map ?ev [1..<n]) =
      map (\<lambda>i. hd rs + of_nat i * 500000) [1..<n]" unfolding r(5) map_map by (rule map_cong [OF refl]) (simp add: sp)
  have b: "map (\<lambda>i. hd rs + of_nat i * 500000) [0..<n] = hd rs # map (\<lambda>i. hd rs + of_nat i * 500000) [1..<n]"
    using assms(5) by (simp add: upt_conv_Cons)
  have d: "drifts_at (map (\<lambda>i. hd rs + of_nat i * 500000) [0..<n]) rs es" using r(6) unfolding a unfolding b unfolding r(5) .
  have "do_replay no_faults alloc_ok clk path (double_lit 1) w1 ?tr = map_option (\<lambda>rep. (Exit 0, Some rep, w2, tr2)) (drift_report (of_nat n) es)"
    unfolding r(1) c(2) by (cases "drift_report (of_nat n) es") simp_all
  moreover have "streams w2 = streams w" using r(2) g(3) by simp
  ultimately show thesis using g(1) r(3,4) d by (intro that)
qed

section \<open>A count that cannot be trusted\<close>

text \<open>
  The replay reserves memory for the number of events the header claims, before it reads a record. A header with a count above
  \<open>2 ^ 60 - 1\<close>, in a file of 24 bytes or more, ends the program with an exception that nobody catches, whatever the rest of the file is.
\<close>

theorem do_replay_untrusted_count:
  assumes "stdio_ok w" "files w path = Some c" "valid_header c" "unat (capture_count c) \<ge> 2 ^ 60"
  shows "\<exists>w'. do_replay no_faults alloc_ok clk path rate w tr = Some (Uncaught, None, w', tr)"
proof -
  obtain r w1 where "pr_open no_faults PcapReader_new path w = Some (valid_header c, r, w1)"
    "if valid_header c then reading c 24 (streams w) r w1 \<and> events_read r = 0 \<and> total_events r = capture_count c
     else r = PcapReader_new \<and> streams w1 = streams w" using assms(1,2) by (rule pr_open_spec)
  then have o: "pr_open no_faults PcapReader_new path w = Some (True, r, w1)" "total_events r = capture_count c"
    using assms(3) by simp_all
  have "capture_count c \<noteq> 0" using assms(4) by auto
  then show ?thesis using assms(4) by (simp add: do_replay_def o reserve_throws_def)
qed

theorem do_replay_untrusted_count_witness:
  "\<exists>w'. do_replay no_faults (\<lambda>_. True) sleep_clock ''c'' (double_lit 1) (empty_stdio\<lparr>files := [''c'' \<mapsto> header_bytes 0xFFFFFFFFFFFFFFFF]\<rparr>) [] =
    Some (Uncaught, None, w', [])"
proof -
  have "stdio_ok (empty_stdio\<lparr>files := [''c'' \<mapsto> header_bytes 0xFFFFFFFFFFFFFFFF]\<rparr>)" using empty_stdio_ok by (simp add: stdio_ok_def)
  moreover have "valid_header (header_bytes 0xFFFFFFFFFFFFFFFF @ [])" "capture_count (header_bytes 0xFFFFFFFFFFFFFFFF @ []) = 0xFFFFFFFFFFFFFFFF"
    by (rule valid_header_bytes, rule capture_count_header)
  ultimately show ?thesis by (intro do_replay_untrusted_count [of _ _ "header_bytes 0xFFFFFFFFFFFFFFFF"]) simp_all
qed

end
