(* ===== verification/Number_Text.thy ===== *)
theory Number_Text
  imports Double
begin

text \<open>
  \<open>std::stoull\<close> and \<open>std::stod\<close>, with which \<open>tools/replay_feed.cpp\<close> reads its arguments: C's \<open>strtoull\<close> (base 10) and \<open>strtod\<close>
  in the \<open>C\<close> locale, with the exceptions that the C++ functions make of their failures. Both skip white space, take the longest
  prefix that is a number, and ignore what follows it.
\<close>

section \<open>Scanning\<close>

datatype parse_error = Invalid_argument | Out_of_range

definition is_space :: "char \<Rightarrow> bool" where
  "is_space c \<longleftrightarrow> (let k = of_char c :: nat in k = 32 \<or> 9 \<le> k \<and> k \<le> 13)"

definition hex_digit :: "char \<Rightarrow> nat option" where
  "hex_digit c =
     (let k = of_char c in if 48 \<le> k \<and> k \<le> 57 then Some (k - 48) else if 65 \<le> k \<and> k \<le> 70 then Some (k - 55)
      else if 97 \<le> k \<and> k \<le> 102 then Some (k - 87) else None)"

text \<open>The digits at the front, by a function that gives the value of a digit, and the rest.\<close>

fun scan_digits :: "(char \<Rightarrow> nat option) \<Rightarrow> string \<Rightarrow> nat list \<times> string" where
  "scan_digits f [] = ([], [])"
| "scan_digits f (c # cs) =
     (case f c of None \<Rightarrow> ([], c # cs) | Some d \<Rightarrow> let (ds, rest) = scan_digits f cs in (d # ds, rest))"

definition scan_sign :: "string \<Rightarrow> bool \<times> string" where
  "scan_sign s = (case s of [] \<Rightarrow> (False, []) | c # cs \<Rightarrow> if c = CHR ''-'' then (True, cs) else if c = CHR ''+'' then (False, cs) else (False, s))"

definition digits_value :: "int \<Rightarrow> nat list \<Rightarrow> int" where
  "digits_value b ds = foldl (\<lambda>acc d. b * acc + int d) 0 ds"

definition to_lower :: "char \<Rightarrow> char" where
  "to_lower c = (let k = of_char c :: nat in if 65 \<le> k \<and> k \<le> 90 then char_of (k + 32) else c)"

section \<open>Integers\<close>

text \<open>A minus sign negates the value modulo \<open>2 ^ 64\<close>; it is not an error.\<close>

definition stoull :: "string \<Rightarrow> parse_error + u64" where
  "stoull s =
     (let (neg, s1) = scan_sign (dropWhile is_space s); (ds, rest) = scan_digits digit s1
      in if ds = [] then Inl Invalid_argument
         else if digits_value 10 ds \<ge> 2 ^ 64 then Inl Out_of_range
         else Inr (if neg then - of_int (digits_value 10 ds) else of_int (digits_value 10 ds)))"

section \<open>Floating-point numbers\<close>

text \<open>An exponent: the letter, an optional sign and at least one digit; otherwise nothing is taken and the exponent is 0.\<close>

definition scan_exponent :: "char \<Rightarrow> string \<Rightarrow> int" where
  "scan_exponent letter s =
     (case s of [] \<Rightarrow> 0
      | c # cs \<Rightarrow>
          if to_lower c = letter then
            (let (neg, s1) = scan_sign cs; e = digits_value 10 (fst (scan_digits digit s1)) in if neg then - e else e)
          else 0)"

text \<open>Digits with an optional point: all digits, the number of them behind the point, and the rest.\<close>

definition scan_mantissa :: "(char \<Rightarrow> nat option) \<Rightarrow> string \<Rightarrow> nat list \<times> nat \<times> string" where
  "scan_mantissa f s =
     (let (ds, rest) = scan_digits f s
      in case rest of
           c # cs \<Rightarrow> if c = CHR ''.'' then (let (fs, rest1) = scan_digits f cs in (ds @ fs, length fs, rest1)) else (ds, 0, rest)
         | [] \<Rightarrow> (ds, 0, []))"

text \<open>
  A result that overflows, or that is inexact and smaller than every normal number after rounding to 53 bits, sets \<open>ERANGE\<close>
  (the second as the C library of x86-64 Linux does it).
\<close>

definition strtod_result :: "bool \<Rightarrow> rat \<Rightarrow> parse_error + double" where
  "strtod_result neg q =
     (if 2 ^ 1024 \<le> round_mag q then Inl Out_of_range
      else if q < 2 powi (- 1022) - 2 powi (- 1076) \<and> round_mag q \<noteq> q then Inl Out_of_range
      else Inr (Finite neg (round_mag q)))"

definition strtod_decimal :: "bool \<Rightarrow> string \<Rightarrow> parse_error + double" where
  "strtod_decimal neg s =
     (let (ds, k, rest) = scan_mantissa digit s
      in if ds = [] then Inl Invalid_argument
         else strtod_result neg (of_int (digits_value 10 ds) * 10 powi (scan_exponent CHR ''e'' rest - int k)))"

definition strtod_hex :: "bool \<Rightarrow> string \<Rightarrow> (parse_error + double) option" where
  "strtod_hex neg s =
     (let (ds, k, rest) = scan_mantissa hex_digit s
      in if ds = [] then None
         else Some (strtod_result neg (of_int (digits_value 16 ds) * 2 powi (scan_exponent CHR ''p'' rest - 4 * int k))))"

definition stod :: "string \<Rightarrow> parse_error + double" where
  "stod s =
     (let (neg, s1) = scan_sign (dropWhile is_space s); low = map to_lower s1
      in if take 3 low = ''inf'' then Inr (Infinite neg)
         else if take 3 low = ''nan'' then Inr NaN
         else if take 2 low = ''0x'' then
           (case strtod_hex neg (drop 2 s1) of Some r \<Rightarrow> r | None \<Rightarrow> Inr (Finite neg 0))
         else strtod_decimal neg s1)"

section \<open>What is recognised\<close>

lemma scan_digits_while:
  "scan_digits f s = (map (the \<circ> f) (takeWhile (\<lambda>c. f c \<noteq> None) s), dropWhile (\<lambda>c. f c \<noteq> None) s)"
  by (induction s) (auto split: option.split)

lemma digits_value_snoc: "digits_value b (ds @ [d]) = b * digits_value b ds + int d"
  by (simp add: digits_value_def)

lemma digits_value_sum: "digits_value b ds = (\<Sum>i<length ds. int (ds ! i) * b ^ (length ds - 1 - i))"
proof (induction ds rule: rev_induct)
  case (snoc d ds)
  have "b * (int (ds ! i) * b ^ (length ds - 1 - i)) = int (ds ! i) * b ^ (length ds - i)" if "i < length ds" for i
  proof -
    have "length ds - i = Suc (length ds - 1 - i)" using that by simp
    then show ?thesis by simp
  qed
  then have "b * (\<Sum>i<length ds. int (ds ! i) * b ^ (length ds - 1 - i)) = (\<Sum>i<length ds. int (ds ! i) * b ^ (length ds - i))"
    unfolding sum_distrib_left by (intro sum.cong) simp_all
  then show ?case by (simp add: digits_value_snoc snoc.IH nth_append)
qed (simp add: digits_value_def)

text \<open>The text of an integer: white space, an optional sign, digits, and anything that does not continue the digits.\<close>

definition integer_text :: "string \<Rightarrow> string \<Rightarrow> string \<Rightarrow> string \<Rightarrow> bool" where
  "integer_text ws sg ds rest \<longleftrightarrow> list_all is_space ws \<and> (sg = [] \<or> sg = ''+'' \<or> sg = ''-'') \<and> ds \<noteq> [] \<and>
     list_all (\<lambda>c. digit c \<noteq> None) ds \<and> (rest = [] \<or> digit (hd rest) = None)"

lemma digit_char: "digit c \<noteq> None \<Longrightarrow> \<not> is_space c \<and> c \<noteq> CHR ''-'' \<and> c \<noteq> CHR ''+''"
  by (auto simp: digit_def is_space_def Let_def split: if_splits)

lemma sign_char: "\<not> is_space CHR ''-''" "\<not> is_space CHR ''+''" "digit CHR ''-'' = None" "digit CHR ''+'' = None"
  by code_simp+

lemma scan_integer_text:
  assumes "integer_text ws sg ds rest"
  shows "scan_sign (dropWhile is_space (ws @ sg @ ds @ rest)) = (sg = ''-'', ds @ rest)"
    "scan_digits digit (ds @ rest) = (map (the \<circ> digit) ds, rest)"
proof -
  note t = assms[unfolded integer_text_def]
  obtain d ds' where ds: "ds = d # ds'" using t by (cases ds) auto
  then have d: "\<not> is_space d" "d \<noteq> CHR ''-''" "d \<noteq> CHR ''+''" using t digit_char [of d] by auto
  have "dropWhile is_space (ws @ sg @ ds @ rest) = dropWhile is_space (sg @ ds @ rest)"
    using t by (intro dropWhile_append2) (simp add: list_all_iff)
  also have "\<dots> = sg @ ds @ rest" using t d(1) sign_char(1,2) by (auto simp: ds)
  finally show "scan_sign (dropWhile is_space (ws @ sg @ ds @ rest)) = (sg = ''-'', ds @ rest)"
    using t d by (auto simp: scan_sign_def ds)
  show "scan_digits digit (ds @ rest) = (map (the \<circ> digit) ds, rest)"
  proof -
    let ?P = "\<lambda>c. digit c \<noteq> None"
    have all: "\<forall>c \<in> set ds. ?P c" using t by (simp add: list_all_iff)
    have "takeWhile ?P rest = []" "dropWhile ?P rest = rest" using t by (cases rest; simp)+
    then have "takeWhile ?P (ds @ rest) = ds" "dropWhile ?P (ds @ rest) = rest" using all by (simp_all add: takeWhile_append2 dropWhile_append2)
    then show ?thesis by (simp only: scan_digits_while)
  qed
qed

lemma scan_sign_split: "\<exists>sg. (sg = [] \<or> sg = ''+'' \<or> sg = ''-'') \<and> s = sg @ snd (scan_sign s)"
  by (rule exI [of _ "if s \<noteq> [] \<and> (hd s = CHR ''-'' \<or> hd s = CHR ''+'') then [hd s] else []"]) (cases s; auto simp: scan_sign_def)

lemma integer_text_exists:
  assumes "fst (scan_digits digit (snd (scan_sign (dropWhile is_space s)))) \<noteq> []"
  shows "\<exists>ws sg ds rest. integer_text ws sg ds rest \<and> s = ws @ sg @ ds @ rest"
proof -
  let ?s = "dropWhile is_space s"
  let ?t = "snd (scan_sign ?s)"
  let ?ds = "takeWhile (\<lambda>c. digit c \<noteq> None) ?t" and ?rest = "dropWhile (\<lambda>c. digit c \<noteq> None) ?t"
  obtain sg where g: "sg = [] \<or> sg = ''+'' \<or> sg = ''-''" "?s = sg @ ?t" using scan_sign_split [of ?s] by blast
  have "?rest = [] \<or> digit (hd ?rest) = None" using hd_dropWhile [of "\<lambda>c. digit c \<noteq> None" ?t] by blast
  moreover have "?ds \<noteq> []" using assms by (simp add: scan_digits_while)
  moreover have "list_all (\<lambda>c. digit c \<noteq> None) ?ds" "list_all is_space (takeWhile is_space s)"
    by (auto simp: list_all_iff dest: set_takeWhileD)
  ultimately have "integer_text (takeWhile is_space s) sg ?ds ?rest" using g(1) by (simp add: integer_text_def)
  moreover have "s = takeWhile is_space s @ sg @ ?ds @ ?rest" using g(2) by (metis takeWhile_dropWhile_id)
  ultimately show ?thesis by blast
qed

lemma stoull_digits:
  assumes "integer_text ws sg ds rest"
  shows "stoull (ws @ sg @ ds @ rest) =
    (let v = \<Sum>i<length ds. int (the (digit (ds ! i))) * 10 ^ (length ds - 1 - i)
     in if v < 2 ^ 64 then Inr (if sg = ''-'' then - of_int v else of_int v) else Inl Out_of_range)"
proof -
  have "digits_value 10 (map (the \<circ> digit) ds) = (\<Sum>i<length ds. int (the (digit (ds ! i))) * 10 ^ (length ds - 1 - i))"
    unfolding digits_value_sum by (intro sum.cong) simp_all
  moreover have "ds \<noteq> []" using assms by (simp add: integer_text_def)
  ultimately show ?thesis by (simp add: stoull_def scan_integer_text [OF assms] Let_def)
qed

lemma stoull_invalid:
  assumes "\<nexists>ws sg ds rest. integer_text ws sg ds rest \<and> s = ws @ sg @ ds @ rest"
  shows "stoull s = Inl Invalid_argument"
proof -
  have "fst (scan_digits digit (snd (scan_sign (dropWhile is_space s)))) = []" using assms integer_text_exists by blast
  then show ?thesis by (simp add: stoull_def case_prod_beta)
qed

lemma strtod_result_exact:
  assumes "round_mag q = q" "q < 2 ^ 1024"
  shows "strtod_result neg q = Inr (Finite neg q)"
  using assms by (simp add: strtod_result_def)

end
