(* ===== verification/Replay_Cli.thy ===== *)
theory Replay_Cli
  imports Replay_Tool Number_Text
begin

text \<open>
  \<open>main\<close> of \<open>tools/replay_feed.cpp\<close>: the command line. \<open>argv\<close> is the list of the arguments with the program's name first, so \<open>argc\<close> is its
  length. The exceptions of \<open>std::stoull\<close> and \<open>std::stod\<close> are not caught.
\<close>

definition replay_main ::
  "io_plan \<Rightarrow> (u64 \<Rightarrow> bool) \<Rightarrow> clock \<Rightarrow> string list \<Rightarrow> stdio \<Rightarrow> time_event list
   \<Rightarrow> (tool_exit \<times> replay_report option \<times> stdio \<times> time_event list) option" where
  "replay_main plan alloc_ok clk argv w tr =
     (let argc = length argv
      in if argc < 2 then Some (Exit 1, None, w, tr)
         else if argv ! 1 = ''--generate'' then
           if argc < 3 then Some (Exit 1, None, w, tr)
           else (case (if argc \<ge> 4 then stoull (argv ! 3) else Inr 100) of
                   Inl e \<Rightarrow> Some (Uncaught, None, w, tr)
                 | Inr cnt \<Rightarrow> map_option (\<lambda>(rc, w1, tr1). (Exit rc, None, w1, tr1)) (do_generate plan clk (argv ! 2) cnt w tr))
         else (case (if argc \<ge> 3 then stod (argv ! 2) else Inr (double_lit 1)) of
                 Inl e \<Rightarrow> Some (Uncaught, None, w, tr)
               | Inr rate \<Rightarrow> do_replay plan alloc_ok clk (argv ! 1) rate w tr))"

text \<open>Rates by which no offset can be divided.\<close>

definition useless_rate :: "double \<Rightarrow> bool" where
  "useless_rate rate \<longleftrightarrow> (case rate of NaN \<Rightarrow> True | Infinite s \<Rightarrow> False | Finite s q \<Rightarrow> q = 0)"

lemma useless_rate_offset: "useless_rate rate \<Longrightarrow> replay_offset rate d = None"
  using double_of_u64_finite [of d] by (cases rate) (auto simp: useless_rate_def replay_offset_def)

lemma do_replay_useless_rate:
  assumes "stdio_ok w" "files w path = Some c" "valid_header c" "capture_events c = first # second # rest"
    "\<not> reserve_throws alloc_ok (capture_count c)" "useless_rate rate"
  shows "do_replay no_faults alloc_ok clk path rate w tr = None"
proof -
  have n: "capture_events c \<noteq> []" using assms(4) by simp
  have "replay_events clk rate (drift_cb clk) (capture_events c) (tr, []) = None"
    by (simp add: assms(4) replay_events_def Let_def replay_step_def useless_rate_offset [OF assms(6)])
  then show ?thesis using do_replay_events [OF assms(1-3) n assms(5), of clk rate tr] by fastforce
qed

text \<open>
  (C20) Two runs of the tool from the command line, for \<open>n\<close> events, where \<open>0 < n\<close> and \<open>n * 500000 \<le> 2 ^ 53\<close>. Without I/O faults, when the vector of drifts can be
  reserved, on a clock that never goes back and sleeps for as long as it is asked, \<open>replay_feed --generate path n\<close> followed by \<open>replay_feed path\<close>
  succeeds and leaves no stream open. The second run reads the clock twice per event: \<open>rs ! 0\<close> is the start of the replay and \<open>rs ! (2 * i + 1)\<close> the
  reading in the callback of event \<open>i\<close>, which is not before the target, the start plus \<open>i\<close> times 500000 ns. The drift recorded for event \<open>i\<close> is exactly that reading minus the target,
  both as signed numbers, and the report is that of these \<open>n\<close> drifts. The drifts are not negative if the readings stay below \<open>2 ^ 63\<close>, and there is a report (no signed
  overflow) if every drift is below \<open>2 ^ 63 / n\<close> in magnitude.
\<close>

theorem replay_main_session:
  assumes "stdio_ok w" "clock_monotone clk" "sleeps_fully clk" "genuine clk tr"
    "0 < n" "n * 500000 \<le> 2 ^ 53" "\<not> reserve_throws alloc_ok (of_nat n)" "stoull arg = Inr (of_nat n)" "path \<noteq> ''--generate''"
  shows "\<exists>w1 tr1 w2 tr2 rs. replay_main no_faults alloc_ok clk [prog, ''--generate'', path, arg] w tr = Some (Exit 0, None, w1, tr1) \<and>
    genuine clk tr2 \<and> readings tr2 = readings tr1 @ rs \<and> length rs = 2 * n \<and> streams w2 = streams w \<and>
    (\<forall>i < n. rs ! 0 + of_nat i * 500000 \<le> rs ! (2 * i + 1)) \<and>
    (let drifts = map (\<lambda>i. sint (rs ! (2 * i + 1)) - sint (rs ! 0 + of_nat i * 500000)) [0..<n]
     in replay_main no_faults alloc_ok clk [prog, path] w1 tr1 =
          map_option (\<lambda>rep. (Exit 0, Some rep, w2, tr2)) (drift_report (of_nat n) drifts) \<and>
        ((\<forall>c \<in> set rs. unat c < 2 ^ 63) \<longrightarrow> (\<forall>d \<in> set drifts. 0 \<le> d)) \<and>
        ((\<forall>d \<in> set drifts. \<bar>d\<bar> * int n < 2 ^ 63) \<longrightarrow> drift_report (of_nat n) drifts \<noteq> None))"
proof -
  obtain w1 tr1 w2 tr2 rs drifts where g: "do_generate no_faults clk path (of_nat n) w tr = Some (0, w1, tr1)"
    "do_replay no_faults alloc_ok clk path (double_lit 1) w1 tr1 = map_option (\<lambda>rep. (Exit 0, Some rep, w2, tr2)) (drift_report (of_nat n) drifts)"
    "streams w2 = streams w" "genuine clk tr2" "readings tr2 = readings tr1 @ rs" "drifts_at (map (\<lambda>i. hd rs + of_nat i * 500000) [0..<n]) rs drifts"
    by (rule generate_then_replay [OF assms(1-7)])
  let ?drifts = "map (\<lambda>i. sint (rs ! (2 * i + 1)) - sint (rs ! 0 + of_nat i * 500000)) [0..<n]"
  have l: "length rs = 2 * n" "length drifts = n" using g(6) by (simp_all add: drifts_at_def)
  then have "hd rs = rs ! 0" using assms(5) by (intro hd_conv_nth) auto
  then have t: "rs ! 0 + of_nat i * 500000 \<le> rs ! (2 * i + 1) \<and> drifts ! i = sint (rs ! (2 * i + 1)) - sint (rs ! 0 + of_nat i * 500000)"
    if "i < n" for i using g(6) that by (simp add: drifts_at_def)
  have d: "drifts = ?drifts" using t l(2) by (intro nth_equalityI) simp_all
  have "drift_report (of_nat n) ?drifts \<noteq> None" if "\<forall>d \<in> set ?drifts. \<bar>d\<bar> * int n < 2 ^ 63"
    using that assms(5,6) by (intro drift_report_defined) auto
  moreover have "\<forall>d \<in> set ?drifts. 0 \<le> d" if small: "\<forall>c \<in> set rs. unat c < 2 ^ 63"
  proof -
    have "0 \<le> sint (rs ! (2 * i + 1)) - sint (rs ! 0 + of_nat i * 500000)" if "i < n" for i
      using t [OF that] small l(1) that by (intro drift_nonneg) simp_all
    then show ?thesis unfolding set_map by (intro ballI) (elim imageE, simp only: set_upt atLeastLessThan_iff)
  qed
  moreover have "replay_main no_faults alloc_ok clk [prog, ''--generate'', path, arg] w tr = Some (Exit 0, None, w1, tr1)"
    using g(1) assms(8) by (simp add: replay_main_def)
  moreover have "replay_main no_faults alloc_ok clk [prog, path] w1 tr1 = map_option (\<lambda>rep. (Exit 0, Some rep, w2, tr2)) (drift_report (of_nat n) ?drifts)"
    using g(2) assms(9) unfolding d by (simp add: replay_main_def)
  ultimately show ?thesis using g(3-5) l(1) t unfolding Let_def by blast
qed

text \<open>
  (C36) The count argument of \<open>replay_feed --generate path count\<close> against the definition of positional notation. A text of the form white space,
  optional sign, digits and a rest asks for as many events as the digits denote in base 10, or for \<open>2 ^ 64\<close> minus that number
  after a minus sign: a count of -1 is accepted and means \<open>2 ^ 64 - 1\<close> events. A number of \<open>2 ^ 64\<close> or more and a text
  without this form end the program by an uncaught exception, before any file is touched.
\<close>

theorem replay_main_count:
  "(integer_text ws sg ds rest \<longrightarrow> replay_main plan alloc_ok clk [prog, ''--generate'', path, ws @ sg @ ds @ rest] w tr =
     (let v = \<Sum>i<length ds. int (the (digit (ds ! i))) * 10 ^ (length ds - 1 - i)
      in if v < 2 ^ 64
         then map_option (\<lambda>(rc, w1, tr1). (Exit rc, None, w1, tr1))
           (do_generate plan clk path (of_int (if sg = ''-'' \<and> v \<noteq> 0 then 2 ^ 64 - v else v)) w tr)
         else Some (Uncaught, None, w, tr))) \<and>
   ((\<nexists>ws sg ds rest. integer_text ws sg ds rest \<and> arg = ws @ sg @ ds @ rest) \<longrightarrow>
     replay_main plan alloc_ok clk [prog, ''--generate'', path, arg] w tr = Some (Uncaught, None, w, tr))"
proof (intro conjI impI)
  let ?v = "\<Sum>i<length ds. int (the (digit (ds ! i))) * 10 ^ (length ds - 1 - i)"
  assume t: "integer_text ws sg ds rest"
  have neg: "(- of_int v :: u64) = of_int (if v \<noteq> 0 then 2 ^ 64 - v else v)" for v
  proof -
    have "(of_int (2 ^ 64) :: u64) = 0" by simp
    then show ?thesis by (simp only: of_int_diff diff_0 of_int_0 neg_0_equal_iff_equal split: if_split) simp
  qed
  show "replay_main plan alloc_ok clk [prog, ''--generate'', path, ws @ sg @ ds @ rest] w tr =
     (let v = ?v in if v < 2 ^ 64
         then map_option (\<lambda>(rc, w1, tr1). (Exit rc, None, w1, tr1))
           (do_generate plan clk path (of_int (if sg = ''-'' \<and> v \<noteq> 0 then 2 ^ 64 - v else v)) w tr)
         else Some (Uncaught, None, w, tr))"
    using stoull_digits [OF t] by (cases "sg = ''-''") (simp_all add: replay_main_def Let_def neg del: of_int_sum)
next
  assume "\<nexists>ws sg ds rest. integer_text ws sg ds rest \<and> arg = ws @ sg @ ds @ rest"
  then show "replay_main plan alloc_ok clk [prog, ''--generate'', path, arg] w tr = Some (Uncaught, None, w, tr)"
    using stoull_invalid by (simp add: replay_main_def)
qed

theorem replay_main_count_witness:
  "integer_text '' '' ''-'' ''1'' [] \<and> stdio_ok empty_stdio \<and>
   replay_main no_faults (\<lambda>_. True) sleep_clock [''replay_feed'', ''--generate'', ''c'', '' -1''] empty_stdio [] =
     map_option (\<lambda>(rc, w1, tr1). (Exit rc, None, w1, tr1)) (do_generate no_faults sleep_clock ''c'' 18446744073709551615 empty_stdio []) \<and>
   replay_main no_faults (\<lambda>_. True) sleep_clock [''replay_feed'', ''--generate'', ''c'', ''x''] empty_stdio [] = Some (Uncaught, None, empty_stdio, [])"
proof -
  have t: "integer_text '' '' ''-'' ''1'' []" by code_simp
  have d: "the (digit CHR ''1'') = 1" by code_simp
  have "replay_main no_faults (\<lambda>_. True) sleep_clock [''replay_feed'', ''--generate'', ''c'', '' -1''] empty_stdio [] =
     map_option (\<lambda>(rc, w1, tr1). (Exit rc, None, w1, tr1)) (do_generate no_faults sleep_clock ''c'' 18446744073709551615 empty_stdio [])"
    using replay_main_count [where ws = "'' ''" and sg = "''-''" and ds = "''1''" and rest = "[]" and path = "''c''" and plan = no_faults and
        alloc_ok = "\<lambda>_. True" and clk = sleep_clock and prog = "''replay_feed''" and w = empty_stdio and tr = "[]"] t d by simp
  moreover have "stoull ''x'' = Inl Invalid_argument" by code_simp
  ultimately show ?thesis using t by (simp add: replay_main_def)
qed

text \<open>
  (C37) Arguments that the tool does not check. An argument that is not a number ends the program by an uncaught exception before any file is
  touched. A rate of zero, of either sign, or not a number is accepted; replaying any capture of two or more events then converts an
  infinite or undefined quotient to \<open>uint64_t\<close>, which is undefined behaviour.
\<close>

theorem replay_main_rate:
  assumes "path \<noteq> ''--generate''"
  shows "(stod arg = Inl e \<longrightarrow> replay_main plan alloc_ok clk [prog, path, arg] w tr = Some (Uncaught, None, w, tr)) \<and>
    (stoull arg = Inl e \<longrightarrow> replay_main plan alloc_ok clk [prog, ''--generate'', path, arg] w tr = Some (Uncaught, None, w, tr)) \<and>
    (stdio_ok w \<and> files w path = Some c \<and> valid_header c \<and> 2 \<le> length (capture_events c) \<and> \<not> reserve_throws alloc_ok (capture_count c) \<and>
     stod arg = Inr rate \<and> useless_rate rate \<longrightarrow> replay_main no_faults alloc_ok clk [prog, path, arg] w tr = None)"
proof (intro conjI impI)
  assume a: "stdio_ok w \<and> files w path = Some c \<and> valid_header c \<and> 2 \<le> length (capture_events c) \<and> \<not> reserve_throws alloc_ok (capture_count c) \<and>
     stod arg = Inr rate \<and> useless_rate rate"
  then obtain first second rest where "capture_events c = first # second # rest"
    by (cases "capture_events c"; cases "tl (capture_events c)") auto
  then have "do_replay no_faults alloc_ok clk path rate w tr = None" using a by (intro do_replay_useless_rate) auto
  then show "replay_main no_faults alloc_ok clk [prog, path, arg] w tr = None" using a assms by (simp add: replay_main_def)
qed (use assms in \<open>simp_all add: replay_main_def\<close>)

lemma stod_zero: "stod ''0'' = Inr (Finite False 0)"
proof -
  have "scan_sign (dropWhile is_space ''0'') = (False, ''0'')" "map to_lower ''0'' = ''0''"
    "scan_mantissa digit ''0'' = ([0], 0, [])" "digits_value 10 [0] = 0" by code_simp+
  moreover have "strtod_result False 0 = Inr (Finite False 0)" by (intro strtod_result_exact) (simp_all add: round_mag_def)
  ultimately show ?thesis by (simp add: stod_def strtod_decimal_def scan_exponent_def)
qed

theorem replay_main_session_witness:
  "\<exists>w1 tr1 w2 tr2 a b c d. replay_main no_faults (\<lambda>_. True) sleep_clock [''replay_feed'', ''--generate'', ''c'', ''2''] empty_stdio [] =
      Some (Exit 0, None, w1, tr1) \<and> readings tr2 = readings tr1 @ [a, b, c, d] \<and> a \<le> b \<and> a + 500000 \<le> d \<and>
    replay_main no_faults (\<lambda>_. True) sleep_clock [''replay_feed'', ''c''] w1 tr1 =
      map_option (\<lambda>rep. (Exit 0, Some rep, w2, tr2)) (drift_report 2 [sint b - sint a, sint d - sint (a + 500000)]) \<and> streams w2 = streams empty_stdio"
proof -
  have 1: "\<not> reserve_throws (\<lambda>_. True) (of_nat 2)" "stoull ''2'' = Inr (of_nat 2)" by (simp add: reserve_throws_def) code_simp
  have 2: "genuine sleep_clock []" "(0 :: nat) < 2" "2 * 500000 \<le> (2 :: nat) ^ 53" "''c'' \<noteq> ''--generate''" by simp_all
  obtain w1 tr1 w2 tr2 rs where x: "replay_main no_faults (\<lambda>_. True) sleep_clock [''replay_feed'', ''--generate'', ''c'', ''2''] empty_stdio [] = Some (Exit 0, None, w1, tr1)"
    "readings tr2 = readings tr1 @ rs" "length rs = 2 * 2" "streams w2 = streams empty_stdio" "\<forall>i < 2. rs ! 0 + of_nat i * 500000 \<le> rs ! (2 * i + 1)"
    "replay_main no_faults (\<lambda>_. True) sleep_clock [''replay_feed'', ''c''] w1 tr1 = map_option (\<lambda>rep. (Exit 0, Some rep, w2, tr2))
       (drift_report (of_nat 2) (map (\<lambda>i. sint (rs ! (2 * i + 1)) - sint (rs ! 0 + of_nat i * 500000)) [0..<2]))"
    using replay_main_session [OF empty_stdio_ok sleep_clock_monotone sleep_clock_sleeps 2(1-3) 1 2(4), of "''replay_feed''"] unfolding Let_def by blast
  obtain a b c d where rs: "rs = [a, b, c, d]" using x(3) by (auto simp: length_Suc_conv numeral_eq_Suc)
  have u: "[0..<2] = [0, Suc 0]" by (simp add: upt_rec)
  have t: "a \<le> b" "a + 500000 \<le> d" using x(5)[rule_format, of 0] x(5)[rule_format, of 1] by (simp_all add: rs numeral_eq_Suc)
  have "map (\<lambda>i. sint (rs ! (2 * i + 1)) - sint (rs ! 0 + of_nat i * 500000)) [0..<2] = [sint b - sint a, sint d - sint (a + 500000)]"
    unfolding u rs by (simp add: numeral_eq_Suc)
  then show ?thesis using x(1,2,4,6) t unfolding rs
    by (intro exI [of _ w1] exI [of _ tr1] exI [of _ w2] exI [of _ tr2] exI [of _ a] exI [of _ b] exI [of _ c] exI [of _ d]) simp
qed

theorem replay_main_rate_witness:
  "stod ''0'' = Inr (Finite False 0) \<and> 2 \<le> length (capture_events (capture_bytes (timed_events [1000, 6000]))) \<and>
   replay_main no_faults (\<lambda>_. True) sleep_clock [''replay_feed'', ''cap'', ''0''] (timed_stdio [1000, 6000]) [] = None \<and>
   replay_main no_faults (\<lambda>_. True) sleep_clock [''replay_feed'', ''cap'', ''fast''] empty_stdio [] = Some (Uncaught, None, empty_stdio, [])"
proof -
  let ?c = "capture_bytes (timed_events [1000, 6000])"
  have l: "length (capture_events ?c) = 2" using timed_stdio_facts(3) [of "[1000, 6000]"] by (simp add: timed_events_def)
  have v: "valid_header ?c" "capture_count ?c = 2" by (simp_all add: capture_bytes_def timed_events_def)
  have "stod ''fast'' = Inl Invalid_argument" by code_simp
  then have "replay_main no_faults (\<lambda>_. True) sleep_clock [''replay_feed'', ''cap'', ''fast''] empty_stdio [] = Some (Uncaught, None, empty_stdio, [])"
    using replay_main_rate [of "''cap''" "''fast''"] by simp
  moreover have "\<not> reserve_throws (\<lambda>_. True) (capture_count ?c)" "useless_rate (Finite False 0)"
    by (simp_all add: reserve_throws_def v(2) useless_rate_def)
  moreover from this have "replay_main no_faults (\<lambda>_. True) sleep_clock [''replay_feed'', ''cap'', ''0''] (timed_stdio [1000, 6000]) [] = None"
    using replay_main_rate [where path = "''cap''" and arg = "''0''" and rate = "Finite False 0" and c = ?c and w = "timed_stdio [1000, 6000]" and
        tr = "[]" and alloc_ok = "\<lambda>_. True" and clk = sleep_clock and prog = "''replay_feed''"] stod_zero timed_stdio_facts(1,2) v(1) l by simp
  ultimately show ?thesis using stod_zero l by simp
qed

end
