(* ===== verification/Latency_Bench.thy ===== *)
theory Latency_Bench
  imports Replay_Tool Synthetic_Sender
begin

text \<open>
  \<open>bench/bench_baseline_comparison.cpp\<close>: the measurement loop, the percentiles and the comparison table. \<open>measure\<close> is a
  template over the receiver; here it takes the receiver's \<open>pop\<close> as a function on the receiver's state, which stands for the receiver
  together with whatever its thread does between two calls. \<open>std::chrono::steady_clock\<close> is \<open>CLOCK_MONOTONIC\<close>, its time points
  are exact integers (a 64-bit count of nanoseconds overflows after 292 years), and \<open>sleep_for\<close> is \<open>nanosleep\<close>.
\<close>

section \<open>Measurement\<close>

definition bench_clock_ns :: "clock \<Rightarrow> time_event list \<Rightarrow> u64" where
  "bench_clock_ns clk tr = (let (tv_sec, tv_nsec) = clk tr in tv_sec * 1000000000 + tv_nsec)"

text \<open>The inner loop: poll until an event with a timestamp arrives or the deadline has passed.\<close>

partial_function (option) poll ::
  "clock \<Rightarrow> ('r \<Rightarrow> FeedEvent option \<times> 'r) \<Rightarrow> int \<Rightarrow> 'r \<Rightarrow> time_event list \<Rightarrow> (u64 option \<times> 'r \<times> time_event list) option" where
  "poll clk recv_pop deadline r tr =
     (let now = now_ns clk tr; tr1 = Clock_read now # tr
      in if uint now < deadline then
           (case recv_pop r of (ev, r1) \<Rightarrow>
              (case ev of
                 Some e \<Rightarrow>
                   if inject_ns e > 0
                   then (let t = bench_clock_ns clk tr1 in Some (Some (t - inject_ns e), r1, Clock_read t # tr1))
                   else poll clk recv_pop deadline r1 (Nanosleep 0 10000 # tr1)
               | None \<Rightarrow> poll clk recv_pop deadline r1 (Nanosleep 0 10000 # tr1)))
         else Some (None, r, tr1))"

datatype bench_error = Send_error sender_error | Reserve_error

fun measure_loop ::
  "net_plan \<Rightarrow> clock \<Rightarrow> ('r \<Rightarrow> FeedEvent option \<times> 'r) \<Rightarrow> SyntheticSender \<Rightarrow> nat \<Rightarrow> u64 list \<Rightarrow> int \<Rightarrow> 'r \<Rightarrow> net \<times> time_event list
   \<Rightarrow> ((bench_error + u64 list \<times> int) \<times> 'r \<times> net \<times> time_event list) option" where
  "measure_loop plan clk recv_pop s 0 lats lost r st = Some (Inr (lats, lost), r, st)"
| "measure_loop plan clk recv_pop s (Suc k) lats lost r st =
     (case send_one plan clk s st of
        (Inl e, st1) \<Rightarrow> Some (Inl (Send_error e), r, st1)
      | (Inr ts, n1, tr1) \<Rightarrow>
          (let now = now_ns clk tr1; deadline = uint now + 50000000
           in case poll clk recv_pop deadline r (Clock_read now # tr1) of
                None \<Rightarrow> None
              | Some (None, r1, tr2) \<Rightarrow> measure_loop plan clk recv_pop s k lats (lost + 1) r1 (n1, tr2)
              | Some (Some l, r1, tr2) \<Rightarrow> measure_loop plan clk recv_pop s k (lats @ [l]) lost r1 (n1, tr2)))"

definition measure_latency ::
  "net_plan \<Rightarrow> (u64 \<Rightarrow> bool) \<Rightarrow> clock \<Rightarrow> ('r \<Rightarrow> FeedEvent option \<times> 'r) \<Rightarrow> SyntheticSender \<Rightarrow> int \<Rightarrow> 'r \<Rightarrow> net \<times> time_event list
   \<Rightarrow> ((bench_error + u64 list \<times> int) \<times> 'r \<times> net \<times> time_event list) option" where
  "measure_latency plan alloc_ok clk recv_pop s n_packets r st =
     (if reserve_throws alloc_ok (of_int n_packets) then Some (Inl Reserve_error, r, st)
      else measure_loop plan clk recv_pop s (nat n_packets) [] 0 r st)"

section \<open>Specification\<close>

text \<open>The events that the first \<open>k\<close> pops return, and the receiver after them.\<close>

fun popped :: "('r \<Rightarrow> FeedEvent option \<times> 'r) \<Rightarrow> nat \<Rightarrow> 'r \<Rightarrow> FeedEvent list \<times> 'r" where
  "popped recv_pop 0 r = ([], r)"
| "popped recv_pop (Suc k) r =
     (let (ev, r1) = recv_pop r; (evs, r2) = popped recv_pop k r1
      in (case ev of None \<Rightarrow> evs | Some e \<Rightarrow> e # evs, r2))"

abbreviation stamped :: "FeedEvent list \<Rightarrow> FeedEvent list" where
  "stamped \<equiv> filter (\<lambda>e. inject_ns e > 0)"

text \<open>Histories in which no sleep lasts a second, and a clock that does not overflow within \<open>H\<close> such events.\<close>

definition calm :: "time_event list \<Rightarrow> bool" where
  "calm tr \<longleftrightarrow> (\<forall>e \<in> set tr. case e of Clock_read t \<Rightarrow> True | Nanosleep s n \<Rightarrow> s = 0 \<and> n < 1000000000 | Usleep u \<Rightarrow> False)"

definition clock_runs :: "clock \<Rightarrow> nat \<Rightarrow> bool" where
  "clock_runs clk H \<longleftrightarrow> (\<forall>tr. genuine clk tr \<and> calm tr \<and> length tr \<le> H \<longrightarrow> unat (now_ns clk tr) + 10000 < 2 ^ 64)"

lemma bench_clock_ns_now: "bench_clock_ns clk tr = now_ns clk tr"
  by (simp add: bench_clock_ns_def now_ns_def clock_ns_def)

lemma calm_simps [simp]:
  "calm []" "calm (Clock_read t # tr) = calm tr" "calm (Nanosleep 0 10000 # tr) = calm tr"
  by (simp_all add: calm_def)

lemma popped_add:
  "popped recv_pop (j + k) r = (let (evs1, r1) = popped recv_pop j r; (evs2, r2) = popped recv_pop k r1 in (evs1 @ evs2, r2))"
  by (induction j arbitrary: r) (auto simp: Let_def split: prod.splits option.splits)

definition pops_to :: "('r \<Rightarrow> FeedEvent option \<times> 'r) \<Rightarrow> 'r \<Rightarrow> 'r \<Rightarrow> bool" where
  "pops_to recv_pop r r' \<longleftrightarrow> (\<exists>k evs. popped recv_pop k r = (evs, r'))"

lemma pops_to_refl [simp]: "pops_to recv_pop r r"
  unfolding pops_to_def by (rule exI [of _ 0]) simp

lemma pops_to_trans: "pops_to recv_pop r r1 \<Longrightarrow> pops_to recv_pop r1 r2 \<Longrightarrow> pops_to recv_pop r r2"
  unfolding pops_to_def by (metis (no_types, lifting) popped_add case_prod_conv)

lemma pops_to_keeps:
  assumes "pops_to recv_pop r r'" "\<And>r. P r \<Longrightarrow> P (snd (recv_pop r))" "P r"
  shows "P r'"
proof -
  have "P (snd (popped recv_pop k r))" if "P r" for k r
    using that
  proof (induction k arbitrary: r)
    case (Suc k)
    have "P (snd (popped recv_pop k (snd (recv_pop r))))" by (rule Suc.IH) (rule assms(2) [OF Suc.prems])
    then show ?case by (simp add: Let_def case_prod_beta)
  qed simp
  then show ?thesis using assms(1,3) unfolding pops_to_def by (metis snd_conv)
qed

section \<open>The inner loop ends\<close>

text \<open>What one run of the inner loop leaves behind.\<close>

definition polled ::
  "clock \<Rightarrow> ('r \<Rightarrow> FeedEvent option \<times> 'r) \<Rightarrow> 'r \<Rightarrow> time_event list \<Rightarrow> u64 option \<Rightarrow> 'r \<Rightarrow> time_event list \<Rightarrow> bool" where
  "polled clk recv_pop r tr got r' tr' \<longleftrightarrow> genuine clk tr' \<and> calm tr' \<and> set tr \<subseteq> set tr' \<and>
     (\<exists>k evs. popped recv_pop k r = (evs, r') \<and>
       (case got of None \<Rightarrow> stamped evs = []
        | Some l \<Rightarrow> \<exists>e t. stamped evs = [e] \<and> Clock_read t \<in> set tr' \<and> l = t - inject_ns e))"

lemma polled_step:
  assumes "recv_pop r = (ev, r1)" "case ev of None \<Rightarrow> True | Some e \<Rightarrow> inject_ns e = 0" "polled clk recv_pop r1 (x # y # tr) got r' tr'"
  shows "polled clk recv_pop r tr got r' tr'"
proof -
  obtain k evs where k: "popped recv_pop k r1 = (evs, r')"
    "case got of None \<Rightarrow> stamped evs = [] | Some l \<Rightarrow> \<exists>e t. stamped evs = [e] \<and> Clock_read t \<in> set tr' \<and> l = t - inject_ns e"
    using assms(3) unfolding polled_def by blast
  define es where "es = (case ev of None \<Rightarrow> evs | Some e \<Rightarrow> e # evs)"
  have "popped recv_pop (Suc k) r = (es, r')" by (simp add: assms(1) k(1) es_def)
  moreover have st: "stamped es = stamped evs" using assms(2) by (cases ev) (simp_all add: es_def)
  have "case got of None \<Rightarrow> stamped es = [] | Some l \<Rightarrow> \<exists>e t. stamped es = [e] \<and> Clock_read t \<in> set tr' \<and> l = t - inject_ns e"
    using k(2) unfolding st .
  moreover have "genuine clk tr'" "calm tr'" "set tr \<subseteq> set tr'" using assms(3) by (auto simp: polled_def)
  ultimately show ?thesis unfolding polled_def by blast
qed

lemma poll_total:
  assumes "clock_monotone clk" "sleeps_fully clk" "clock_runs clk H" "genuine clk tr" "calm tr"
    "deadline - uint (now_ns clk tr) \<le> 10000 * int j" "length tr + 2 * j \<le> H"
  obtains got r' tr' where "poll clk recv_pop deadline r tr = Some (got, r', tr')" "polled clk recv_pop r tr got r' tr'"
    "length tr' \<le> length tr + 2 * j + 2"
  using assms(4-7)
proof (induction j arbitrary: r tr thesis)
  case 0
  have "poll clk recv_pop deadline r tr = Some (None, r, Clock_read (now_ns clk tr) # tr)"
    using "0.prems"(4) by (subst poll.simps) (simp add: Let_def)
  then show ?case by (rule "0.prems"(1)) (use "0.prems" in \<open>auto simp: polled_def intro: exI [of _ 0]\<close>)
next
  case (Suc j)
  let ?now = "now_ns clk tr"
  let ?tr1 = "Clock_read ?now # tr"
  let ?tr2 = "Nanosleep 0 10000 # ?tr1"
  obtain ev r1 where p: "recv_pop r = (ev, r1)" by fastforce
  have g: "genuine clk ?tr1" "genuine clk ?tr2" "calm ?tr2" using Suc.prems(2,3) by simp_all
  consider (late) "\<not> uint ?now < deadline" | (got) e where "uint ?now < deadline" "ev = Some e" "inject_ns e > 0"
    | (again) "uint ?now < deadline" "case ev of None \<Rightarrow> True | Some e \<Rightarrow> inject_ns e = 0"
    by (cases ev) (auto simp: word_gt_0)
  then show ?case
  proof cases
    case late
    then have "poll clk recv_pop deadline r tr = Some (None, r, ?tr1)" by (subst poll.simps) (simp add: Let_def)
    then show ?thesis by (rule Suc.prems(1)) (use Suc.prems in \<open>auto simp: polled_def intro: exI [of _ 0]\<close>)
  next
    case got
    let ?t = "now_ns clk ?tr1"
    have "poll clk recv_pop deadline r tr = Some (Some (?t - inject_ns e), r1, Clock_read ?t # ?tr1)"
      using got p by (subst poll.simps) (simp add: Let_def bench_clock_ns_now)
    moreover have "polled clk recv_pop r tr (Some (?t - inject_ns e)) r1 (Clock_read ?t # ?tr1)"
      unfolding polled_def using Suc.prems(2,3) got p by (auto intro!: exI [of _ "Suc 0"])
    ultimately show ?thesis by (rule Suc.prems(1)) simp
  next
    case again
    have "unat ?now + 10000 < 2 ^ 64" using assms(3) Suc.prems(2,3,5) unfolding clock_runs_def by auto
    then have "unat ?now + 10000 \<le> unat (now_ns clk ?tr2)"
      using sleeps_fullyD [OF assms(2) Suc.prems(2), of 0 10000] by simp
    then have "int (unat ?now + 10000) \<le> int (unat (now_ns clk ?tr2))" unfolding of_nat_le_iff .
    then have "uint ?now + 10000 \<le> uint (now_ns clk ?tr2)" by simp
    then have d: "deadline - uint (now_ns clk ?tr2) \<le> 10000 * int j" using Suc.prems(4) by simp
    have l: "length ?tr2 + 2 * j \<le> H" using Suc.prems(5) by simp
    obtain got r' tr' where q: "poll clk recv_pop deadline r1 ?tr2 = Some (got, r', tr')" "polled clk recv_pop r1 ?tr2 got r' tr'"
      "length tr' \<le> length ?tr2 + 2 * j + 2" by (rule Suc.IH [OF _ g(2,3) d l])
    have "poll clk recv_pop deadline r tr = Some (got, r', tr')"
      using again p q(1) by (subst poll.simps) (auto simp: Let_def split: option.splits)
    moreover have "polled clk recv_pop r tr got r' tr'" using p again(2) q(2) by (rule polled_step)
    ultimately show ?thesis by (rule Suc.prems(1)) (use q(3) in simp)
  qed
qed

section \<open>The measurement loop\<close>

text \<open>
  The outcome of \<open>m\<close> rounds: every popped event with a timestamp gives one latency, in order, each computed from a clock reading of the run,
  and every other round is counted as lost.
\<close>

definition measured ::
  "('r \<Rightarrow> FeedEvent option \<times> 'r) \<Rightarrow> nat \<Rightarrow> 'r \<Rightarrow> u64 list \<Rightarrow> int \<Rightarrow> 'r \<Rightarrow> time_event list \<Rightarrow> bool" where
  "measured recv_pop m r lats lost r' tr' \<longleftrightarrow> int (length lats) + lost = int m \<and> 0 \<le> lost \<and>
     (\<exists>k evs cs. popped recv_pop k r = (evs, r') \<and> length cs = length (stamped evs) \<and> Clock_read ` set cs \<subseteq> set tr' \<and>
       lats = map2 (\<lambda>t e. t - inject_ns e) cs (stamped evs))"

lemma measured_Suc:
  assumes "polled clk recv_pop r tr got r1 tr1" "measured recv_pop m r1 lats lost r' tr'" "set tr1 \<subseteq> set tr'"
  shows "measured recv_pop (Suc m) r (case got of None \<Rightarrow> lats | Some l \<Rightarrow> l # lats) (case got of None \<Rightarrow> lost + 1 | Some l \<Rightarrow> lost) r' tr'"
proof -
  obtain j evs1 where 1: "popped recv_pop j r = (evs1, r1)" "case got of None \<Rightarrow> stamped evs1 = []
      | Some l \<Rightarrow> \<exists>e t. stamped evs1 = [e] \<and> Clock_read t \<in> set tr1 \<and> l = t - inject_ns e"
    using assms(1) unfolding polled_def by blast
  obtain k evs2 cs where 2: "popped recv_pop k r1 = (evs2, r')" "length cs = length (stamped evs2)" "Clock_read ` set cs \<subseteq> set tr'"
    "lats = map2 (\<lambda>t e. t - inject_ns e) cs (stamped evs2)" using assms(2) unfolding measured_def by blast
  have p: "popped recv_pop (j + k) r = (evs1 @ evs2, r')" by (simp add: popped_add 1(1) 2(1))
  have n: "int (length lats) + lost = int m" "0 \<le> lost" using assms(2) by (simp_all add: measured_def)
  show ?thesis
  proof (cases got)
    case None
    then have "stamped (evs1 @ evs2) = stamped evs2" using 1(2) by simp
    then show ?thesis using None n p 2(2-4) unfolding measured_def by (intro conjI exI [of _ "j + k"] exI [of _ "evs1 @ evs2"] exI [of _ cs]) simp_all
  next
    case (Some l)
    then obtain e t where e: "stamped evs1 = [e]" "Clock_read t \<in> set tr1" "l = t - inject_ns e" using 1(2) by auto
    then have "stamped (evs1 @ evs2) = e # stamped evs2" by simp
    then show ?thesis using Some n p 2(2-4) e(2,3) assms(3) unfolding measured_def
      by (intro conjI exI [of _ "j + k"] exI [of _ "evs1 @ evs2"] exI [of _ "t # cs"]) auto
  qed
qed

lemma measure_loop_total:
  assumes "clock_monotone clk" "sleeps_fully clk" "clock_runs clk H" "fds n (sock_fd s) = Some (Sock k a)"
    "genuine clk tr" "calm tr" "length tr + m * 10004 \<le> H"
  obtains res r' n' tr' where "measure_loop plan clk recv_pop s m lats lost r (n, tr) = Some (res, r', n', tr')" "set tr \<subseteq> set tr'" "pops_to recv_pop r r'"
    "fds n' = fds n" "genuine clk tr'" "calm tr'" "length tr' \<le> length tr + m * 10004"
    "case res of Inr (lats', lost') \<Rightarrow> \<exists>ls ts. lats' = lats @ ls \<and> measured recv_pop m r ls (lost' - lost) r' tr' \<and> sent_at s k ts n n' \<and> length ts = m
     | Inl e \<Rightarrow> \<exists>c. send_fails plan c \<and> e = Send_error (Sendto_failed (errno_at plan c))"
  using assms(4-7)
proof (induction m arbitrary: lats lost r n tr thesis)
  case 0
  show ?case by (rule "0.prems"(1) [of "Inr (lats, lost)" r n tr]) (use "0.prems" in \<open>auto simp: measured_def sent_at_def intro: exI [of _ 0]\<close>)
next
  case (Suc m)
  let ?t = "now_ns clk tr"
  let ?tr1 = "Clock_read ?t # tr"
  let ?u = "now_ns clk ?tr1"
  let ?tr2 = "Clock_read ?u # ?tr1" and ?n = "(count_call n)\<lparr>sent := sent n @ [datagram_of s k ?t]\<rparr>"
  note o = send_one_cases [OF Suc.prems(2), of plan clk tr]
  show ?case
  proof (cases "send_fails plan (net_calls n)")
    case True
    then show ?thesis
      by (intro Suc.prems(1) [of "Inl (Send_error (Sendto_failed (errno_at plan (net_calls n))))" r "count_call n" ?tr1]) (use Suc.prems(3,4) in \<open>auto simp: o\<close>)
  next
    case False
    have g: "genuine clk ?tr2" "calm ?tr2" using Suc.prems(3,4) by simp_all
    have "?u \<le> now_ns clk ?tr2" using assms(1) g(1) by (simp add: clock_monotone_def)
    then have d: "uint ?u + 50000000 - uint (now_ns clk ?tr2) \<le> 10000 * int 5000" by (simp add: word_le_def)
    have h: "length ?tr2 + 2 * 5000 \<le> H" using Suc.prems(5) by simp
    obtain got r1 tr3 where q: "poll clk recv_pop (uint ?u + 50000000) r ?tr2 = Some (got, r1, tr3)" "polled clk recv_pop r ?tr2 got r1 tr3"
      "length tr3 \<le> length ?tr2 + 2 * 5000 + 2" by (rule poll_total [OF assms(1-3) g d h])
    have i: "fds ?n (sock_fd s) = Some (Sock k a)" "genuine clk tr3" "calm tr3" "length tr3 + m * 10004 \<le> H"
      using Suc.prems(2,5) q(2,3) by (auto simp: polled_def)
    let ?lats = "case got of None \<Rightarrow> lats | Some l \<Rightarrow> lats @ [l]" and ?lost = "case got of None \<Rightarrow> lost + 1 | Some l \<Rightarrow> lost"
    obtain res r' n' tr' where L: "measure_loop plan clk recv_pop s m ?lats ?lost r1 (?n, tr3) = Some (res, r', n', tr')" "set tr3 \<subseteq> set tr'" "pops_to recv_pop r1 r'"
      "fds n' = fds ?n" "genuine clk tr'" "calm tr'" "length tr' \<le> length tr3 + m * 10004"
      "case res of Inr (lats', lost') \<Rightarrow> \<exists>ls ts. lats' = ?lats @ ls \<and> measured recv_pop m r1 ls (lost' - ?lost) r' tr' \<and> sent_at s k ts ?n n' \<and> length ts = m
       | Inl e \<Rightarrow> \<exists>c. send_fails plan c \<and> e = Send_error (Sendto_failed (errno_at plan c))"
      by (rule Suc.IH [OF _ i])
    have e: "measure_loop plan clk recv_pop s (Suc m) lats lost r (n, tr) = Some (res, r', n', tr')"
      using False q(1) L(1) by (cases got) (simp_all add: o Let_def)
    have u: "set tr \<subseteq> set tr'" using q(2) L(2) by (auto simp: polled_def)
    have got: "\<exists>ls ts. lats' = lats @ ls \<and> measured recv_pop (Suc m) r ls (lost' - lost) r' tr' \<and> sent_at s k ts n n' \<and> length ts = Suc m"
      if res: "res = Inr (lats', lost')" for lats' lost'
    proof -
      obtain ls ts where "lats' = ?lats @ ls" "measured recv_pop m r1 ls (lost' - ?lost) r' tr'" "sent_at s k ts ?n n'" "length ts = m"
        using L(8) unfolding res sum.case prod.case by blast
      then show ?thesis using measured_Suc [OF q(2) _ L(2), of m ls "lost' - ?lost"]
        by (intro exI [of _ "case got of None \<Rightarrow> ls | Some l \<Rightarrow> l # ls"] exI [of _ "?t # ts"]) (cases got; simp add: sent_at_def)
    qed
    have t: "fds n' = fds n" "length tr' \<le> length tr + Suc m * 10004" using L(4,7) q(3) by simp_all
    have "pops_to recv_pop r r1" using q(2) unfolding polled_def pops_to_def by blast
    from this L(3) have p: "pops_to recv_pop r r'" by (rule pops_to_trans)
    show ?thesis by (rule Suc.prems(1) [OF e u p t(1) L(5,6) t(2)]) (use L(8) got in \<open>auto split: sum.splits\<close>)
  qed
qed

lemma sleep_time_calm:
  assumes "genuine sleep_clock tr" "calm tr"
  shows "sleep_time tr \<le> length tr * 1000000000"
  using assms
proof (induction tr)
  case (Cons e tr)
  have c: "calm tr" using Cons.prems(2) by (simp add: calm_def)
  show ?case
  proof (cases e)
    case (Clock_read t)
    then have "unat t = sleep_time tr" "genuine sleep_clock tr" using Cons.prems(1) by simp_all
    then show ?thesis using Cons.IH c Clock_read by simp
  next
    case (Nanosleep sec nsec)
    then have "sec = 0" "nsec < 1000000000" using Cons.prems(2) by (simp_all add: calm_def)
    moreover have "sleep_time tr \<le> length tr * 1000000000" using Cons.IH c Cons.prems(1) Nanosleep by simp
    ultimately show ?thesis using Nanosleep by (simp add: word_less_nat_alt)
  next
    case (Usleep us)
    then show ?thesis using Cons.prems(2) by (simp add: calm_def)
  qed
qed simp

lemma sleep_clock_runs:
  assumes "H * 1000000000 + 10000 < 2 ^ 64"
  shows "clock_runs sleep_clock H"
  unfolding clock_runs_def
proof (intro allI impI)
  fix tr assume tr: "genuine sleep_clock tr \<and> calm tr \<and> length tr \<le> H"
  then have "sleep_time tr \<le> length tr * 1000000000" by (intro sleep_time_calm) simp_all
  also have "\<dots> \<le> H * 1000000000" using tr by (intro mult_le_mono1) simp
  finally show "unat (now_ns sleep_clock tr) + 10000 < 2 ^ 64" using assms by simp
qed


text \<open>A receiver that returns the given answers one after the other.\<close>

definition scripted :: "FeedEvent option list \<Rightarrow> FeedEvent option \<times> FeedEvent option list" where
  "scripted r = (case r of [] \<Rightarrow> (None, []) | ev # rest \<Rightarrow> (ev, rest))"

definition demo_sender :: SyntheticSender where
  "demo_sender = \<lparr>sock_fd = 3, dst_addr = [10, 11, 0, 2], dst_sin_port = ntohs 9999\<rparr>"


section \<open>Percentiles\<close>

definition percentile :: "u64 list \<Rightarrow> rat \<Rightarrow> u64 option" where
  "percentile v pct =
     (if v = [] then Some 0
      else do {
        idx \<leftarrow> u64_of_double (double_mul (double_div (double_lit pct) (double_lit 100)) (double_of_u64 (of_nat (length v) - 1)));
        if unat idx < length v then Some (v ! unat idx) else None
      })"

definition percentile_index :: "nat \<Rightarrow> rat \<Rightarrow> nat" where
  "percentile_index n pct = nat \<lfloor>round_mag (round_mag (round_mag pct / 100) * of_nat (n - 1))\<rfloor>"

lemma percentile_index_mono:
  assumes "0 \<le> p" "p \<le> q"
  shows "percentile_index n p \<le> percentile_index n q"
proof -
  have "round_mag p / 100 \<le> round_mag q / 100" using assms by (intro divide_right_mono round_mag_mono) simp_all
  moreover have z: "0 \<le> round_mag p / 100" using assms(1) by simp
  ultimately have "round_mag (round_mag p / 100) * of_nat (n - 1) \<le> round_mag (round_mag q / 100) * of_nat (n - 1)"
    by (intro mult_right_mono round_mag_mono) simp_all
  moreover have "0 \<le> round_mag (round_mag p / 100) * of_nat (n - 1)" using z by simp
  ultimately show ?thesis unfolding percentile_index_def by (intro nat_mono floor_mono round_mag_mono)
qed

lemma percent_fraction:
  assumes "0 \<le> p" "p \<le> 100"
  shows "double_div (double_lit p) (double_lit 100) = Finite False (round_mag (round_mag p / 100))"
    "0 \<le> round_mag (round_mag p / 100)" "round_mag (round_mag p / 100) \<le> 1"
proof -
  have h: "round_mag 100 = 100" using round_mag_nat [of 100] by simp
  have "round_mag p \<le> 100" using assms h by (intro round_mag_le_fixed) simp_all
  then have r: "0 \<le> round_mag p / 100" "round_mag p / 100 \<le> 1" using assms(1) by simp_all
  have "round_mag 1 = 1" using round_mag_nat [of 1] by simp
  then show "round_mag (round_mag p / 100) \<le> 1" using r by (intro round_mag_le_fixed)
  show "0 \<le> round_mag (round_mag p / 100)" using r by simp
  have l: "double_lit p = Finite False (round_mag p)" "double_lit 100 = Finite False 100"
    using assms round_double_finite(1) [of p] round_double_finite(1) [of 100 False] h by (simp_all add: double_lit_def)
  have "round_mag p / 100 \<le> 2 ^ 64" using r(2) by simp
  from round_double_finite(1) [OF r(1) this] show "double_div (double_lit p) (double_lit 100) = Finite False (round_mag (round_mag p / 100))"
    by (simp add: l)
qed

lemma percentile_nth:
  assumes "0 \<le> p" "p \<le> 100" "v \<noteq> []" "length v \<le> 2 ^ 53"
  shows "percentile v p = Some (v ! percentile_index (length v) p)" "percentile_index (length v) p < length v"
proof -
  obtain m where m: "length v = Suc m" using assms(3) by (cases "length v") auto
  then have u: "unat (of_nat (length v) - 1 :: u64) = length v - 1"
    using assms(4) by (simp add: unat_of_nat take_bit_nat_eq_self)
  then have le: "unat (of_nat (length v) - 1 :: u64) \<le> 2 ^ 53" using assms(4) by simp
  note p = percent_fraction [OF assms(1,2)]
  obtain i where i: "u64_of_double (double_mul (Finite False (round_mag (round_mag p / 100))) (double_of_u64 (of_nat (length v) - 1))) = Some i"
    "unat i \<le> length v - 1" "unat i = percentile_index (length v) p"
    using scaled_index [OF p(2,3) le] unfolding u percentile_index_def by blast
  then show "percentile_index (length v) p < length v" using m by simp
  then show "percentile v p = Some (v ! percentile_index (length v) p)" using i assms(3) by (simp add: percentile_def p(1))
qed

section \<open>The table\<close>

definition us_of :: "u64 \<Rightarrow> double" where
  "us_of ns = double_div (double_of_u64 ns) (double_lit 1000)"

definition speedup_of :: "double \<Rightarrow> double \<Rightarrow> double" where
  "speedup_of s x = (if double_less (double_lit 0) x \<and> double_less (double_lit 0) s then double_div s x else double_lit 0)"

record table_row =
  row_label :: string
  row_std_ns :: u64
  row_xdp_ns :: u64

datatype verdict = Xdp_faster double | Std_faster double | Insufficient_samples

text \<open>What \<open>print_table\<close> prints: the sample counts, the cells of the five rows, and the last line.\<close>

record bench_table =
  tb_counts :: "int list"
  tb_rows :: "table_row list"
  tb_cells :: "(string \<times> double \<times> double \<times> double) list"
  tb_verdict :: verdict

definition front_or_0 :: "u64 list \<Rightarrow> u64" where
  "front_or_0 v = (if v = [] then 0 else hd v)"

definition back_or_0 :: "u64 list \<Rightarrow> u64" where
  "back_or_0 v = (if v = [] then 0 else last v)"

definition p50_verdict :: "u64 \<Rightarrow> u64 \<Rightarrow> verdict" where
  "p50_verdict s50 x50 =
     (let speedup = speedup_of (us_of s50) (us_of x50)
      in if double_less (double_lit 1) speedup then Xdp_faster speedup
         else if double_less (double_lit 0) speedup then Std_faster (double_div (double_lit 1) speedup)
         else Insufficient_samples)"

definition print_table :: "u64 list \<Rightarrow> u64 list \<Rightarrow> int \<Rightarrow> int \<Rightarrow> int \<Rightarrow> bench_table option" where
  "print_table std_lats0 xdp_lats0 n_packets std_lost xdp_lost =
     do {
       let std_lats = sort std_lats0;
       let xdp_lats = sort xdp_lats0;
       s50 \<leftarrow> percentile std_lats 50;
       x50 \<leftarrow> percentile xdp_lats 50;
       s99 \<leftarrow> percentile std_lats 99;
       x99 \<leftarrow> percentile xdp_lats 99;
       s999 \<leftarrow> percentile std_lats (999 / 10);
       x999 \<leftarrow> percentile xdp_lats (999 / 10);
       let rows = [\<lparr>row_label = ''min'', row_std_ns = front_or_0 std_lats, row_xdp_ns = front_or_0 xdp_lats\<rparr>,
                   \<lparr>row_label = ''p50'', row_std_ns = s50, row_xdp_ns = x50\<rparr>,
                   \<lparr>row_label = ''p99'', row_std_ns = s99, row_xdp_ns = x99\<rparr>,
                   \<lparr>row_label = ''p99.9'', row_std_ns = s999, row_xdp_ns = x999\<rparr>,
                   \<lparr>row_label = ''max'', row_std_ns = back_or_0 std_lats, row_xdp_ns = back_or_0 xdp_lats\<rparr>];
       let std_recv = sint (of_nat (length std_lats) :: u32);
       let xdp_recv = sint (of_nat (length xdp_lats) :: u32);
       Some \<lparr>tb_counts = [std_recv, n_packets, std_lost, xdp_recv, n_packets, xdp_lost], tb_rows = rows,
         tb_cells = map (\<lambda>r. let s_us = us_of (row_std_ns r); x_us = us_of (row_xdp_ns r)
                             in (row_label r, s_us, x_us, speedup_of s_us x_us)) rows,
         tb_verdict = p50_verdict s50 x50\<rparr>
     }"

lemma lit_facts: "double_lit 0 = Finite False 0" "double_lit 1 = Finite False 1" "double_lit 1000 = Finite False 1000"
  using double_lit_1 round_mag_nat [of 1000] round_double_finite(1) [of 1000 False] round_double_finite(1) [of 0 False]
  by (simp_all add: double_lit_def round_mag_def [of 0])

text \<open>The value of a number of microseconds.\<close>

definition us_val :: "u64 \<Rightarrow> rat" where
  "us_val ns = round_mag (round_mag (of_nat (unat ns)) / 1000)"

lemma us_of_val: "us_of ns = Finite False (us_val ns)" "us_val ns \<le> 2 ^ 64" "0 \<le> us_val ns"
proof -
  let ?q = "round_mag (of_nat (unat ns)) / 1000"
  have r: "0 \<le> round_mag (of_nat (unat ns))" "round_mag (of_nat (unat ns)) \<le> 2 ^ 64"
    using round_double_finite(2,3) [OF of_nat_0_le_iff of_nat_unat_le] by simp_all
  have "?q \<le> round_mag (of_nat (unat ns)) / 1" using r(1) by (intro divide_left_mono) simp_all
  with r(2) have q: "0 \<le> ?q" "?q \<le> 2 ^ 64" using r(1) by simp_all
  show "us_of ns = Finite False (us_val ns)" unfolding us_of_def us_val_def double_of_u64_finite lit_facts
    using round_double_finite(1) [OF q, of False] by (simp del: of_nat_unat)
  show "us_val ns \<le> 2 ^ 64" "0 \<le> us_val ns" unfolding us_val_def using round_double_finite(2,3) [OF q] by blast+
qed

lemma us_val_mono: "a \<le> b \<Longrightarrow> us_val a \<le> us_val b"
proof -
  assume "a \<le> b"
  then have "(of_nat (unat a) :: rat) \<le> of_nat (unat b)" unfolding of_nat_le_iff by (simp add: word_le_nat_alt)
  then have "round_mag (of_nat (unat a)) \<le> round_mag (of_nat (unat b))" by (intro round_mag_mono of_nat_0_le_iff)
  moreover have "0 \<le> round_mag (of_nat (unat a))" by (rule round_mag_nonneg) (rule of_nat_0_le_iff)
  ultimately show ?thesis unfolding us_val_def by (intro round_mag_mono) (simp_all add: divide_right_mono)
qed

lemma us_val_ge:
  assumes "a \<noteq> 0"
  shows "2 powi - 10 \<le> us_val a"
proof -
  have "1 \<le> unat a" using assms by (simp add: unat_gt_0 Suc_le_eq)
  then have "(of_nat 1 :: rat) \<le> of_nat (unat a)" unfolding of_nat_le_iff .
  then have "(2 :: rat) powi 0 \<le> of_nat (unat a)" by simp
  then have "(1 :: rat) \<le> round_mag (of_nat (unat a))" using round_mag_ge_powi [of 0] by simp
  then have "(2 :: rat) powi - 10 \<le> round_mag (of_nat (unat a)) / 1000" by (simp add: power_int_minus field_simps)
  from round_mag_ge_powi [OF _ this] show ?thesis unfolding us_val_def by simp
qed

lemma us_val_pos: "0 < us_val a \<longleftrightarrow> a \<noteq> 0"
  using us_val_ge [of a] by (cases "a = 0") (simp_all add: us_val_def round_mag_def power_int_minus)

definition ratio :: "u64 \<Rightarrow> u64 \<Rightarrow> rat" where
  "ratio s x = (if s = 0 \<or> x = 0 then 0 else round_mag (us_val s / us_val x))"

lemma speedup_ratio: "speedup_of (us_of s) (us_of x) = Finite False (ratio s x)" "0 < ratio s x \<longleftrightarrow> s \<noteq> 0 \<and> x \<noteq> 0"
proof -
  have "speedup_of (us_of s) (us_of x) = Finite False (ratio s x) \<and> (0 < ratio s x \<longleftrightarrow> s \<noteq> 0 \<and> x \<noteq> 0)"
  proof (cases "s = 0 \<or> x = 0")
    case True
    then show ?thesis using us_val_pos [of s] us_val_pos [of x] by (auto simp: speedup_of_def ratio_def us_of_val(1) lit_facts signed_mag_def)
  next
    case False
    then have p: "2 powi - 10 \<le> us_val s" "2 powi - 10 \<le> us_val x" "0 < us_val x" "0 < us_val s"
      using us_val_ge us_val_pos by simp_all
    have "us_val s / us_val x \<le> 2 ^ 64 / 2 powi - 10" using p us_of_val(2) [of s] by (intro frac_le) simp_all
    also have "\<dots> = 2 ^ 74" by (simp add: power_int_minus)
    finally have u: "us_val s / us_val x \<le> 2 ^ 74" .
    have "(2 :: rat) powi - 74 = 2 powi - 10 / 2 ^ 64" by (simp add: power_int_minus)
    also have "\<dots> \<le> us_val s / us_val x" using p us_of_val(2) [of x] by (intro frac_le) simp_all
    finally have "2 powi - 74 \<le> round_mag (us_val s / us_val x)" by (intro round_mag_ge_powi) simp_all
    then have "0 < round_mag (us_val s / us_val x)" by (simp add: power_int_minus)
    moreover have "round_double False (us_val s / us_val x) = Finite False (round_mag (us_val s / us_val x))"
      using p u by (intro round_double_bounded(1) [of _ 74]) simp_all
    ultimately show ?thesis using False p by (simp add: speedup_of_def ratio_def us_of_val(1) lit_facts signed_mag_def)
  qed
  then show "speedup_of (us_of s) (us_of x) = Finite False (ratio s x)" "0 < ratio s x \<longleftrightarrow> s \<noteq> 0 \<and> x \<noteq> 0" by blast+
qed

lemma ratio_le_one: "s \<le> x \<Longrightarrow> ratio s x \<le> 1"
proof -
  assume "s \<le> x"
  then have "us_val s \<le> us_val x" by (rule us_val_mono)
  moreover have "round_mag 1 = 1" using round_mag_nat [of 1] by simp
  ultimately show ?thesis using us_of_val(3) [of s] us_val_pos [of x]
    by (auto simp: ratio_def intro!: round_mag_le_fixed)
qed

lemma ratio_same: "s \<noteq> 0 \<Longrightarrow> ratio s s = 1"
  using us_val_pos [of s] round_mag_nat [of 1] by (simp add: ratio_def)

section \<open>What the table shows\<close>

text \<open>The five cells of a column for the given samples: zeros without samples, otherwise minimum, percentiles and maximum in order.\<close>

definition column_ok :: "u64 list \<Rightarrow> u64 list \<Rightarrow> bool" where
  "column_ok samples cells \<longleftrightarrow> sorted cells \<and> length cells = 5 \<and>
     (if samples = [] then cells = replicate 5 0
      else hd cells = Min (set samples) \<and> last cells = Max (set samples) \<and> set cells \<subseteq> set samples)"

definition verdict_ok :: "u64 \<Rightarrow> u64 \<Rightarrow> verdict \<Rightarrow> bool" where
  "verdict_ok s50 x50 v \<longleftrightarrow>
     (case v of Xdp_faster d \<Rightarrow> 0 < x50 \<and> x50 < s50 | Std_faster d \<Rightarrow> 0 < x50 \<and> 0 < s50 | Insufficient_samples \<Rightarrow> s50 = 0 \<or> x50 = 0) \<and>
     (s50 = x50 \<and> s50 \<noteq> 0 \<longrightarrow> v = Std_faster (double_lit 1))"

lemma verdict_ok_p50: "verdict_ok s50 x50 (p50_verdict s50 x50)"
proof -
  have v: "p50_verdict s50 x50 = (if 1 < ratio s50 x50 then Xdp_faster (Finite False (ratio s50 x50))
      else if 0 < ratio s50 x50 then Std_faster (double_div (Finite False 1) (Finite False (ratio s50 x50))) else Insufficient_samples)"
    by (simp add: p50_verdict_def speedup_ratio(1) lit_facts signed_mag_def Let_def)
  have r: "x50 < s50 \<and> 0 < x50" if "1 < ratio s50 x50"
    using that ratio_le_one [of s50 x50] speedup_ratio(2) [of s50 x50] by (auto simp: word_gt_0 not_le [symmetric])
  have e: "p50_verdict s50 x50 = Std_faster (double_lit 1)" if same: "s50 = x50 \<and> s50 \<noteq> 0"
  proof -
    have "ratio s50 x50 = 1" using same ratio_same by auto
    then show ?thesis unfolding v using lit_facts(2) by (simp add: double_lit_def)
  qed
  have "case p50_verdict s50 x50 of Xdp_faster d \<Rightarrow> 0 < x50 \<and> x50 < s50 | Std_faster d \<Rightarrow> 0 < x50 \<and> 0 < s50
    | Insufficient_samples \<Rightarrow> s50 = 0 \<or> x50 = 0"
    using r speedup_ratio(2) [of s50 x50] by (auto simp: v word_gt_0 simp del: double_div.simps)
  then show ?thesis unfolding verdict_ok_def using e by blast
qed

lemma percentile_column:
  assumes "length v \<le> 2 ^ 53"
  obtains a b c where "percentile (sort v) 50 = Some a" "percentile (sort v) 99 = Some b" "percentile (sort v) (999 / 10) = Some c"
    "column_ok v [front_or_0 (sort v), a, b, c, back_or_0 (sort v)]"
proof (cases "v = []")
  case True
  then show thesis by (intro that [of 0 0 0]) (simp_all add: percentile_def column_ok_def front_or_0_def back_or_0_def numeral_eq_Suc)
next
  case False
  let ?s = "sort v" and ?n = "length v"
  have "?s \<noteq> []" using False by (metis length_0_conv length_sort)
  moreover have "length ?s \<le> 2 ^ 53" using assms by simp
  ultimately have n: "?s \<noteq> []" "length ?s \<le> 2 ^ 53" .
  note p = percentile_nth [OF _ _ n, of 50] percentile_nth [OF _ _ n, of 99] percentile_nth [OF _ _ n, of "999 / 10"]
  let ?i = "percentile_index ?n 50" and ?j = "percentile_index ?n 99" and ?k = "percentile_index ?n (999 / 10)"
  have o: "?i \<le> ?j" "?j \<le> ?k" by (rule percentile_index_mono; simp)+
  have b: "?i < ?n" "?j < ?n" "?k < ?n" using p by simp_all
  have e: "hd ?s = ?s ! 0" "last ?s = ?s ! (?n - 1)" using hd_conv_nth [OF n(1)] last_conv_nth [OF n(1)] by simp_all
  have so: "?s ! x \<le> ?s ! y" if "x \<le> y" "y < ?n" for x y using that by (intro sorted_nth_mono) simp_all
  have "sorted [hd ?s, ?s ! ?i, ?s ! ?j, ?s ! ?k, last ?s]"
  proof -
    have "hd ?s \<le> ?s ! ?i" "?s ! ?i \<le> ?s ! ?j" "?s ! ?j \<le> ?s ! ?k" "?s ! ?k \<le> last ?s" unfolding e using o b by (auto intro!: so)
    then show ?thesis by (auto intro: order_trans)
  qed
  moreover have "?s ! ?i \<in> set v" "?s ! ?j \<in> set v" "?s ! ?k \<in> set v" using b by (metis length_sort nth_mem set_sort)+
  moreover have "hd ?s \<in> set v" "last ?s \<in> set v" using hd_in_set [OF n(1)] last_in_set [OF n(1)] by simp_all
  ultimately have "column_ok v [front_or_0 ?s, ?s ! ?i, ?s ! ?j, ?s ! ?k, back_or_0 ?s]"
    using False n(1) sort_ends [OF False] by (simp add: column_ok_def front_or_0_def back_or_0_def)
  then show thesis using p by (intro that) simp_all
qed

lemma print_table_columns:
  assumes "length std \<le> 2 ^ 53" "length xdp \<le> 2 ^ 53"
  shows "\<exists>t. print_table std xdp n_packets std_lost xdp_lost = Some t \<and>
    tb_counts t = [sint (of_nat (length std) :: u32), n_packets, std_lost, sint (of_nat (length xdp) :: u32), n_packets, xdp_lost] \<and>
    map row_label (tb_rows t) = [''min'', ''p50'', ''p99'', ''p99.9'', ''max''] \<and>
    column_ok std (map row_std_ns (tb_rows t)) \<and> column_ok xdp (map row_xdp_ns (tb_rows t)) \<and>
    verdict_ok (row_std_ns (tb_rows t ! 1)) (row_xdp_ns (tb_rows t ! 1)) (tb_verdict t)"
proof -
  obtain a b c where s: "percentile (sort std) 50 = Some a" "percentile (sort std) 99 = Some b" "percentile (sort std) (999 / 10) = Some c"
    "column_ok std [front_or_0 (sort std), a, b, c, back_or_0 (sort std)]" using assms(1) by (rule percentile_column)
  obtain a' b' c' where x: "percentile (sort xdp) 50 = Some a'" "percentile (sort xdp) 99 = Some b'" "percentile (sort xdp) (999 / 10) = Some c'"
    "column_ok xdp [front_or_0 (sort xdp), a', b', c', back_or_0 (sort xdp)]" using assms(2) by (rule percentile_column)
  show ?thesis using s x verdict_ok_p50 [of a a'] by (simp add: print_table_def Let_def)
qed

text \<open>
  The comparison table. For up to \<open>2 ^ 53\<close> samples per path the table is computed without undefined behaviour: in each column
  min <= p50 <= p99 <= p99.9 <= max, the first and last are the least and greatest sample, all are samples (or all are 0 without samples).
  "AF_XDP is faster" is printed only if its median is smaller and both are positive; "insufficient samples" only if a median is 0.
  For equal positive medians the table says that standard sockets are faster, by a factor of 1.
\<close>

theorem print_table_spec:
  assumes "length std \<le> 2 ^ 53" "length xdp \<le> 2 ^ 53"
  shows "\<exists>t. print_table std xdp n_packets std_lost xdp_lost = Some t \<and>
    map row_label (tb_rows t) = [''min'', ''p50'', ''p99'', ''p99.9'', ''max''] \<and>
    column_ok std (map row_std_ns (tb_rows t)) \<and> column_ok xdp (map row_xdp_ns (tb_rows t)) \<and>
    verdict_ok (row_std_ns (tb_rows t ! 1)) (row_xdp_ns (tb_rows t ! 1)) (tb_verdict t)"
  using print_table_columns [OF assms, of n_packets std_lost xdp_lost] by (elim exE conjE) (intro exI conjI)

theorem print_table_spec_witness:
  "\<exists>t. print_table [52000, 61000, 48000] [9000, 11000] 3 0 1 = Some t \<and>
    column_ok [52000, 61000, 48000] (map row_std_ns (tb_rows t)) \<and> column_ok [9000, 11000] (map row_xdp_ns (tb_rows t)) \<and>
    verdict_ok (row_std_ns (tb_rows t ! 1)) (row_xdp_ns (tb_rows t ! 1)) (tb_verdict t)"
  using print_table_spec [of "[52000, 61000, 48000]" "[9000, 11000]" 3 0 1] by auto

end
