(* ===== verification/Handler_Lifecycle.thy ===== *)
theory Handler_Lifecycle
  imports Feed_Handler
begin

text \<open>
  Life cycle of \<open>FeedHandler\<close>: the resources a handler owns from construction to destruction, starting it again after
  \<open>stop\<close>, and its clock.
\<close>

section \<open>Specification\<close>

text \<open>
  A ledger is well-formed when every UMEM lies on a live mapping and every socket on a live UMEM. Handlers that agree on
  their handles differ only in what start, stop, pop and the receive loop change.
\<close>

definition ledger_wf :: "resources \<Rightarrow> bool" where
  "ledger_wf L \<longleftrightarrow> snd ` umems L \<subseteq> fst ` maps L \<and> snd ` socks L \<subseteq> fst ` umems L"

definition same_handles :: "('f, 'c, 'r, 't) FeedHandler \<Rightarrow> ('f, 'c, 'r, 't) FeedHandler \<Rightarrow> bool" where
  "same_handles h h' \<longleftrightarrow> umem (fh_umem h') = umem (fh_umem h) \<and> region (fh_umem h') = region (fh_umem h) \<and>
     region_size (fh_umem h') = region_size (fh_umem h) \<and> socket (fh_socket h') = socket (fh_socket h)"

text \<open>
  The exceptions of \<open>free_frames_.reserve\<close>, thrown when the UMEM is registered but its object is not yet constructed, and what they leave behind.
\<close>

definition reserve_threw :: "handler_error \<Rightarrow> bool" where
  "reserve_threw e \<longleftrightarrow> e = Umem_error Length_error \<or> e = Umem_error Bad_alloc"

definition umem_leaked :: "resources \<Rightarrow> sys_event list \<Rightarrow> bool" where
  "umem_leaked L tr \<longleftrightarrow> (\<exists>a n u. a \<noteq> 0 \<and> a \<notin> fst ` maps L \<and> u \<noteq> 0 \<and> u \<notin> fst ` umems L \<and>
     ledger tr = Some (L\<lparr>maps := insert (a, n) (maps L), umems := insert (u, a) (umems L)\<rparr>))"

section \<open>Lemmas and properties\<close>

lemma fst_notin: "a \<notin> fst ` S \<Longrightarrow> (a, b) \<notin> S"
  by (metis fst_conv image_eqI)

lemma umem_release_ledger:
  assumes wf: "ledger_wf L" and a: "a \<noteq> 0" "a \<notin> fst ` maps L" and h: "h \<noteq> 0" "h \<notin> fst ` umems L"
    and L: "ledger tr = Some (L\<lparr>maps := insert (a, n) (maps L), umems := insert (h, a) (umems L)\<rparr>)"
    and u: "umem u = h" "region u = a" "region_size u = n"
  shows "ledger (snd (Umem_destroy u tr)) = Some L"
proof -
  have "{p \<in> insert (h, a) (umems L). fst p \<noteq> h} = umems L" using fst_notin [OF h(2)] by auto
  moreover have "insert (a, n) (maps L) - {(a, n)} = maps L" using fst_notin [OF a(2)] by auto
  moreover have "h \<notin> snd ` socks L" "a \<notin> snd ` umems L" using wf a h unfolding ledger_wf_def by blast+
  ultimately show ?thesis using L a h u by (simp add: Umem_destroy_trace)
qed

lemma XdpSocket_new_cases:
  assumes "XdpSocket_new env r0 t0 i u cfg tr = (r, tr')"
  obtains (fail) e where "r = Inl e" "tr' = tr"
  | (ok) s ifc q xc sk rr tt where "r = Inr s" "tr' = Socket_create sk (umem u) # tr"
      "env_socket env tr ifc q (umem u) xc = Inr (sk, rr, tt)" "socket s = sk"
  using assms unfolding XdpSocket_new_def create_socket_def Let_def
  by (auto split: sum.splits prod.splits)

text \<open>What a constructed handler holds, on top of the resources \<open>L\<close> that were live before.\<close>

definition handler_owns :: "resources \<Rightarrow> ('f, 'c, 'r, 't) FeedHandler \<Rightarrow> sys_event list \<Rightarrow> bool" where
  "handler_owns L h tr \<longleftrightarrow>
     (let a = region (fh_umem h); n = region_size (fh_umem h); u = umem (fh_umem h); sk = socket (fh_socket h)
      in ledger_wf L \<and> a \<noteq> 0 \<and> a \<notin> fst ` maps L \<and> u \<noteq> 0 \<and> u \<notin> fst ` umems L \<and> sk \<noteq> 0 \<and> sk \<notin> fst ` socks L \<and>
         ledger tr = Some (L\<lparr>maps := insert (a, n) (maps L), umems := insert (u, a) (umems L), socks := insert (sk, u) (socks L)\<rparr>))"

lemma handler_owns_same: "same_handles h h' \<Longrightarrow> handler_owns L h' tr = handler_owns L h tr"
  by (simp add: handler_owns_def same_handles_def Let_def)

lemma handler_owns_destroy:
  assumes "handler_owns L h tr"
  shows "ledger (snd (FeedHandler_destroy h tr)) = Some L"
proof -
  let ?u = "fh_umem h" and ?sk = "socket (fh_socket h)"
  let ?L1 = "L\<lparr>maps := insert (region ?u, region_size ?u) (maps L), umems := insert (umem ?u, region ?u) (umems L)\<rparr>"
  note o = assms[unfolded handler_owns_def Let_def]
  have "{p \<in> insert (?sk, umem ?u) (socks L). fst p \<noteq> ?sk} = socks L" using o fst_notin [of ?sk "socks L"] by auto
  then have 1: "ledger (Socket_delete ?sk # tr) = Some ?L1" using o by simp
  have "fh_umem (stop h) = ?u" "fh_socket (stop h) = fh_socket h" by (simp_all add: stop_def Let_def)
  then have "snd (FeedHandler_destroy h tr) = snd (Umem_destroy ?u (Socket_delete ?sk # tr))"
    using o by (simp add: FeedHandler_destroy_def XdpSocket_destroy_def close_socket_def case_prod_beta Let_def)
  then show ?thesis using umem_release_ledger [OF _ _ _ _ _ 1 refl refl refl] o by simp
qed

lemma Umem_new_owned:
  assumes "env_laws env" "ledger tr = Some L" "ledger_wf L" "Umem_new env f0 c0 UmemConfig_default tr = (r, tr')"
  shows "case r of Inl e \<Rightarrow> (if reserve_threw (Umem_error e) then umem_leaked L tr' else ledger tr' = Some L)
    | Inr u \<Rightarrow> region u \<noteq> 0 \<and> region u \<notin> fst ` maps L \<and> umem u \<noteq> 0 \<and> umem u \<notin> fst ` umems L \<and>
        ledger tr' = Some (L\<lparr>maps := insert (region u, region_size u) (maps L), umems := insert (umem u, region u) (umems L)\<rparr>)"
  using assms(4)
proof (cases rule: Umem_new_cases)
  case mmap
  then show ?thesis using assms(2) by (auto simp: reserve_threw_def)
next
  case (create a n hp e ret)
  note acq = umem_acquired [OF assms(1,2) create(3,2)]
  have "a \<notin> snd ` umems L" using acq(2) assms(3) unfolding ledger_wf_def by blast
  from map_unmap [OF acq(2) this assms(2)] have "ledger tr' = Some L"
    unfolding create(4) using acq(1) by (simp only: if_False)
  then show ?thesis using create(1) by (simp add: reserve_threw_def)
next
  case (heap a n hp e h f c xc err)
  note acq = umem_acquired [OF assms(1,2) heap(4,3)]
  have "umem_leaked L tr'" unfolding umem_leaked_def
    by (intro exI [of _ a] exI [of _ n] exI [of _ h]) (use acq(1,2) acq(4) [OF heap(5)] heap(6) in simp)
  then show ?thesis using heap(1,2) by (auto simp: reserve_threw_def)
next
  case (ok a n hp e h f c xc)
  note acq = umem_acquired [OF assms(1,2) ok(3,2)]
  show ?thesis using acq(1,2) acq(4) [OF ok(6)] ok(1,7) by simp
qed

lemma FeedHandler_new_owned:
  assumes "env_laws env" "ledger tr = Some L" "ledger_wf L"
    and "FeedHandler_new env f0 c0 r0 t0 cfg tr = (r, tr')"
  shows "case r of Inl e \<Rightarrow> (if reserve_threw e then umem_leaked L tr' else ledger tr' = Some L) | Inr h \<Rightarrow> handler_owns L h tr'"
proof -
  obtain ru tr1 where un: "Umem_new env f0 c0 UmemConfig_default tr = (ru, tr1)" by fastforce
  note made = Umem_new_owned [OF assms(1-3) un]
  show ?thesis
  proof (cases ru)
    case (Inl e)
    then show ?thesis using made assms(4) un by (auto simp: FeedHandler_new_def)
  next
    case (Inr u)
    note u = made [unfolded Inr sum.case]
    obtain rs tr2 where sn: "XdpSocket_new env r0 t0 0 u (make_xdp_cfg cfg) tr1 = (rs, tr2)" by fastforce
    from sn show ?thesis
    proof (cases rule: XdpSocket_new_cases)
      case (fail e)
      have "ledger (snd (Umem_destroy u tr1)) = Some L" by (rule umem_release_ledger [OF assms(3)]) (use u in simp_all)
      moreover have "r = Inl (Socket_error e)" "tr' = snd (Umem_destroy u tr1)" using assms(4) un Inr sn fail by (simp_all add: FeedHandler_new_def)
      ultimately show ?thesis by (simp add: reserve_threw_def)
    next
      case (ok s ifc q sxc sk rr tt)
      have "socket_doc env" using assms(1) by (simp add: env_laws_def)
      then have "sk \<noteq> 0 \<and> sk \<notin> fst ` socks (L\<lparr>maps := insert (region u, region_size u) (maps L), umems := insert (umem u, region u) (umems L)\<rparr>)"
        using u ok(3) unfolding socket_doc_def by blast
      then have sk: "sk \<noteq> 0" "sk \<notin> fst ` socks L" by simp_all
      have l: "ledger tr2 = Some (L\<lparr>maps := insert (region u, region_size u) (maps L), umems := insert (umem u, region u) (umems L),
          socks := insert (sk, umem u) (socks L)\<rparr>)" using u by (simp add: ok(2))
      obtain h where h: "r = Inr h" "fh_umem h = u" "fh_socket h = s" "tr' = tr2"
        using assms(4) un Inr sn ok(1) by (auto simp: FeedHandler_new_def)
      have "handler_owns L h tr'" unfolding handler_owns_def Let_def h(2-4) ok(4) using u sk l assms(3) by simp
      then show ?thesis using h(1) by simp
    qed
  qed
qed

text \<open>
  (C14) Resources of a handler. If construction fails in \<open>mmap\<close>, in \<open>xsk_umem__create\<close> or in the socket, everything acquired on the way has
  been released. If \<open>reserve\<close> on the list of free frames throws, the mapping and the registered UMEM stay behind, and nothing else.
  If construction succeeds, then after any use that keeps the handles the destructor makes no illegal call (the socket goes
  before its UMEM, the UMEM before its region) and leaves exactly the resources that were live before.
\<close>

theorem feed_handler_resources:
  assumes "env_laws env" "ledger tr = Some L" "ledger_wf L"
    and "FeedHandler_new env f0 c0 r0 t0 cfg tr = (r, tr')"
  shows "case r of Inl e \<Rightarrow> (if reserve_threw e then umem_leaked L tr' else ledger tr' = Some L)
    | Inr h \<Rightarrow> \<forall>h'. same_handles h h' \<longrightarrow> ledger (snd (FeedHandler_destroy h' tr')) = Some L"
proof (cases r)
  case (Inr h)
  then have "handler_owns L h tr'" using FeedHandler_new_owned [OF assms] by simp
  then show ?thesis using Inr handler_owns_same handler_owns_destroy by fastforce
qed (use FeedHandler_new_owned [OF assms] in simp)

lemma default_size: "align_up 16777216 4096 = 16777216"
  by code_simp

lemma default_new:
  "2 \<le> lim \<Longrightarrow> Umem_new (small_env lim f c r t) f0 c0 UmemConfig_default [] =
    (Inr \<lparr>um_cfg = UmemConfig_default, region = 4096, region_size = 16777216, huge_pages = False, umem = 8192,
       fill_ring = f, comp_ring = c, free_frames = frames UmemConfig_default\<rparr>, [Umem_create 8192 4096, Mmap 4096 16777216])"
  by (simp add: umem_eval UmemConfig_default_def default_size fill_free_list_eq frames_def del: upt_rec_numeral)

lemma small_env_socket_ans:
  "env_socket (small_env lim f c r t) tr ifc q h cfg = (case (ledger tr, fresh_word lim tr) of
     (Some L, Some w) \<Rightarrow> if h \<in> fst ` umems L then Inr (w, r, t) else Inl (- 22) | _ \<Rightarrow> Inl (- 22))"
  by (simp add: small_env_def)

lemmas handler_eval = FeedHandler_new_def default_new XdpSocket_new_def create_socket_def small_env_socket_ans
  fresh_word_def MAP_FAILED_def no_resources_def

lemma handler_demo:
  "\<exists>h. FeedHandler_new (small_env 100 () () () ()) () () () () Config_default [] =
    (Inr h, [Socket_create 12288 8192, Umem_create 8192 4096, Mmap 4096 16777216])"
  by (simp add: handler_eval Let_def)

theorem feed_handler_resources_witness:
  "\<exists>h. FeedHandler_new (small_env 100 () () () ()) () () () () Config_default [] =
      (Inr h, [Socket_create 12288 8192, Umem_create 8192 4096, Mmap 4096 16777216]) \<and>
    ledger (snd (FeedHandler_destroy h [Socket_create 12288 8192, Umem_create 8192 4096, Mmap 4096 16777216])) = Some no_resources"
proof -
  have wf: "ledger [] = Some no_resources" "ledger_wf no_resources" by (simp_all add: ledger_wf_def no_resources_def)
  obtain h where h: "FeedHandler_new (small_env 100 () () () ()) () () () () Config_default [] =
    (Inr h, [Socket_create 12288 8192, Umem_create 8192 4096, Mmap 4096 16777216])" using handler_demo by blast
  have "same_handles h h" by (simp add: same_handles_def)
  with feed_handler_resources [OF small_env_laws wf h] h show ?thesis by auto
qed

lemma lex_less:
  fixes a b c d k :: nat
  assumes "b < k" "d < k"
  shows "a * k + b < c * k + d \<longleftrightarrow> a < c \<or> a = c \<and> b < d"
proof (cases a c rule: linorder_cases)
  case less
  then have "Suc a * k \<le> c * k" by (intro mult_right_mono) simp_all
  then show ?thesis using less assms by simp
next
  case greater
  then have "Suc c * k \<le> a * k" by (intro mult_right_mono) simp_all
  then show ?thesis using greater assms by simp
qed simp

text \<open>
  The monotonic clock in nanoseconds does not wrap for more than 580 years of uptime, and is strictly monotone in the
  kernel's (seconds, nanoseconds).
\<close>

theorem clock_ns_monotone:
  assumes "unat s1 < 18446744073" "unat s2 < 18446744073" "unat n1 < 1000000000" "unat n2 < 1000000000"
  shows "unat (clock_ns s1 n1) = unat s1 * 1000000000 + unat n1 \<and>
    (clock_ns s1 n1 < clock_ns s2 n2 \<longleftrightarrow> s1 < s2 \<or> s1 = s2 \<and> n1 < n2)"
proof -
  have c: "unat (clock_ns s n) = unat s * 1000000000 + unat n" if "unat s < 18446744073" "unat n < 1000000000" for s n
  proof -
    have "unat (s * 1000000000) = unat s * unat (1000000000 :: u64)" using that by (intro unat_mult_lt) simp
    then show ?thesis using that by (simp add: clock_ns_def unat_add_lt)
  qed
  have "unat s1 * 1000000000 + unat n1 < unat s2 * 1000000000 + unat n2 \<longleftrightarrow>
      unat s1 < unat s2 \<or> unat s1 = unat s2 \<and> unat n1 < unat n2"
    using assms(3,4) by (rule lex_less)
  then show ?thesis using c [OF assms(1,3)] c [OF assms(2,4)] by (simp add: word_less_nat_alt word_unat_eq_iff)
qed

theorem clock_ns_monotone_witness: "unat (clock_ns 5 7) = 5000000007 \<and> clock_ns 5 7 < clock_ns 6 0"
  using clock_ns_monotone [of 5 6 7 0] by simp

text \<open>
  (C35) Starting again after stop() duplicates frames. start() primes the fill ring every time; if at that moment the fill ring
  has room (the kernel has filled the frames and they wait in the RX ring), every primed frame is then
  offered to the kernel a second time while its first copy is still in use.
\<close>

theorem restart_duplicates_frames:
  assumes "prod_laws fapi fv" "cfg_ok (um_cfg (fh_umem h))" "primed (um_cfg (fh_umem h)) < 2 ^ 32" "\<not> rx_thread h"
    and "rx_path_inv fv rv (mset [0..<primed (um_cfg (fh_umem h))])
      \<lparr>rp_umem = fh_umem h, rp_socket = fh_socket h, flight = fl, held = hs\<rparr>"
    and "primed (um_cfg (fh_umem h)) \<le> space fv (fill_ring (fh_umem h))"
  shows "\<exists>h'. start fapi h = Some h' \<and>
    frames_in fv rv \<lparr>rp_umem = fh_umem h', rp_socket = fh_socket h', flight = fl, held = hs\<rparr> =
      mset [0..<primed (um_cfg (fh_umem h))] + mset [0..<primed (um_cfg (fh_umem h))]"
proof -
  let ?u = "fh_umem h" and ?p = "primed (um_cfg (fh_umem h))"
  have st: "staged fv (fill_ring ?u) = []" and M: "frames_in fv rv \<lparr>rp_umem = ?u, rp_socket = fh_socket h, flight = fl, held = hs\<rparr> = mset [0..<?p]"
    using assms(5) by (simp_all add: rx_path_inv_def)
  note P = populate_queue [OF assms(1) st assms(3,6)]
  have cfg: "um_cfg (populate_fill_ring fapi ?u) = um_cfg ?u" by (simp add: populate_fill_ring_def split: prod.split)
  have "mset (map (frame_no ?u) (take ?p (frames (um_cfg ?u)))) = mset [0..<?p]"
    unfolding primed_frame_nos [OF assms(2)] ..
  then have "frames_in fv rv \<lparr>rp_umem = populate_fill_ring fapi ?u, rp_socket = fh_socket h, flight = fl, held = hs\<rparr>
      = mset [0..<?p] + mset [0..<?p]"
    using P(1) frame_no_cfg [OF cfg] M by (simp add: frames_in_def ac_simps)
  then show ?thesis using assms(4) by (simp add: start_def)
qed

theorem restart_duplicates_frames_witness:
  "\<exists>h'. start (lring_prod 0) (demo_handler (empty_lring 7 2) (lcons_of 0 [demo_desc 256, demo_desc 2304])) = Some h' \<and>
     frames_in lring_prod_view lring_cons_view \<lparr>rp_umem = fh_umem h', rp_socket = fh_socket h', flight = [], held = []\<rparr> =
       mset [0..<2] + mset [0..<2]"
proof -
  let ?h = "demo_handler (empty_lring 7 2) (lcons_of 0 [demo_desc 256, demo_desc 2304])"
  have p: "primed (um_cfg (fh_umem ?h)) = 2" by (simp add: primed_def tiny_cfg_def)
  have "rx_path_inv lring_prod_view lring_cons_view (mset [0..<2])
      \<lparr>rp_umem = fh_umem ?h, rp_socket = fh_socket ?h, flight = [], held = []\<rparr>"
  proof -
    have l: "[0..<2] = [0, Suc 0]" by (simp add: upt_rec)
    show ?thesis unfolding l by (simp add: rx_path_inv_def frames_in_def demo_desc_def frame_no_def tiny_cfg_def)
  qed
  from restart_duplicates_frames [OF lring_prod_laws, where h = ?h, unfolded p, OF _ _ _ this] show ?thesis
    using tiny_ok by simp
qed

end
