(* ===== verification/Baseline_Run.thy ===== *)
theory Baseline_Run
  imports Latency_Bench Handler_Lifecycle
begin

text \<open>
  The two runs and \<open>main\<close> of \<open>bench/bench_baseline_comparison.cpp\<close>: from the construction of a receiver and a sender over warming up and
  measuring to their destruction. \<open>StandardSocketReceiver\<close> is not part of the sources; its operations are a parameter. The
  handler's receive thread runs beside \<open>run_af_xdp\<close>: a parameter \<open>rx\<close> says what it did to the handler before each \<open>pop\<close>, and
  \<open>rx_turn\<close> below is the thread's own loop body on a list of inputs.
\<close>

section \<open>The runs\<close>

definition xdp_pop ::
  "('w \<Rightarrow> ('f, 'c, 'r, 't) FeedHandler \<Rightarrow> 'w \<times> ('f, 'c, 'r, 't) FeedHandler) \<Rightarrow> 'w \<times> ('f, 'c, 'r, 't) FeedHandler
   \<Rightarrow> FeedEvent option \<times> 'w \<times> ('f, 'c, 'r, 't) FeedHandler" where
  "xdp_pop rx wh = (let (w1, h1) = rx (fst wh) (snd wh); (ev, h2) = handler_pop h1 in (ev, w1, h2))"

text \<open>\<open>while (auto ev = handler.pop())\<close>\<close>

partial_function (option) drain :: "('r \<Rightarrow> FeedEvent option \<times> 'r) \<Rightarrow> 'r \<Rightarrow> 'r option" where
  "drain recv_pop r = (case recv_pop r of (ev, r1) \<Rightarrow> (case ev of None \<Rightarrow> Some r1 | Some e \<Rightarrow> drain recv_pop r1))"

fun warm_up ::
  "net_plan \<Rightarrow> clock \<Rightarrow> ('r \<Rightarrow> FeedEvent option \<times> 'r) \<Rightarrow> SyntheticSender \<Rightarrow> nat \<Rightarrow> 'r \<Rightarrow> net \<times> time_event list
   \<Rightarrow> (sender_error option \<times> 'r \<times> net \<times> time_event list) option" where
  "warm_up plan clk recv_pop s 0 r st = Some (None, r, st)"
| "warm_up plan clk recv_pop s (Suc k) r st =
     (case send_one plan clk s st of
        (Inl e, st1) \<Rightarrow> Some (Some e, r, st1)
      | (Inr ts, n1, tr1) \<Rightarrow>
          (let tr2 = Nanosleep 0 1000000 # tr1
           in case drain recv_pop r of
                None \<Rightarrow> None
              | Some r1 \<Rightarrow> warm_up plan clk recv_pop s k r1 (n1, tr2)))"

definition warm_measure ::
  "net_plan \<Rightarrow> (u64 \<Rightarrow> bool) \<Rightarrow> clock \<Rightarrow> ('r \<Rightarrow> FeedEvent option \<times> 'r) \<Rightarrow> SyntheticSender \<Rightarrow> int \<Rightarrow> 'r \<Rightarrow> net \<times> time_event list
   \<Rightarrow> ((bench_error + u64 list \<times> int) \<times> 'r \<times> net \<times> time_event list) option" where
  "warm_measure plan alloc_ok clk recv_pop s n_packets r st =
     (case warm_up plan clk recv_pop s 10 r st of
        None \<Rightarrow> None
      | Some (Some e, r1, st1) \<Rightarrow> Some (Inl (Send_error e), r1, st1)
      | Some (None, r1, n1, tr1) \<Rightarrow>
          (let tr2 = Nanosleep 0 10000000 # tr1
           in case drain recv_pop r1 of
                None \<Rightarrow> None
              | Some r2 \<Rightarrow> measure_latency plan alloc_ok clk recv_pop s n_packets r2 (n1, tr2)))"

datatype run_error = Receiver_failed | Handler_failed handler_error | Sender_failed sender_error | Measure_failed bench_error

text \<open>
  What both runs do with the sender: construct it, warm up, measure, destroy it. An exception destroys what has been constructed. (Nothing in
  the program catches it; that the stack is unwound before the program ends is then left to the implementation.)
\<close>

definition sender_session ::
  "net_plan \<Rightarrow> (u64 \<Rightarrow> bool) \<Rightarrow> clock \<Rightarrow> ('r \<Rightarrow> FeedEvent option \<times> 'r) \<Rightarrow> int \<Rightarrow> 'r \<Rightarrow> net \<times> time_event list
   \<Rightarrow> ((run_error + u64 list \<times> int) \<times> 'r \<times> net \<times> time_event list) option" where
  "sender_session plan alloc_ok clk recv_pop n r st =
     do {
       (res, n1) \<leftarrow> SyntheticSender_new plan ''10.11.0.1'' ''10.11.0.2'' 9999 ''sender_ns'' (fst st);
       (case res of
          Inl e \<Rightarrow> Some (Inl (Sender_failed e), r, n1, snd st)
        | Inr s \<Rightarrow>
            do {
              (res2, r2, n2, tm2) \<leftarrow> warm_measure plan alloc_ok clk recv_pop s n r (n1, snd st);
              n3 \<leftarrow> SyntheticSender_destroy s n2;
              Some (map_sum Measure_failed (\<lambda>p. p) res2, r2, n3, tm2)
            })
     }"

text \<open>The latencies and the number of lost packets, and the two counters that are printed.\<close>

record run_result =
  run_lats :: "u64 list"
  run_lost :: int
  run_rx :: u64
  run_dropped :: u64

text \<open>
  \<open>StandardSocketReceiver\<close>: the constructor with the port and \<open>busy_poll\<close> of its configuration, which may throw (None), and the other
  operations, on the state of the object and the part of the outside world it uses.
\<close>

record ('q, 'e) std_receiver =
  std_new :: "u16 \<Rightarrow> bool \<Rightarrow> 'e \<Rightarrow> 'q option \<times> 'e"
  std_start :: "'q \<Rightarrow> 'q"
  std_pop :: "'q \<Rightarrow> FeedEvent option \<times> 'q"
  std_stop :: "'q \<Rightarrow> 'q"
  std_destroy :: "'q \<Rightarrow> 'e \<Rightarrow> 'e"
  std_received :: "'q \<Rightarrow> u64"
  std_dropped :: "'q \<Rightarrow> u64"

definition run_standard_socket ::
  "('q, 'e) std_receiver \<Rightarrow> net_plan \<Rightarrow> (u64 \<Rightarrow> bool) \<Rightarrow> clock \<Rightarrow> int \<Rightarrow> net \<times> time_event list \<Rightarrow> 'e
   \<Rightarrow> ((run_error + run_result) \<times> (net \<times> time_event list) \<times> 'e) option" where
  "run_standard_socket api plan alloc_ok clk n st e =
     (case std_new api 9999 False e of
        (None, e1) \<Rightarrow> Some (Inl Receiver_failed, st, e1)
      | (Some q, e1) \<Rightarrow>
          do {
            (res, q2, st2) \<leftarrow> sender_session plan alloc_ok clk (std_pop api) n (std_start api q) (fst st, Nanosleep 0 20000000 # snd st);
            (case res of
               Inl err \<Rightarrow> Some (Inl err, st2, std_destroy api q2 e1)
             | Inr (lats, lost) \<Rightarrow>
                 Some (Inr \<lparr>run_lats = lats, run_lost = lost, run_rx = std_received api q2, run_dropped = std_dropped api q2\<rparr>,
                   st2, std_destroy api (std_stop api q2) e1))
          })"

text \<open>The handler's configuration; \<open>start\<close> is None when it would call \<open>std::terminate\<close>.\<close>

definition bench_config :: Config where
  "bench_config = Config_default\<lparr>c_iface := ''veth1'', c_busy_poll := False\<rparr>"

definition run_af_xdp ::
  "('f, 'c, 'r, 't) env \<Rightarrow> ('f, u64) prod_api \<Rightarrow> 'f \<Rightarrow> 'c \<Rightarrow> 'r \<Rightarrow> 't \<Rightarrow> net_plan \<Rightarrow> (u64 \<Rightarrow> bool) \<Rightarrow> clock
   \<Rightarrow> ('w \<Rightarrow> ('f, 'c, 'r, 't) FeedHandler \<Rightarrow> 'w \<times> ('f, 'c, 'r, 't) FeedHandler) \<Rightarrow> 'w \<Rightarrow> int \<Rightarrow> net \<times> time_event list \<Rightarrow> sys_event list
   \<Rightarrow> ((run_error + run_result) \<times> (net \<times> time_event list) \<times> sys_event list) option" where
  "run_af_xdp env fapi f0 c0 r0 t0 plan alloc_ok clk rx w n st tr =
     (case FeedHandler_new env f0 c0 r0 t0 bench_config tr of
        (Inl e, tr1) \<Rightarrow> Some (Inl (Handler_failed e), st, tr1)
      | (Inr h, tr1) \<Rightarrow>
          do {
            h1 \<leftarrow> start fapi h;
            (res, (w2, h2), st2) \<leftarrow> sender_session plan alloc_ok clk (xdp_pop rx) n (w, h1) (fst st, Nanosleep 0 20000000 # snd st);
            (case res of
               Inl err \<Rightarrow> Some (Inl err, st2, snd (FeedHandler_destroy h2 tr1))
             | Inr (lats, lost) \<Rightarrow>
                 Some (Inr \<lparr>run_lats = lats, run_lost = lost, run_rx = packets_received h2, run_dropped = packets_dropped h2\<rparr>,
                   st2, snd (FeedHandler_destroy (stop h2) tr1)))
          })"

section \<open>The program\<close>

text \<open>What the operating system answers to \<open>getuid\<close>, \<open>if_nametoindex\<close> and \<open>stat\<close>.\<close>

record bench_os =
  os_getuid :: u32
  os_if_nametoindex :: "string \<Rightarrow> u32"
  os_stat :: "string \<Rightarrow> int"

definition has_root :: "bench_os \<Rightarrow> bool" where
  "has_root os \<longleftrightarrow> os_getuid os = 0"

definition iface_exists :: "bench_os \<Rightarrow> string \<Rightarrow> bool" where
  "iface_exists os name \<longleftrightarrow> os_if_nametoindex os name \<noteq> 0"

definition netns_exists :: "bench_os \<Rightarrow> string \<Rightarrow> bool" where
  "netns_exists os name \<longleftrightarrow> os_stat os (''/var/run/netns/'' @ name) = 0"

definition baseline_main ::
  "bench_os \<Rightarrow> ('q, 'e) std_receiver \<Rightarrow> ('f, 'c, 'r, 't) env \<Rightarrow> ('f, u64) prod_api \<Rightarrow> 'f \<Rightarrow> 'c \<Rightarrow> 'r \<Rightarrow> 't \<Rightarrow> net_plan \<Rightarrow> (u64 \<Rightarrow> bool) \<Rightarrow> clock
   \<Rightarrow> ('w \<Rightarrow> ('f, 'c, 'r, 't) FeedHandler \<Rightarrow> 'w \<times> ('f, 'c, 'r, 't) FeedHandler) \<Rightarrow> 'w \<Rightarrow> net \<times> time_event list \<Rightarrow> 'e \<Rightarrow> sys_event list
   \<Rightarrow> (tool_exit \<times> bench_table option \<times> (net \<times> time_event list) \<times> 'e \<times> sys_event list) option" where
  "baseline_main os api env fapi f0 c0 r0 t0 plan alloc_ok clk rx w st e tr =
     (if \<not> has_root os then Some (Exit 1, None, st, e, tr)
      else if \<not> iface_exists os ''veth1'' \<or> \<not> netns_exists os ''sender_ns'' then Some (Exit 1, None, st, e, tr)
      else do {
        (res1, st1, e1) \<leftarrow> run_standard_socket api plan alloc_ok clk 1000 st e;
        (case res1 of
           Inl err \<Rightarrow> Some (Uncaught, None, st1, e1, tr)
         | Inr a \<Rightarrow>
             do {
               (res2, st2, tr1) \<leftarrow> run_af_xdp env fapi f0 c0 r0 t0 plan alloc_ok clk rx w 1000 (fst st1, Nanosleep 0 200000000 # snd st1) tr;
               (case res2 of
                  Inl err \<Rightarrow> Some (Uncaught, None, st2, e1, tr1)
                | Inr b \<Rightarrow>
                    do { t \<leftarrow> print_table (run_lats a) (run_lats b) 1000 (run_lost a) (run_lost b); Some (Exit 0, Some t, st2, e1, tr1) })
             })
      })"

section \<open>Draining and warming up\<close>

text \<open>From every state that pops lead to, finitely many more pops find the queue empty.\<close>

definition quiesces :: "('r \<Rightarrow> FeedEvent option \<times> 'r) \<Rightarrow> 'r \<Rightarrow> bool" where
  "quiesces recv_pop r \<longleftrightarrow> (\<forall>r'. pops_to recv_pop r r' \<longrightarrow> (\<exists>k. fst (recv_pop (snd (popped recv_pop k r'))) = None))"

lemma quiesces_pops: "quiesces recv_pop r \<Longrightarrow> pops_to recv_pop r r' \<Longrightarrow> quiesces recv_pop r'"
  unfolding quiesces_def by (metis pops_to_trans)

lemma pops_to_pop: "recv_pop r = (ev, r1) \<Longrightarrow> pops_to recv_pop r r1"
  unfolding pops_to_def by (rule exI [of _ "Suc 0"]) simp

lemma drain_unfold: "recv_pop r = (ev, r1) \<Longrightarrow> drain recv_pop r = (case ev of None \<Rightarrow> Some r1 | Some e \<Rightarrow> drain recv_pop r1)"
  by (subst drain.simps) simp

lemma drain_at:
  assumes "fst (recv_pop (snd (popped recv_pop k r))) = None"
  shows "\<exists>r'. drain recv_pop r = Some r' \<and> pops_to recv_pop r r'"
  using assms
proof (induction k arbitrary: r)
  case 0
  obtain ev r1 where p: "recv_pop r = (ev, r1)" by fastforce
  then have "ev = None" using 0 by simp
  then have "drain recv_pop r = Some r1" using drain_unfold [of recv_pop, OF p] by simp
  then show ?case using pops_to_pop [of recv_pop, OF p] by blast
next
  case (Suc k)
  obtain ev r1 where p: "recv_pop r = (ev, r1)" by fastforce
  note pt = pops_to_pop [of recv_pop, OF p]
  show ?case
  proof (cases ev)
    case None
    then have "drain recv_pop r = Some r1" using drain_unfold [of recv_pop, OF p] by simp
    then show ?thesis using pt by blast
  next
    case (Some e)
    have "fst (recv_pop (snd (popped recv_pop k r1))) = None" using Suc.prems p by (simp add: Let_def case_prod_beta)
    then obtain r' where r': "drain recv_pop r1 = Some r'" "pops_to recv_pop r1 r'" using Suc.IH by blast
    have "drain recv_pop r = Some r'" using drain_unfold [of recv_pop, OF p] Some r'(1) by simp
    then show ?thesis using pops_to_trans [OF pt r'(2)] by blast
  qed
qed

text \<open>Either the loop never finds the queue empty, or it ends after some pops.\<close>

lemma drain_pops:
  assumes "drain recv_pop r = Some r'"
  shows "pops_to recv_pop r r'"
proof (rule drain.raw_induct [where P = pops_to, OF _ assms])
  fix loop recv_pop and r r' :: 'a
  assume IH: "\<And>recv_pop (r :: 'a) r'. loop recv_pop r = Some r' \<Longrightarrow> pops_to recv_pop r r'"
    and body: "(case recv_pop r of (ev, r1) \<Rightarrow> (case ev of None \<Rightarrow> Some r1 | Some e \<Rightarrow> loop recv_pop r1)) = Some r'"
  obtain ev r1 where p: "recv_pop r = (ev, r1)" by fastforce
  note pt = pops_to_pop [of recv_pop, OF p]
  show "pops_to recv_pop r r'"
  proof (cases ev)
    case None
    then show ?thesis using body p pt by simp
  next
    case (Some e)
    then have "loop recv_pop r1 = Some r'" using body p by simp
    then show ?thesis by (intro pops_to_trans [OF pt] IH)
  qed
qed

lemma drain_cases:
  obtains (stuck) "drain recv_pop r = None" "\<not> quiesces recv_pop r"
  | (ends) r' where "drain recv_pop r = Some r'" "pops_to recv_pop r r'"
proof (cases "drain recv_pop r")
  case None
  have "\<not> quiesces recv_pop r"
  proof
    assume "quiesces recv_pop r"
    then have "\<exists>k. fst (recv_pop (snd (popped recv_pop k r))) = None" using pops_to_refl [of recv_pop r] unfolding quiesces_def by blast
    then have "\<exists>r'. drain recv_pop r = Some r' \<and> pops_to recv_pop r r'" by (elim exE) (rule drain_at)
    then show False using None by simp
  qed
  then show ?thesis using None stuck by simp
next
  case (Some r')
  show ?thesis using Some drain_pops [OF Some] by (rule ends)
qed

lemma calm_nanosleep [simp]: "calm (Nanosleep s n # tr) \<longleftrightarrow> s = 0 \<and> n < 1000000000 \<and> calm tr"
  by (simp add: calm_def conj_assoc)

lemma warm_up_cases:
  assumes "fds n (sock_fd s) = Some (Sock k a)" "genuine clk tr" "calm tr"
  obtains (stuck) "warm_up plan clk recv_pop s m r (n, tr) = None" "\<not> quiesces recv_pop r"
  | (ends) res r' n' tr' where "warm_up plan clk recv_pop s m r (n, tr) = Some (res, r', n', tr')" "pops_to recv_pop r r'"
    "genuine clk tr'" "calm tr'" "length tr' \<le> length tr + 2 * m"
    "\<exists>ts. sent_at s k ts n n' \<and> (if res = None then length ts = m else \<exists>c. send_fails plan c)"
  using assms
proof (induction m arbitrary: r n tr thesis)
  case 0
  show ?case by (rule "0.prems"(2) [of None r n tr]) (use "0.prems" in \<open>auto simp: sent_at_def\<close>)
next
  case (Suc m)
  let ?t = "now_ns clk tr"
  note o = send_one_cases [OF Suc.prems(3), of plan clk tr]
  show ?case
  proof (cases "send_fails plan (net_calls n)")
    case True
    show ?thesis
      by (rule Suc.prems(2) [of "Some (Sendto_failed (errno_at plan (net_calls n)))" r "count_call n" "Clock_read ?t # tr"])
        (use True Suc.prems in \<open>auto simp: o sent_at_def\<close>)
  next
    case False
    let ?n = "(count_call n)\<lparr>sent := sent n @ [datagram_of s k ?t]\<rparr>" and ?tr = "Nanosleep 0 1000000 # Clock_read ?t # tr"
    have i: "fds ?n (sock_fd s) = Some (Sock k a)" "genuine clk ?tr" "calm ?tr" using Suc.prems(3-5) by simp_all
    show ?thesis
    proof (cases rule: drain_cases [of recv_pop r])
      case stuck
      then show ?thesis using False by (intro Suc.prems(1)) (simp_all add: o)
    next
      case (ends r1)
      note d = ends
      have w: "warm_up plan clk recv_pop s (Suc m) r (n, tr) = warm_up plan clk recv_pop s m r1 (?n, ?tr)" using False d(1) by (simp add: o)
      show ?thesis
      proof (rule Suc.IH [OF _ _ i, of r1])
        assume "warm_up plan clk recv_pop s m r1 (?n, ?tr) = None" "\<not> quiesces recv_pop r1"
        then show ?thesis using quiesces_pops [OF _ d(2)] by (intro Suc.prems(1)) (auto simp: w simp del: warm_up.simps)
      next
        fix res r' n' tr'
        assume e: "warm_up plan clk recv_pop s m r1 (?n, ?tr) = Some (res, r', n', tr')" "pops_to recv_pop r1 r'" "genuine clk tr'" "calm tr'"
          "length tr' \<le> length ?tr + 2 * m" "\<exists>ts. sent_at s k ts ?n n' \<and> (if res = None then length ts = m else \<exists>c. send_fails plan c)"
        then obtain ts where ts: "sent_at s k ts ?n n'" "if res = None then length ts = m else \<exists>c. send_fails plan c" by blast
        have "sent_at s k (?t # ts) n n'" using ts(1) by (simp add: sent_at_def)
        then show ?thesis using e ts(2) pops_to_trans [OF d(2) e(2)]
          by (intro Suc.prems(2) [of res r' n' tr']) (auto simp: w simp del: warm_up.simps intro!: exI [of _ "?t # ts"])
      qed
    qed
  qed
qed

text \<open>
  The outcome of a session that returns a result: the samples and the losses are those of a measurement on this receiver, ten datagrams for
  warming up and one per measurement were sent, and the state can serve another session.
\<close>

definition session_ok ::
  "clock \<Rightarrow> ('r \<Rightarrow> FeedEvent option \<times> 'r) \<Rightarrow> int \<Rightarrow> 'r \<Rightarrow> net \<times> time_event list \<Rightarrow> u64 list \<Rightarrow> int \<Rightarrow> net \<times> time_event list \<Rightarrow> bool" where
  "session_ok clk recv_pop n r st lats lost st' \<longleftrightarrow>
     (\<exists>r1 r2. pops_to recv_pop r r1 \<and> measured recv_pop (nat n) r1 lats lost r2 (snd st')) \<and>
     length (sent (fst st')) = length (sent (fst st)) + nat n + 10 \<and> next_fd (fst st) \<le> next_fd (fst st') \<and> netns (fst st') = netns (fst st) \<and>
     genuine clk (snd st') \<and> calm (snd st') \<and> length (snd st') \<le> length (snd st) + nat n * 10004 + 21"

lemma measure_latency_outcome:
  assumes "clock_monotone clk" "sleeps_fully clk" "clock_runs clk H" "fds n (sock_fd s) = Some (Sock k a)"
    "genuine clk tr" "calm tr" "length tr + nat n_packets * 10004 \<le> H"
  obtains res r' n' tr' where "measure_latency plan alloc_ok clk recv_pop s n_packets r (n, tr) = Some (res, r', n', tr')" "pops_to recv_pop r r'"
    "fds n' = fds n" "genuine clk tr'" "calm tr'" "length tr' \<le> length tr + nat n_packets * 10004"
    "\<forall>lats lost. res = Inr (lats, lost) \<longrightarrow> (\<exists>ts. measured recv_pop (nat n_packets) r lats lost r' tr' \<and> sent_at s k ts n n' \<and> length ts = nat n_packets)"
    "isl res \<longrightarrow> reserve_throws alloc_ok (of_int n_packets) \<or> (\<exists>c. send_fails plan c)"
proof (cases "reserve_throws alloc_ok (of_int n_packets)")
  case True
  show thesis by (rule that [of "Inl Reserve_error" r n tr]) (use True assms(5,6) in \<open>simp_all add: measure_latency_def\<close>)
next
  case False
  obtain res r' n' tr' where l: "measure_loop plan clk recv_pop s (nat n_packets) [] 0 r (n, tr) = Some (res, r', n', tr')"
    "pops_to recv_pop r r'" "fds n' = fds n" "genuine clk tr'" "calm tr'" "length tr' \<le> length tr + nat n_packets * 10004"
    "case res of Inr (lats', lost') \<Rightarrow> \<exists>ls ts. lats' = [] @ ls \<and> measured recv_pop (nat n_packets) r ls (lost' - 0) r' tr' \<and>
       sent_at s k ts n n' \<and> length ts = nat n_packets
     | Inl e \<Rightarrow> \<exists>c. send_fails plan c \<and> e = Send_error (Sendto_failed (errno_at plan c))"
    by (rule measure_loop_total [OF assms])
  have "\<forall>lats lost. res = Inr (lats, lost) \<longrightarrow> (\<exists>ts. measured recv_pop (nat n_packets) r lats lost r' tr' \<and> sent_at s k ts n n' \<and> length ts = nat n_packets)"
    "isl res \<longrightarrow> (\<exists>c. send_fails plan c)" using l(7) by (auto split: sum.splits)
  then show thesis using False l(1-6) by (intro that [of res r' n' tr']) (simp_all add: measure_latency_def)
qed

lemma warm_measure_cases:
  assumes "clock_monotone clk" "sleeps_fully clk" "clock_runs clk H" "fds n (sock_fd s) = Some (Sock k a)"
    "genuine clk tr" "calm tr" "length tr + nat n_packets * 10004 + 21 \<le> H"
  obtains (stuck) "warm_measure plan alloc_ok clk recv_pop s n_packets r (n, tr) = None" "\<not> quiesces recv_pop r"
  | (ends) res r' n' tr' where "warm_measure plan alloc_ok clk recv_pop s n_packets r (n, tr) = Some (res, r', n', tr')"
    "pops_to recv_pop r r'" "fds n' = fds n"
    "\<forall>lats lost. res = Inr (lats, lost) \<longrightarrow> session_ok clk recv_pop n_packets r (n, tr) lats lost (n', tr')"
    "isl res \<longrightarrow> reserve_throws alloc_ok (of_int n_packets) \<or> (\<exists>c. send_fails plan c)"
using assms(4-6)
proof (cases rule: warm_up_cases [where plan = plan and recv_pop = recv_pop and m = 10 and r = r])
  case stuck
  then show ?thesis by (intro that(1)) (simp_all add: warm_measure_def)
next
  case (ends e r1 n1 tr1)
  note w = ends
  obtain ts where ts: "sent_at s k ts n n1" "if e = None then length ts = 10 else \<exists>c. send_fails plan c" using w(6) by blast
  show thesis
  proof (cases e)
    case (Some err)
    show ?thesis by (rule that(2) [of "Inl (Send_error err)" r1 n1 tr1]) (use Some w(1,2) ts in \<open>simp_all add: warm_measure_def sent_at_def\<close>)
  next
    case None
    let ?tr = "Nanosleep 0 10000000 # tr1"
    show ?thesis
    proof (cases rule: drain_cases [of recv_pop r1])
      case stuck
      then show ?thesis using None w(1) quiesces_pops [OF _ w(2)] by (intro that(1)) (auto simp: warm_measure_def)
    next
      case (ends r2)
      note d = ends
      have p: "pops_to recv_pop r r2" using w(2) d(2) by (rule pops_to_trans)
      have i: "fds n1 (sock_fd s) = Some (Sock k a)" "genuine clk ?tr" "calm ?tr" "length ?tr + nat n_packets * 10004 \<le> H"
        using ts(1) assms(4,7) w(3-5) by (simp_all add: sent_at_def)
      obtain res r' n' tr' where l: "measure_latency plan alloc_ok clk recv_pop s n_packets r2 (n1, ?tr) = Some (res, r', n', tr')" "pops_to recv_pop r2 r'"
        "fds n' = fds n1" "genuine clk tr'" "calm tr'" "length tr' \<le> length ?tr + nat n_packets * 10004"
        "\<forall>lats lost. res = Inr (lats, lost) \<longrightarrow> (\<exists>us. measured recv_pop (nat n_packets) r2 lats lost r' tr' \<and> sent_at s k us n1 n' \<and> length us = nat n_packets)"
        "isl res \<longrightarrow> reserve_throws alloc_ok (of_int n_packets) \<or> (\<exists>c. send_fails plan c)"
        by (rule measure_latency_outcome [OF assms(1-3) i])
      have "session_ok clk recv_pop n_packets r (n, tr) lats lost (n', tr')" if res: "res = Inr (lats, lost)" for lats lost
      proof -
        obtain us where "measured recv_pop (nat n_packets) r2 lats lost r' tr'" "sent_at s k us n1 n'" "length us = nat n_packets"
          using l(7) res by blast
        then show ?thesis using ts None l(4-6) w(5) p by (auto simp: session_ok_def sent_at_def)
      qed
      then have "\<forall>lats lost. res = Inr (lats, lost) \<longrightarrow> session_ok clk recv_pop n_packets r (n, tr) lats lost (n', tr')" by blast
      moreover have "warm_measure plan alloc_ok clk recv_pop s n_packets r (n, tr) = Some (res, r', n', tr')"
        using w(1) d(1) None l(1) by (simp add: warm_measure_def)
      moreover have "fds n' = fds n" using l(3) ts(1) by (simp add: sent_at_def)
      ultimately show ?thesis using l(8) pops_to_trans [OF p l(2)] by (intro that(2) [of res r' n' tr'])
    qed
  qed
qed

lemma sender_made_destroy:
  assumes "sender_made plan ip ns n (Inr s) n1" "fds n2 = fds n1"
  shows "SyntheticSender_destroy s n2 = Some (n2\<lparr>fds := fds n\<rparr>)"
  using assms by (simp add: sender_made_def SyntheticSender_destroy_def sys_close_def fun_upd_idem)

lemma sender_session_cases:
  assumes "clock_monotone clk" "sleeps_fully clk" "clock_runs clk H" "net_ok net"
    "genuine clk tm" "calm tm" "length tm + nat n * 10004 + 21 \<le> H"
  obtains (stuck) "sender_session plan alloc_ok clk recv_pop n r (net, tm) = None" "\<not> quiesces recv_pop r"
  | (ends) res r' net' tm' where "sender_session plan alloc_ok clk recv_pop n r (net, tm) = Some (res, r', net', tm')"
    "pops_to recv_pop r r'" "fds net' = fds net"
    "\<forall>lats lost. res = Inr (lats, lost) \<longrightarrow> session_ok clk recv_pop n r (net, tm) lats lost (net', tm')"
    "isl res \<longrightarrow> \<not> quiet_net plan ''sender_ns'' net \<or> reserve_throws alloc_ok (of_int n)"
proof -
  obtain rs n1 where sn: "SyntheticSender_new plan ''10.11.0.1'' ''10.11.0.2'' 9999 ''sender_ns'' net = Some (rs, n1)"
    "sender_made plan ''10.11.0.1'' ''sender_ns'' net rs n1" using sender_constructed [OF assms(4)] by blast
  have ip: "inet_pton ''10.11.0.1'' \<noteq> None" "inet_pton ''10.11.0.2'' \<noteq> None" by code_simp+
  have quiet: "quiet_net plan ''sender_ns'' net \<longrightarrow> (\<exists>s. rs = Inr s)" using sender_quiet [OF assms(4) _ ip sn(1)] by blast
  show thesis
  proof (cases rs)
    case (Inl e)
    show ?thesis by (rule that(2) [of "Inl (Sender_failed e)" r n1 tm]) (use sn quiet Inl in \<open>simp_all add: sender_session_def sender_made_def\<close>)
  next
    case (Inr s)
    note sm = sn(2) [unfolded Inr]
    have f: "fds n1 (sock_fd s) = Some (Sock (target_ns ''sender_ns'' net) (inet_pton ''10.11.0.1''))" "sent n1 = sent net"
      using sm by (simp_all add: sender_made_def)
    have nx: "next_fd net \<le> next_fd n1" "netns n1 = netns net"
      using sender_next_fd [OF sn(1) [unfolded Inr]] sender_netns [OF sn(1) [unfolded Inr]] .
    from assms(1-3) f(1) assms(5-7) show ?thesis
    proof (cases rule: warm_measure_cases [where plan = plan and alloc_ok = alloc_ok and recv_pop = recv_pop and r = r])
      case stuck
      then show ?thesis using sn(1) Inr by (intro that(1)) (simp_all add: sender_session_def)
    next
      case (ends res r2 n2 tm2)
      have "sender_session plan alloc_ok clk recv_pop n r (net, tm) = Some (map_sum Measure_failed (\<lambda>p. p) res, r2, n2\<lparr>fds := fds net\<rparr>, tm2)"
        using sn(1) Inr ends(1) sender_made_destroy [OF sm ends(3)] by (simp add: sender_session_def)
      moreover have "\<forall>lats lost. map_sum Measure_failed (\<lambda>p. p) res = Inr (lats, lost) \<longrightarrow>
          session_ok clk recv_pop n r (net, tm) lats lost (n2\<lparr>fds := fds net\<rparr>, tm2)"
        using ends(4) f(2) nx by (cases res) (auto simp: session_ok_def)
      moreover have "isl (map_sum Measure_failed (\<lambda>p. p) res) \<longrightarrow> \<not> quiet_net plan ''sender_ns'' net \<or> reserve_throws alloc_ok (of_int n)"
        using ends(5) by (cases res) (auto simp: quiet_net_def)
      ultimately show ?thesis using ends(2) by (intro that(2)) simp_all
    qed
  qed
qed

section \<open>The AF_XDP run\<close>

lemma same_handles_refl [simp]: "same_handles h h"
  by (simp add: same_handles_def)

lemma same_handles_trans: "same_handles h h1 \<Longrightarrow> same_handles h1 h2 \<Longrightarrow> same_handles h h2"
  by (simp add: same_handles_def)

lemma same_handles_simps [simp]:
  "same_handles h (h1\<lparr>fh_ring := q\<rparr>) = same_handles h h1" "same_handles h (stop h1) = same_handles h h1"
  by (simp_all add: same_handles_def stop_def Let_def)

lemma handler_pop_handles: "same_handles h (snd (handler_pop h))"
  by (simp add: handler_pop_def case_prod_beta)

lemma start_after_new:
  assumes "FeedHandler_new env f0 c0 r0 t0 cfg tr = (Inr h, tr1)"
  obtains h1 where "start fapi h = Some h1" "same_handles h h1" "fh_ring h1 = SpscRingBuffer_new kRingCap FeedEvent_new"
proof -
  have h: "\<not> rx_thread h" "fh_ring h = SpscRingBuffer_new kRingCap FeedEvent_new"
    using assms by (auto simp: FeedHandler_new_def split: sum.splits prod.splits)
  let ?h = "h\<lparr>stop_flag := False, fh_umem := populate_fill_ring fapi (fh_umem h), rx_thread := True\<rparr>"
  have "same_handles h ?h" by (simp add: same_handles_def populate_fill_ring_def Let_def case_prod_beta)
  then show thesis using h by (intro that [of ?h]) (simp_all add: start_def Let_def)
qed

text \<open>The receive thread leaves the handles alone.\<close>

definition rx_keeps :: "('w \<Rightarrow> ('f, 'c, 'r, 't) FeedHandler \<Rightarrow> 'w \<times> ('f, 'c, 'r, 't) FeedHandler) \<Rightarrow> bool" where
  "rx_keeps rx \<longleftrightarrow> (\<forall>w h. same_handles h (snd (rx w h)))"

lemma xdp_pop_handles:
  assumes "rx_keeps rx" "pops_to (xdp_pop rx) (w, h) (w', h')"
  shows "same_handles h h'"
proof -
  have "same_handles h (snd (snd (xdp_pop rx r)))" if "same_handles h (snd r)" for r
  proof -
    have "same_handles (snd r) (snd (rx (fst r) (snd r)))" using assms(1) by (simp add: rx_keeps_def)
    then have "same_handles h (snd (rx (fst r) (snd r)))" by (rule same_handles_trans [OF that])
    from this handler_pop_handles have "same_handles h (snd (handler_pop (snd (rx (fst r) (snd r)))))" by (rule same_handles_trans)
    then show ?thesis by (simp add: xdp_pop_def case_prod_beta)
  qed
  from pops_to_keeps [of "xdp_pop rx" "(w, h)" "(w', h')" "\<lambda>r. same_handles h (snd r)", OF assms(2) this] show ?thesis by simp
qed

lemma handler_owns_started:
  assumes "handler_owns L h tr" "same_handles h h'"
  shows "ledger (snd (FeedHandler_destroy h' tr)) = Some L"
  by (rule handler_owns_destroy) (use assms handler_owns_same [OF assms(2)] in simp)

text \<open>
  The run ends and releases every kernel object and descriptor it acquired, unless \<open>reserve\<close> threw in the constructor of the UMEM. If it returns a result
  then that of a complete session, and it returns one if the handler can be constructed, no call of the sender fails and the samples can be reserved.
\<close>

lemma run_af_xdp_total:
  assumes "clock_monotone clk" "sleeps_fully clk" "clock_runs clk H" "genuine clk tm" "calm tm" "length tm + nat n * 10004 + 22 \<le> H"
    "env_laws env" "ledger tr = Some L" "ledger_wf L" "net_ok net"
    "rx_keeps rx" "\<forall>h. fh_ring h = SpscRingBuffer_new kRingCap FeedEvent_new \<longrightarrow> quiesces (xdp_pop rx) (w, h)"
  obtains res net' tm' tr' where "run_af_xdp env fapi f0 c0 r0 t0 plan alloc_ok clk rx w n (net, tm) tr = Some (res, (net', tm'), tr')"
    "ledger tr' = Some L \<or> isl res \<and> umem_leaked L tr'" "fds net' = fds net"
    "\<forall>r. res = Inr r \<longrightarrow> (\<exists>h. fh_ring h = SpscRingBuffer_new kRingCap FeedEvent_new \<and>
       session_ok clk (xdp_pop rx) n (w, h) (net, Nanosleep 0 20000000 # tm) (run_lats r) (run_lost r) (net', tm'))"
    "isl res \<longrightarrow> isl (fst (FeedHandler_new env f0 c0 r0 t0 bench_config tr)) \<or> \<not> quiet_net plan ''sender_ns'' net \<or> reserve_throws alloc_ok (of_int n)"
proof -
  let ?tm = "Nanosleep 0 20000000 # tm"
  obtain rh tr1 where hn: "FeedHandler_new env f0 c0 r0 t0 bench_config tr = (rh, tr1)" by fastforce
  note made = FeedHandler_new_owned [OF assms(7-9) hn]
  show thesis
  proof (cases rh)
    case (Inl e)
    then have "ledger tr1 = Some L \<or> umem_leaked L tr1" using made by (simp split: if_splits)
    then show ?thesis using hn Inl by (intro that [of "Inl (Handler_failed e)" net tm tr1]) (simp_all add: run_af_xdp_def)
  next
    case rh: (Inr h)
    have own: "handler_owns L h tr1" using made rh by simp
    obtain h1 where h1: "start fapi h = Some h1" "same_handles h h1" "fh_ring h1 = SpscRingBuffer_new kRingCap FeedEvent_new"
      using hn unfolding rh by (rule start_after_new)
    have g: "genuine clk ?tm" "calm ?tm" "length ?tm + nat n * 10004 + 21 \<le> H" using assms(4-6) by simp_all
    from assms(1-3,10) g show ?thesis
    proof (cases rule: sender_session_cases [where plan = plan and alloc_ok = alloc_ok and recv_pop = "xdp_pop rx" and r = "(w, h1)"])
      case stuck
      then show ?thesis using assms(12) h1(3) by blast
    next
      case (ends res r2 n2 tm2)
      note m = ends
      obtain w2 h2 where r2: "r2 = (w2, h2)" by fastforce
      have "same_handles h h2" using same_handles_trans [OF h1(2) xdp_pop_handles [OF assms(11) m(2) [unfolded r2]]] .
      then have c: "ledger (snd (FeedHandler_destroy h2 tr1)) = Some L" "ledger (snd (FeedHandler_destroy (stop h2) tr1)) = Some L"
        by (simp_all add: handler_owns_started [OF own])
      note run = hn rh h1(1) m(1,3) r2 c
      show ?thesis
      proof (cases res)
        case (Inl e)
        show ?thesis by (rule that [of "Inl e" n2 tm2 "snd (FeedHandler_destroy h2 tr1)"])
          (use run Inl m(5) in \<open>simp_all add: run_af_xdp_def\<close>)
      next
        case (Inr p)
        obtain lats lost where p: "p = (lats, lost)" by fastforce
        show ?thesis
          by (rule that [of "Inr \<lparr>run_lats = lats, run_lost = lost, run_rx = packets_received h2, run_dropped = packets_dropped h2\<rparr>"
                n2 tm2 "snd (FeedHandler_destroy (stop h2) tr1)"])
            (use run Inr p m(4) h1(3) in \<open>auto simp: run_af_xdp_def\<close>)
      qed
    qed
  qed
qed

section \<open>The receive thread\<close>

text \<open>
  The receive thread between two pops: one pass of its loop on the next input, if there is one left; the pops are those of the benchmark, so the
  input's own are not used. The handles stay, and since only finitely many frames arrive the queue runs empty. (A pass that would read outside
  the packet memory is left out.)
\<close>

definition rx_turn ::
  "('r, xdp_desc) cons_api \<Rightarrow> ('f, u64) prod_api \<Rightarrow> ('f, 'r) rx_input list \<times> RxDesc list \<Rightarrow> ('f, 'c, 'r, 't) FeedHandler
   \<Rightarrow> (('f, 'r) rx_input list \<times> RxDesc list) \<times> ('f, 'c, 'r, 't) FeedHandler" where
  "rx_turn rapi fapi w h =
     (case fst w of
        [] \<Rightarrow> (w, h)
      | i # is \<Rightarrow>
          let h1 = snd (outside (i\<lparr>in_pops := 0\<rparr>) h)
          in if stop_flag h1 then ((is, snd w), h1)
             else case rx_iteration rapi fapi (in_mem i) (in_now i) (snd w) h1 of
                    None \<Rightarrow> ((is, snd w), h1)
                  | Some (descs, h2) \<Rightarrow> ((is, descs), h2))"

lemma outside_keeps:
  "same_handles h (snd (outside i h))"
  "ring_inv kRingCap (fh_ring h) \<Longrightarrow> ring_inv kRingCap (fh_ring (snd (outside i h)))"
proof -
  obtain out h1 where o: "outside i h = (out, h1)" by fastforce
  note O = outside_run [OF o]
  show "same_handles h (snd (outside i h))" using O(4,5) by (simp add: o same_handles_def)
  show "ring_inv kRingCap (fh_ring (snd (outside i h)))" if "ring_inv kRingCap (fh_ring h)"
    using spsc.run_ops_fifo(1) [OF that O(1)] by (simp add: o)
qed

lemma rx_iteration_keeps:
  assumes "rx_iteration rapi fapi m now descs h = Some (descs', h')"
  shows "same_handles h h'" "ring_inv kRingCap (fh_ring h) \<Longrightarrow> ring_inv kRingCap (fh_ring h')"
proof -
  obtain n out s' evs where r: "rx_burst rapi (fh_socket h) descs = Some (n, out, s')"
    "fh_ring h' = snd (push_all (push kRingCap) (fh_ring h) evs)" "fh_socket h' = s'" "fh_umem h' = rx_release fapi (fh_umem h) (take n out)"
    using assms by (rule rx_iteration_run)
  have "socket s' = socket (fh_socket h)" using r(1) by (auto simp: rx_burst_def Let_def split: option.splits prod.splits)
  then show "same_handles h h'" using r(3,4) by (simp add: same_handles_def rx_release_def Let_def case_prod_beta)
  show "ring_inv kRingCap (fh_ring h')" if "ring_inv kRingCap (fh_ring h)" unfolding r(2) using that by (rule spsc.push_all_items(1))
qed

lemma rx_turn_cases:
  obtains (idle) "fst w = []" "rx_turn rapi fapi w h = (w, h)"
  | (skip) i "is" where "fst w = i # is" "rx_turn rapi fapi w h = ((is, snd w), snd (outside (i\<lparr>in_pops := 0\<rparr>) h))"
  | (pass) i "is" descs h2 where "fst w = i # is" "rx_iteration rapi fapi (in_mem i) (in_now i) (snd w) (snd (outside (i\<lparr>in_pops := 0\<rparr>) h)) = Some (descs, h2)"
      "rx_turn rapi fapi w h = ((is, descs), h2)"
proof (cases "fst w")
  case Nil
  then show ?thesis by (intro idle) (simp_all add: rx_turn_def)
next
  case (Cons i "is")
  consider "stop_flag (snd (outside (i\<lparr>in_pops := 0\<rparr>) h)) \<or> rx_iteration rapi fapi (in_mem i) (in_now i) (snd w) (snd (outside (i\<lparr>in_pops := 0\<rparr>) h)) = None"
    | descs h2 where "\<not> stop_flag (snd (outside (i\<lparr>in_pops := 0\<rparr>) h))" "rx_iteration rapi fapi (in_mem i) (in_now i) (snd w) (snd (outside (i\<lparr>in_pops := 0\<rparr>) h)) = Some (descs, h2)"
    by fastforce
  then show ?thesis
  proof cases
    case 1
    then show ?thesis using Cons by (intro skip) (auto simp: rx_turn_def Let_def)
  next
    case 2
    then show ?thesis using Cons by (intro pass) (simp_all add: rx_turn_def Let_def)
  qed
qed

lemma rx_turn_keeps:
  shows "same_handles h (snd (rx_turn rapi fapi w h))"
    and "ring_inv kRingCap (fh_ring h) \<Longrightarrow> ring_inv kRingCap (fh_ring (snd (rx_turn rapi fapi w h)))"
    and "fst (fst (rx_turn rapi fapi w h)) = tl (fst w)"
proof -
  have "same_handles h (snd (rx_turn rapi fapi w h)) \<and>
    (ring_inv kRingCap (fh_ring h) \<longrightarrow> ring_inv kRingCap (fh_ring (snd (rx_turn rapi fapi w h)))) \<and> fst (fst (rx_turn rapi fapi w h)) = tl (fst w)"
  proof (cases rule: rx_turn_cases [of w rapi fapi h])
    case (skip i "is")
    then show ?thesis using outside_keeps [of h "i\<lparr>in_pops := 0\<rparr>"] by simp
  next
    case (pass i "is" descs h2)
    note k = rx_iteration_keeps [OF pass(2)]
    have "same_handles h h2" using outside_keeps(1) k(1) by (rule same_handles_trans)
    then show ?thesis using pass k(2) outside_keeps(2) [of h "i\<lparr>in_pops := 0\<rparr>"] by simp
  qed simp
  then show "same_handles h (snd (rx_turn rapi fapi w h))"
    "ring_inv kRingCap (fh_ring h) \<Longrightarrow> ring_inv kRingCap (fh_ring (snd (rx_turn rapi fapi w h)))"
    "fst (fst (rx_turn rapi fapi w h)) = tl (fst w)" by blast+
qed

lemma rx_turn_rx_keeps: "rx_keeps (rx_turn rapi fapi)"
  by (simp add: rx_keeps_def rx_turn_keeps(1))

lemma handler_pop_ring:
  assumes "ring_inv kRingCap (fh_ring h)"
  shows "ring_inv kRingCap (fh_ring (snd (handler_pop h)))"
    "fst (handler_pop h) = None \<or> length (contents kRingCap (fh_ring (snd (handler_pop h)))) < length (contents kRingCap (fh_ring h))"
proof -
  show "ring_inv kRingCap (fh_ring (snd (handler_pop h)))"
    using spsc.invar_pp [OF assms] by (simp add: handler_pop_def case_prod_beta)
  show "fst (handler_pop h) = None \<or> length (contents kRingCap (fh_ring (snd (handler_pop h)))) < length (contents kRingCap (fh_ring h))"
    using spsc.pp_empty [OF assms] spsc.pp_item [OF assms]
    by (cases "contents kRingCap (fh_ring h)") (simp_all add: handler_pop_def case_prod_beta)
qed

lemma rx_turn_empties:
  assumes "ring_inv kRingCap (fh_ring h)"
  shows "\<exists>k. fst (xdp_pop (rx_turn rapi fapi) (snd (popped (xdp_pop (rx_turn rapi fapi)) k (w, h)))) = None"
  using assms
proof (induction "(length (fst w), length (contents kRingCap (fh_ring h)))" arbitrary: w h rule: wf_induct_rule [OF wf_lex_prod [OF wf_less_than wf_less_than]])
  case 1
  let ?pop = "xdp_pop (rx_turn rapi fapi)"
  obtain w1 h1 where t: "rx_turn rapi fapi w h = (w1, h1)" by fastforce
  have r: "ring_inv kRingCap (fh_ring h1)" "fst w1 = tl (fst w)" using rx_turn_keeps(2) [OF "1.prems", of rapi fapi w] rx_turn_keeps(3) [of rapi fapi w h] by (simp_all add: t)
  obtain ev h2 where p: "handler_pop h1 = (ev, h2)" by fastforce
  have q: "?pop (w, h) = (ev, w1, h2)" by (simp add: xdp_pop_def t p)
  note hp = handler_pop_ring [OF r(1)]
  show ?case
  proof (cases ev)
    case None
    then show ?thesis using q by (intro exI [of _ 0]) simp
  next
    case (Some e)
    have "((length (fst w1), length (contents kRingCap (fh_ring h2))), length (fst w), length (contents kRingCap (fh_ring h))) \<in> less_than <*lex*> less_than"
      using r(2) hp(2) p Some t by (cases "fst w") (auto simp: rx_turn_def)
    then obtain k where "fst (?pop (snd (popped ?pop k (w1, h2)))) = None"
      using "1.hyps" [of w1 h2] hp(1) p by auto
    then show ?thesis using q by (intro exI [of _ "Suc k"]) (simp add: Let_def case_prod_beta)
  qed
qed

lemma rx_turn_quiesces:
  assumes "ring_inv kRingCap (fh_ring h)"
  shows "quiesces (xdp_pop (rx_turn rapi fapi)) (w, h)"
  unfolding quiesces_def
proof (intro allI impI)
  let ?pop = "xdp_pop (rx_turn rapi fapi)"
  fix r' assume p: "pops_to ?pop (w, h) r'"
  have "ring_inv kRingCap (fh_ring (snd (snd (?pop r))))" if "ring_inv kRingCap (fh_ring (snd r))" for r
    using handler_pop_ring(1) [OF rx_turn_keeps(2) [OF that]] by (simp add: xdp_pop_def case_prod_beta)
  from pops_to_keeps [of ?pop "(w, h)" r' "\<lambda>r. ring_inv kRingCap (fh_ring (snd r))", OF p this]
  have "ring_inv kRingCap (fh_ring (snd r'))" using assms by simp
  from rx_turn_empties [OF this, of rapi fapi "fst r'"] show "\<exists>k. fst (?pop (snd (popped ?pop k r'))) = None" by simp
qed

section \<open>The comparison\<close>

lemma run_standard_socket_cases:
  assumes "clock_monotone clk" "sleeps_fully clk" "clock_runs clk H" "genuine clk tm" "calm tm" "length tm + nat n * 10004 + 22 \<le> H"
    "net_ok net"
  obtains (stuck) q e1 where "run_standard_socket api plan alloc_ok clk n (net, tm) e = None" "std_new api 9999 False e = (Some q, e1)"
    "\<not> quiesces (std_pop api) (std_start api q)"
  | (ends) res net' tm' e' where "run_standard_socket api plan alloc_ok clk n (net, tm) e = Some (res, (net', tm'), e')" "fds net' = fds net"
    "\<forall>r. res = Inr r \<longrightarrow> (\<exists>q e1. std_new api 9999 False e = (Some q, e1) \<and>
       session_ok clk (std_pop api) n (std_start api q) (net, Nanosleep 0 20000000 # tm) (run_lats r) (run_lost r) (net', tm'))"
    "isl res \<longrightarrow> fst (std_new api 9999 False e) = None \<or> \<not> quiet_net plan ''sender_ns'' net \<or> reserve_throws alloc_ok (of_int n)"
proof -
  let ?tm = "Nanosleep 0 20000000 # tm"
  obtain rq e1 where c: "std_new api 9999 False e = (rq, e1)" by fastforce
  show thesis
  proof (cases rq)
    case None
    show ?thesis by (rule that(2) [of "Inl Receiver_failed" net tm e1]) (use c None in \<open>simp_all add: run_standard_socket_def\<close>)
  next
    case (Some q)
    have g: "genuine clk ?tm" "calm ?tm" "length ?tm + nat n * 10004 + 21 \<le> H" using assms(4-6) by simp_all
    from assms(1-3,7) g show ?thesis
    proof (cases rule: sender_session_cases [where plan = plan and alloc_ok = alloc_ok and recv_pop = "std_pop api" and r = "std_start api q"])
      case stuck
      then show ?thesis using c Some by (intro that(1) [of q e1]) (simp_all add: run_standard_socket_def)
    next
      case (ends res q2 n2 tm2)
      note m = ends
      show ?thesis
      proof (cases res)
        case (Inl err)
        show ?thesis
          by (rule that(2) [of "Inl err" n2 tm2 "std_destroy api q2 e1"]) (use c Some m(1,3,5) Inl in \<open>simp_all add: run_standard_socket_def\<close>)
      next
        case (Inr p)
        obtain lats lost where p: "p = (lats, lost)" by fastforce
        show ?thesis
          by (rule that(2) [of "Inr \<lparr>run_lats = lats, run_lost = lost, run_rx = std_received api q2, run_dropped = std_dropped api q2\<rparr>"
                n2 tm2 "std_destroy api (std_stop api q2) e1"]) (use c Some m(1,3,4) Inr p in \<open>simp_all add: run_standard_socket_def\<close>)
      qed
    qed
  qed
qed

lemma session_samples:
  assumes "session_ok clk recv_pop 1000 r st lats lost st'"
  shows "length lats \<le> 1000" "sint (of_nat (length lats) :: u32) = int (length lats)" "lost = 1000 - int (length lats)"
proof -
  have l: "int (length lats) + lost = 1000" "0 \<le> lost" using assms by (auto simp: session_ok_def measured_def)
  then show le: "length lats \<le> 1000" "lost = 1000 - int (length lats)" by simp_all
  then show "sint (of_nat (length lats) :: u32) = int (length lats)" by (simp add: signed_of_nat signed_take_bit_int_eq_self)
qed

text \<open>What a table must show for two runs of 1000 packets.\<close>

definition table_ok :: "bench_table \<Rightarrow> u64 list \<Rightarrow> u64 list \<Rightarrow> bool" where
  "table_ok t std xdp \<longleftrightarrow> length std \<le> 1000 \<and> length xdp \<le> 1000 \<and>
     tb_counts t = [int (length std), 1000, 1000 - int (length std), int (length xdp), 1000, 1000 - int (length xdp)] \<and>
     column_ok std (map row_std_ns (tb_rows t)) \<and> column_ok xdp (map row_xdp_ns (tb_rows t)) \<and>
     verdict_ok (row_std_ns (tb_rows t ! 1)) (row_xdp_ns (tb_rows t ! 1)) (tb_verdict t)"

lemma sessions_table:
  assumes "session_ok clk pop1 1000 r1 st1 std l1 st1'" "session_ok clk pop2 1000 r2 st2 xdp l2 st2'"
  obtains t where "print_table std xdp 1000 l1 l2 = Some t" "table_ok t std xdp"
proof -
  note s = session_samples [OF assms(1)] session_samples [OF assms(2)]
  have le: "length std \<le> 2 ^ 53" "length xdp \<le> 2 ^ 53" using s(1,4) by simp_all
  show thesis using print_table_columns [OF le, of 1000 l1 l2] by (elim exE conjE) (rule that, assumption, use s in \<open>simp add: table_ok_def\<close>)
qed

lemma session_next:
  assumes "session_ok clk recv_pop 1000 r (n, tm) lats lost (n', tm')" "net_ok n" "fds n' = fds n"
  shows "genuine clk tm'" "calm tm'" "length tm' \<le> length tm + 10004021" "net_ok n'" "quiet_net plan ns n' = quiet_net plan ns n"
    "length (sent n') = length (sent n) + 1010"
  using assms net_ok_same [OF assms(2)] by (simp_all add: session_ok_def quiet_net_def)

text \<open>The samples of a path: the latencies of the stamped events that this receiver's \<open>pop\<close> returned while 1000 packets were measured.\<close>

definition sampled :: "('r \<Rightarrow> FeedEvent option \<times> 'r) \<Rightarrow> 'r \<Rightarrow> run_result \<Rightarrow> time_event list \<Rightarrow> bool" where
  "sampled recv_pop r res tm \<longleftrightarrow>
     (\<exists>r1 r2. pops_to recv_pop r r1 \<and> measured recv_pop 1000 r1 (run_lats res) (run_lost res) r2 tm)"

lemma session_sampled: "session_ok clk recv_pop 1000 r st (run_lats res) (run_lost res) st' \<Longrightarrow> sampled recv_pop r res (snd st')"
  by (auto simp: session_ok_def sampled_def)


lemma scripted_quiesces: "quiesces scripted r"
proof -
  have "\<exists>k. fst (scripted (snd (popped scripted k r))) = None" for r
  proof (induction r)
    case (Cons ev r)
    then obtain k where "fst (scripted (snd (popped scripted k r))) = None" by blast
    moreover have "scripted (ev # r) = (ev, r)" by (simp add: scripted_def)
    ultimately show ?case by (intro exI [of _ "Suc k"]) (simp add: Let_def case_prod_beta)
  qed (auto simp: scripted_def intro: exI [of _ 0])
  then show ?thesis by (simp add: quiesces_def)
qed

text \<open>A receiver that returns a script, and a system on which the program can run.\<close>

definition demo_receiver :: "(FeedEvent option list, unit) std_receiver" where
  "demo_receiver = \<lparr>std_new = \<lambda>port busy_poll e. (Some [Some demo_event, None], e), std_start = \<lambda>q. q, std_pop = scripted, std_stop = \<lambda>q. q,
     std_destroy = \<lambda>q e. e, std_received = \<lambda>q. 1, std_dropped = \<lambda>q. 0\<rparr>"

definition demo_os :: bench_os where
  "demo_os = \<lparr>os_getuid = 0, os_if_nametoindex = \<lambda>name. 3, os_stat = \<lambda>path. 0\<rparr>"

lemma demo_handler_made: "\<not> isl (fst (FeedHandler_new (small_env 100 f c r t) f0 c0 r0 t0 bench_config []))"
  by (simp add: handler_eval Let_def)


end
