(* ===== verification/Test_Sender.thy ===== *)
theory Test_Sender
  imports Synthetic_Sender
begin

text \<open>
  \<open>tools/test_sender.cpp\<close>: a diagnostic that constructs a \<open>SyntheticSender\<close> in the namespace of the test network and sends five
  packets, catching the exception of each. The result is the exit status and the number it prints.
\<close>

fun test_sends ::
  "net_plan \<Rightarrow> clock \<Rightarrow> SyntheticSender \<Rightarrow> nat \<Rightarrow> int \<Rightarrow> net \<times> time_event list \<Rightarrow> int \<times> net \<times> time_event list" where
  "test_sends plan clk s 0 cnt st = (cnt, st)"
| "test_sends plan clk s (Suc k) cnt st =
     (case send_one plan clk s st of
        (Inr ts, st1) \<Rightarrow> test_sends plan clk s k (cnt + 1) st1
      | (Inl e, st1) \<Rightarrow> test_sends plan clk s k cnt st1)"

definition test_sender_main ::
  "net_plan \<Rightarrow> clock \<Rightarrow> net \<times> time_event list \<Rightarrow> (int \<times> int \<times> net \<times> time_event list) option" where
  "test_sender_main plan clk st =
     do {
       (res, n1) \<leftarrow> SyntheticSender_new plan ''10.11.0.1'' ''10.11.0.2'' 9999 ''sender_ns'' (fst st);
       (case res of
          Inl e \<Rightarrow> Some (1, 0, n1, snd st)
        | Inr s \<Rightarrow>
            let (cnt, n2, tr2) = test_sends plan clk s 5 0 (n1, snd st)
            in do { n3 \<leftarrow> SyntheticSender_destroy s n2; Some (if cnt = 5 then 0 else 1, cnt, n3, tr2) })
     }"

lemma test_sends_spec:
  assumes "fds n (sock_fd s) = Some (Sock k a)"
  obtains ts n' tr' where "test_sends plan clk s m cnt (n, tr) = (cnt + int (length ts), n', tr')" "sent_at s k ts n n'" "length ts \<le> m"
    "(\<forall>c. \<not> send_fails plan c) \<longrightarrow> length ts = m"
  using assms
proof (induction m arbitrary: cnt n tr thesis)
  case 0
  show ?case by (rule "0.prems"(1) [of "[]" n tr]) (simp_all add: sent_at_def)
next
  case (Suc m)
  let ?t = "now_ns clk tr"
  note o = send_one_cases [OF Suc.prems(2), of plan clk tr]
  show ?case
  proof (cases "send_fails plan (net_calls n)")
    case True
    have "fds (count_call n) (sock_fd s) = Some (Sock k a)" using Suc.prems(2) by simp
    then obtain ts n' tr' where r: "test_sends plan clk s m cnt (count_call n, Clock_read ?t # tr) = (cnt + int (length ts), n', tr')"
      "sent_at s k ts (count_call n) n'" "length ts \<le> m" by (rule Suc.IH [rotated])
    show ?thesis by (rule Suc.prems(1) [of ts n' tr']) (use True r o in \<open>auto simp: sent_at_def\<close>)
  next
    case False
    let ?n = "(count_call n)\<lparr>sent := sent n @ [datagram_of s k ?t]\<rparr>"
    have "fds ?n (sock_fd s) = Some (Sock k a)" using Suc.prems(2) by simp
    then obtain ts n' tr' where r: "test_sends plan clk s m (cnt + 1) (?n, Clock_read ?t # tr) = (cnt + 1 + int (length ts), n', tr')"
      "sent_at s k ts ?n n'" "length ts \<le> m" "(\<forall>c. \<not> send_fails plan c) \<longrightarrow> length ts = m" by (rule Suc.IH [rotated])
    show ?thesis by (rule Suc.prems(1) [of "?t # ts" n' tr']) (use False r o in \<open>auto simp: sent_at_def\<close>)
  qed
qed

text \<open>
  The sender diagnostic. Whatever fails, it ends with exit status 0 or 1, closes every descriptor it opened, and the number it prints is
  the number of datagrams that went out. It exits with 0 exactly if all five went out; that is the case when the sender can be constructed
  and no \<open>sendto\<close> fails.
\<close>

theorem test_sender_spec:
  assumes "net_ok n"
  shows "\<exists>rc cnt n' tr'. test_sender_main plan clk (n, tr) = Some (rc, int cnt, n', tr') \<and> rc \<in> {0, 1} \<and> fds n' = fds n \<and>
    length (sent n') = length (sent n) + cnt \<and> (rc = 0 \<longleftrightarrow> cnt = 5) \<and>
    (\<forall>s n1. SyntheticSender_new plan ''10.11.0.1'' ''10.11.0.2'' 9999 ''sender_ns'' n = Some (Inr s, n1) \<and> (\<forall>c. \<not> send_fails plan c) \<longrightarrow> rc = 0)"
proof -
  obtain res n1 where c: "SyntheticSender_new plan ''10.11.0.1'' ''10.11.0.2'' 9999 ''sender_ns'' n = Some (res, n1)"
    "sender_made plan ''10.11.0.1'' ''sender_ns'' n res n1" using sender_constructed [OF assms] by blast
  show ?thesis
  proof (cases res)
    case (Inl e)
    then show ?thesis using c by (intro exI [of _ 1] exI [of _ 0]) (simp add: test_sender_main_def sender_made_def)
  next
    case (Inr s)
    let ?k = "target_ns ''sender_ns'' n" and ?a = "inet_pton ''10.11.0.1''"
    have m: "0 \<le> sock_fd s" "fds n (sock_fd s) = None" "fds n1 = (fds n)(sock_fd s \<mapsto> Sock ?k ?a)" "sent n1 = sent n"
      using c(2) Inr by (simp_all add: sender_made_def)
    then have "fds n1 (sock_fd s) = Some (Sock ?k ?a)" by simp
    then obtain ts n2 tr2 where t: "test_sends plan clk s 5 0 (n1, tr) = (0 + int (length ts), n2, tr2)" "sent_at s ?k ts n1 n2" "length ts \<le> 5"
      "(\<forall>c. \<not> send_fails plan c) \<longrightarrow> length ts = 5" by (rule test_sends_spec)
    have f: "fds n2 = (fds n)(sock_fd s \<mapsto> Sock ?k ?a)" "length (sent n2) = length (sent n) + length ts" using t(2) m by (simp_all add: sent_at_def)
    then have "SyntheticSender_destroy s n2 = Some (n2\<lparr>fds := fds n\<rparr>)"
      using m(1,2) by (simp add: SyntheticSender_destroy_def sys_close_def fun_upd_idem)
    then have "test_sender_main plan clk (n, tr) = Some (if length ts = 5 then 0 else 1, int (length ts), n2\<lparr>fds := fds n\<rparr>, tr2)"
      using c(1) t(1) Inr by (simp add: test_sender_main_def)
    then show ?thesis using f(2) t(4) c(1) Inr by (intro exI [of _ "if length ts = 5 then 0 else 1"] exI [of _ "length ts"]) auto
  qed
qed

theorem test_sender_spec_witness:
  "net_ok demo_net \<and> (\<exists>rc cnt n' tr'. test_sender_main (demo_plan 5) sleep_clock (demo_net, []) = Some (rc, int cnt, n', tr') \<and>
     fds n' = fds demo_net \<and> length (sent n') = cnt \<and> (rc = 0 \<longleftrightarrow> cnt = 5))"
proof -
  have "sent demo_net = []" by (simp add: demo_net_def)
  then show ?thesis using test_sender_spec [OF demo_net_ok, of "demo_plan 5" sleep_clock "[]"] demo_net_ok by fastforce
qed

end
