(* ===== verification/Xdp_Bench.thy ===== *)
theory Xdp_Bench
  imports Umem Xdp_Socket Packet
begin

text \<open>
  \<open>bench/bench_xdp_socket.cpp\<close>: the values that the four micro-benchmarks compute in each iteration. They imitate the critical path
  without a socket; the property says that they compute what the components compute.
\<close>

fun offset_loop :: "nat \<Rightarrow> u64 \<Rightarrow> u64 list" where
  "offset_loop 0 idx = []"
| "offset_loop (Suc k) idx = idx * 4096 # offset_loop k ((idx + 1) mod 4096)"

definition BM_UmemFrameOffset :: "nat \<Rightarrow> u64 list" where
  "BM_UmemFrameOffset iterations = offset_loop iterations 0"

definition BM_PacketParseFull :: "ptr \<Rightarrow> nat \<Rightarrow> (ptr option \<times> u64 option) list" where
  "BM_PacketParseFull buf iterations =
     (let m = mem_of buf (bench_frame 8); pkt = \<lparr>pkt_data = buf, pkt_len = 64\<rparr>
      in replicate iterations (pkt_udp m pkt, pkt_payload_len m pkt))"

definition fill_descs :: "RxDesc list \<Rightarrow> RxDesc list" where
  "fill_descs descs = fold (\<lambda>i ds. ds[i := \<lparr>addr = of_nat i * 4096, rx_len = 4096, options = 0\<rparr>]) [0..<64] descs"

definition BM_RxDescBatchFill :: "nat \<Rightarrow> RxDesc list \<Rightarrow> RxDesc list" where
  "BM_RxDescBatchFill iterations descs = (fill_descs ^^ iterations) descs"

definition BM_UmemPayloadCopy :: "ptr \<Rightarrow> nat \<Rightarrow> bytes option list" where
  "BM_UmemPayloadCopy src iterations =
     (let kPayloadOff = size_of EthHeader + 20 + size_of UdpHeader
      in replicate iterations (load_bytes (mem_of src (replicate 4096 0)) (src + kPayloadOff) 64))"

lemma offset_loop_eq: "offset_loop k (of_nat (j mod 4096)) = map (\<lambda>i. of_nat ((j + i) mod 4096) * 4096) [0..<k]"
proof (induction k arbitrary: j)
  case (Suc k)
  have "(of_nat (j mod 4096) + 1) mod 4096 = (of_nat (Suc (j mod 4096) mod 4096) :: u64)"
  proof -
    have "Suc (j mod 4096) < 2 ^ 64" by (rule le_less_trans [of _ 4096]) (simp_all add: Suc_le_eq)
    then show ?thesis by (simp add: word_unat_eq_iff unat_mod unat_of_nat take_bit_nat_eq_self unat_word_ariths)
  qed
  moreover have "Suc (j mod 4096) mod 4096 = Suc j mod 4096" by (rule mod_Suc_eq)
  ultimately have "offset_loop (Suc k) (of_nat (j mod 4096)) = of_nat (j mod 4096) * 4096 # map (\<lambda>i. of_nat ((Suc j + i) mod 4096) * 4096) [0..<k]"
    using Suc.IH [of "Suc j"] by simp
  also have "\<dots> = map (\<lambda>i. of_nat ((j + i) mod 4096) * 4096) [0..<Suc k]" by (simp add: upt_conv_Cons map_Suc_upt [symmetric] del: upt_Suc)
  finally show ?case .
qed simp

lemma fold_update:
  "n \<le> length xs \<Longrightarrow> fold (\<lambda>i xs. xs[i := f i]) [0..<n] xs = map f [0..<n] @ drop n xs"
proof (induction n)
  case (Suc n)
  then have "drop n xs = xs ! n # drop (Suc n) xs" by (simp add: Cons_nth_drop_Suc)
  then show ?case using Suc by (simp add: list_update_append)
qed simp

text \<open>
  The critical-path benchmarks compute what the components compute, without reading outside their buffers: the offsets are
  \<open>Umem::frame_offset\<close> of the frames of a default UMEM in turn, the filled descriptors name its first 64 frames, \<open>udp()\<close> finds the header
  behind 34 bytes and \<open>payload_len()\<close> is 0 for the frame without payload, and the copy reads 64 bytes inside the frame.
\<close>

theorem xdp_benchmarks:
  assumes "um_cfg u = UmemConfig_default" "length descs = 64" "unat buf + 64 \<le> 2 ^ 64" "buf \<noteq> nullptr"
  shows "BM_UmemFrameOffset k = map (\<lambda>i. frame_offset u (of_nat (i mod 4096))) [0..<k] \<and>
    BM_RxDescBatchFill (Suc k) descs = map (\<lambda>i. \<lparr>addr = frame_offset u (of_nat i), rx_len = 4096, options = 0\<rparr>) [0..<64] \<and>
    BM_PacketParseFull buf k = replicate k (Some (buf + 34), Some 0) \<and>
    BM_UmemPayloadCopy src k = replicate k (Some (replicate 64 0))"
proof (intro conjI)
  have u: "frame_offset u i = i * 4096" for i by (simp add: frame_offset_def assms(1) UmemConfig_default_def)
  show "BM_UmemFrameOffset k = map (\<lambda>i. frame_offset u (of_nat (i mod 4096))) [0..<k]"
    using offset_loop_eq [of k 0] by (simp add: BM_UmemFrameOffset_def u)
  let ?ds = "map (\<lambda>i. \<lparr>addr = frame_offset u (of_nat i), rx_len = 4096, options = 0\<rparr>) [0..<64]"
  have f: "fill_descs ds = ?ds" if "length ds = 64" for ds unfolding fill_descs_def u using that by (subst fold_update) simp_all
  have "length (BM_RxDescBatchFill k descs) = 64" unfolding BM_RxDescBatchFill_def by (induction k) (simp_all add: assms(2) f)
  then show "BM_RxDescBatchFill (Suc k) descs = ?ds" using f by (simp add: BM_RxDescBatchFill_def)
  have len: "length (bench_frame 8) = 64" by code_simp
  have "unat (0 - buf) = 2 ^ 64 - unat buf" using assms(4) by (subst unat_sub_if') (simp add: unat_gt_0)
  then have "\<not> unat (0 - buf) < 64" using assms(3) by linarith
  then have "mem_of buf (bench_frame 8) nullptr = None" unfolding mem_of_def len by (simp only: if_False)
  then have v: "views (mem_of buf (bench_frame 8)) \<lparr>pkt_data = buf, pkt_len = 64\<rparr> (bench_frame 8)" by (simp add: views_def len)
  have "frame_udp_off (bench_frame 8) = Some 34" "frame_payload_len (bench_frame 8) = 0" by code_simp+
  then show "BM_PacketParseFull buf k = replicate k (Some (buf + 34), Some 0)"
    using pkt_udp_views [OF v] pkt_payload_len_views [OF v] by (simp add: BM_PacketParseFull_def)
  have "stored_at (mem_of src (replicate 4096 0)) src (replicate 4096 0)" by (rule stored_at_mem_of) simp
  from load_bytes_stored [OF this, of 42 64] show "BM_UmemPayloadCopy src k = replicate k (Some (replicate 64 0))"
    by (simp add: BM_UmemPayloadCopy_def)
qed

theorem xdp_benchmarks_witness:
  "BM_UmemFrameOffset 3 = [0, 4096, 8192] \<and> BM_PacketParseFull 0x1000 1 = [(Some 0x1022, Some 0)]"
proof -
  let ?u = "(tiny_umem () ())\<lparr>um_cfg := UmemConfig_default\<rparr>" and ?d = "replicate 64 \<lparr>addr = 0, rx_len = 0, options = 0\<rparr>"
  have h: "um_cfg ?u = UmemConfig_default" "length ?d = 64" "unat (0x1000 :: u64) + 64 \<le> 2 ^ 64" "(0x1000 :: u64) \<noteq> nullptr" by simp_all
  have "map (\<lambda>i. frame_offset ?u (of_nat (i mod 4096))) [0..<3] = [0, 4096, 8192]"
    by (simp add: frame_offset_def UmemConfig_default_def upt_rec)
  then show ?thesis using xdp_benchmarks [OF h, of 3 0] xdp_benchmarks [OF h, of 1 0] by simp
qed

end
