(* ===== verification/Spec2Isabelle.thy ===== *)
theory Spec2Isabelle
  imports Spsc_Bench Feed_Path Replay_Cli Baseline_Run Test_Sender Xdp_Bench
begin

text \<open>
  A verification of \<^bold>\<open>ultrafast-feed\<close>, a C++20 library that receives UDP market data over AF_XDP. The sources are under \<open>src/\<close>.

  \<^bold>\<open>The program.\<close> A receive thread (\<open>FeedHandler::rx_loop\<close>) takes frame descriptors from the RX ring of an AF_XDP socket
  (\<open>XdpSocket\<close>), reads each frame in place in the packet memory shared with the kernel (\<open>Umem\<close>) through a zero-copy view (\<open>Packet\<close>),
  turns UDP frames into \<open>FeedEvent\<close>s, pushes them onto a lock-free ring (\<open>SpscRingBuffer\<close>) and returns the frames to the
  kernel's fill ring. A consumer thread pops events. \<open>PcapWriter\<close> and \<open>PcapReader\<close> record events in a file and replay them on
  schedule, \<open>SyntheticSender\<close> produces test traffic from another network namespace, and the tools and benchmarks combine these parts.

  \<^bold>\<open>The theories\<close>, in the order of their dependencies; the sources are relative to \<open>src/\<close>.

  \<^item> \<open>Feed_Prelude\<close>: machine words, little-endian byte strings, a byte-addressed memory, masks. \<open>Queue_Interface\<close>: the locale
    \<open>bounded_queue\<close> (extended by \<open>initial_queue\<close>), the contract of a bounded FIFO queue, and what its clients get from it.
  \<^item> \<open>Spsc_Ring\<close> (\<open>include/ultrafast/spsc_ring_buffer.hpp\<close>): \<open>SpscRingBuffer\<close> with its two 64-bit indices and storage; \<open>push\<close>, \<open>pop\<close>, \<open>peek\<close>,
    \<open>size\<close> and the other queries as whole operations; it interprets \<open>bounded_queue\<close>. \<open>Spsc_Concurrent\<close>: the same operations as single memory
    accesses of two threads, where an acquire load may return an old value: no data race, FIFO, linearization, and wait-freedom in every
    interleaving.
  \<^item> \<open>Feed_Event\<close> (\<open>feed_event.hpp\<close>), \<open>Packet\<close> (\<open>packet.hpp\<close>): the event record; the accessors over the memory, where reading
    outside every object is the result None, against a specification on the bytes of the frame.
  \<^item> \<open>Xsk_Api\<close>, \<open>Os_Trace\<close>: libxdp's rings and the operating system are not part of the sources. They are parameters of the definitions with
    their documented behaviour as hypotheses (\<open>prod_laws\<close>, \<open>cons_laws\<close>, laws of \<open>env\<close>), which list-based rings satisfy.
  \<^item> \<open>Umem\<close>, \<open>Umem_Lifecycle\<close> (\<open>umem.hpp\<close>, \<open>src/umem.cpp\<close>): region, frame allocator, fill ring; constructor with every failure, moves,
    destructor, and a ledger of what was mapped and created: nothing is released twice or while in use.
  \<^item> \<open>Xdp_Socket\<close> (\<open>xdp_socket.hpp\<close>, \<open>src/xdp_socket.cpp\<close>): creation, closing, moves, \<open>rx_burst\<close>, \<open>rx_release\<close>, \<open>tx_burst\<close>, \<open>tx_kick\<close>,
    \<open>tx_complete\<close>; every frame is in exactly one place along the RX and the TX path.
  \<^item> \<open>Feed_Handler\<close>, \<open>Handler_Lifecycle\<close> (\<open>feed_handler.hpp\<close>, \<open>src/feed_handler.cpp\<close>): construction and destruction in member order, \<open>start\<close>,
    \<open>stop\<close>, \<open>pop\<close>, and the receive loop over a sequence of inputs, each saying what the kernel and the consumer did before a pass and
    which memory and clock it sees. \<open>inputs_ok\<close> says, along the run, that the memory covers the frames the kernel publishes. The loop's queue facts come from the interpretation \<open>event_queue\<close>.
  \<^item> \<open>Clock\<close>: \<open>clock_gettime\<close>, \<open>nanosleep\<close> and \<open>usleep\<close> as a function of the history of readings and sleeps; that it does not go back and sleeps long enough
    are hypotheses where a statement needs them; \<open>readings\<close> are the values a history has returned. \<open>Double\<close>: IEEE binary64 as rationals with rounding to nearest even.
  \<^item> \<open>Stdio\<close>, \<open>Pcap_Writer\<close>, \<open>Pcap_Reader\<close>, \<open>Pcap_Replay\<close> (\<open>pcap_writer.hpp\<close>, \<open>pcap_reader.hpp\<close>): C streams with buffers, where a plan says which calls
    fail or stop short; the writer, the reader on files of any bytes, and \<open>replay_at_rate\<close> with its termination proof.
  \<^item> \<open>Synthetic_Sender\<close> (\<open>synthetic_sender.hpp\<close>): descriptors, namespaces and failing system calls; constructor with every error path,
    \<open>send_one\<close>, \<open>send_burst\<close>. \<open>Feed_Path\<close>: from the sender's datagram to the consumer's event.
  \<^item> \<open>Replay_Tool\<close>, \<open>Replay_Cli\<close> (\<open>tools/replay_feed.cpp\<close>): both modes of the tool and \<open>main\<close>; \<open>Number_Text\<close> holds \<open>std::stoull\<close> and
    \<open>std::stod\<close>, which \<open>main\<close> calls on its arguments. \<open>Test_Sender\<close> (\<open>tools/test_sender.cpp\<close>).
  \<^item> \<open>Latency_Bench\<close>, \<open>Baseline_Run\<close> (\<open>bench/bench_baseline_comparison.cpp\<close>): the measurement loop and the table; the runs over a standard
    socket and over AF_XDP, and \<open>main\<close>. \<open>StandardSocketReceiver\<close>, which the benchmark includes, is not in the repository: its operations are a parameter, and nothing is
    assumed of them; a run over a receiver whose queue never runs empty while it is drained is the result None.
  \<^item> \<open>Spsc_Bench\<close> (\<open>bench/bench_spsc_ring_buffer.cpp\<close>), \<open>Xdp_Bench\<close> (\<open>bench/bench_xdp_socket.cpp\<close>): the micro-benchmarks as clients of the components;
    in the throughput run the pushes, the counter increments, the pops and the join are interleaved steps.

  \<^bold>\<open>What is shown.\<close> Memory safety of the packet view and its limits (the UDP length is not checked against the frame); FIFO and race freedom
  of the ring; conservation of frames; no leak and no double release of kernel objects, streams and descriptors on every path, with
  the exceptions stated as properties of their own; functional correctness of each operation including its error results; round trip
  of a capture; timing of replays; termination of every loop that the model does not run by recursion on its input; bounds of indices computed in floating point.

  \<^bold>\<open>Bounds.\<close> \<open>rx_loop\<close> recurs over its inputs and \<open>replay_loop\<close> over the events left, so there is no fuel. The polling loop and the draining loop of the
  latency benchmark are partial functions. The first returns because each turn sleeps 10 microseconds towards the deadline, as long as the 64-bit clock
  does not overflow within the run; the second when the queue runs empty, which is shown for the receive thread's own loop body on
  every finite list of inputs (\<open>rx_turn_quiesces\<close>) and left open for the receiver that is not in the repository. Percentiles are exact up to \<open>2 ^ 53\<close> samples, where every count is a double.

  \<^bold>\<open>Not modelled.\<close> What is printed, beyond the numbers (so \<open>usage\<close> of \<open>tools/replay_feed.cpp\<close> is only its exit status); \<open>tools/setup_veth.sh\<close>, a sequence of
  operating system commands; the measurement loop of the benchmark library; accessors that only return a member, which are the fields of the
  records; cache-line alignment; \<open>poll\<close> and \<open>UF_CPU_RELAX\<close> in the receive loop, which only wait; failing allocation except where
  the text says so; the tests.
\<close>

text \<open>
  (C30) Every event is well formed. Whatever bytes a frame has, an event of the receive loop has a 64-byte payload array and
  \<open>payload_len\<close> at most 64. Whatever bytes a capture has and whichever reads fail, an event of \<open>PcapReader::next\<close> has a 64-byte payload
  array too, but its \<open>payload_len\<close> is not checked: for every 16-bit value there is a capture that opens and whose first event
  \<open>next\<close> returns with that \<open>payload_len\<close>, up to 65535.
\<close>

theorem event_sources_well_formed:
  "(frame_event m base ts d = Some (Some ev) \<longrightarrow> event_ok ev \<and> unat (payload_len ev) \<le> 64) \<and>
   (pr_next plan r w = Some (Some ev', r', w') \<longrightarrow> event_ok ev') \<and>
   (\<forall>len. \<exists>w r1 w1 ev r2 w2. stdio_ok w \<and> pr_open no_faults PcapReader_new ''cap'' w = Some (True, r1, w1) \<and>
      pr_next no_faults r1 w1 = Some (Some ev, r2, w2) \<and> payload_len ev = len)"
  using frame_event_ok pr_next_ok pr_next_any_length by blast

theorem event_sources_well_formed_witness:
  "\<exists>ev ev' r r' w w'. frame_event (mem_of 4352 (bench_frame 24)) 4096 9 (to_RxDesc (demo_desc 256)) = Some (Some ev) \<and> event_ok ev \<and>
    pr_next no_faults r w = Some (Some ev', r', w') \<and> event_ok ev'"
proof -
  have "case frame_event (mem_of 4352 (bench_frame 24)) 4096 9 (to_RxDesc (demo_desc 256)) of Some (Some ev) \<Rightarrow> True | _ \<Rightarrow> False" by code_simp
  then obtain ev where f: "frame_event (mem_of 4352 (bench_frame 24)) 4096 9 (to_RxDesc (demo_desc 256)) = Some (Some ev)"
    by (auto split: option.splits)
  have "case pr_open no_faults PcapReader_new ''cap'' demo_stdio of
      Some (ok, r, w) \<Rightarrow> (case pr_next no_faults r w of Some (e, r', w') \<Rightarrow> e \<noteq> None | None \<Rightarrow> False) | None \<Rightarrow> False" by code_simp
  then obtain r w ev' r' w' where n: "pr_next no_faults r w = Some (Some ev', r', w')" by (auto split: option.splits)
  from event_sources_well_formed [of "mem_of 4352 (bench_frame 24)" 4096 9 "to_RxDesc (demo_desc 256)" ev no_faults r w ev' r' w'] f n
  show ?thesis by blast
qed

end
